(* ===== verification/Prelude.thy ===== *)
theory Prelude
  imports Main "HOL-Library.Word" "HOL-Library.Sublist" "HOL-Library.Multiset"
begin

text \<open>
  Shared vocabulary of the development: the comparator contract of JavaScript
  (a function of two arguments whose sign is the verdict), its lexicographic
  lifting to lists, byte strings and the separation relation behind
  order-preserving key encodings.
\<close>

named_theorems cmp_simps
named_theorems sep_intros

type_synonym 'a comparator = "'a \<Rightarrow> 'a \<Rightarrow> int"
type_synonym byte = "8 word"

section \<open>Comparators\<close>

text \<open>
  A comparator returns a negative number, zero or a positive number. The contract
  every ordered structure relies on (sort, BTree, merge) is that on the values it is
  used with the verdicts form a total preorder. The carrier \<open>A\<close> names those values:
  some comparators of the program are only coherent away from degenerate inputs.
\<close>

locale comparator_on =
  fixes A :: "'a set" and cmp :: "'a comparator"
  assumes cmp_antisym: "x \<in> A \<Longrightarrow> y \<in> A \<Longrightarrow> sgn (cmp y x) = - sgn (cmp x y)"
    and cmp_trans: "x \<in> A \<Longrightarrow> y \<in> A \<Longrightarrow> z \<in> A \<Longrightarrow> cmp x y \<le> 0 \<Longrightarrow> cmp y z \<le> 0 \<Longrightarrow> cmp x z \<le> 0"
begin

lemma cmp_refl: "x \<in> A \<Longrightarrow> cmp x x = 0"
  using cmp_antisym [of x x] by (simp add: sgn_if split: if_splits)

lemma cmp_flip:
  assumes "x \<in> A" "y \<in> A"
  shows "cmp y x < 0 \<longleftrightarrow> 0 < cmp x y" "cmp y x = 0 \<longleftrightarrow> cmp x y = 0" "0 < cmp y x \<longleftrightarrow> cmp x y < 0"
  using cmp_antisym [OF assms] by (auto simp: sgn_if split: if_splits)

lemma cmp_le_total: "x \<in> A \<Longrightarrow> y \<in> A \<Longrightarrow> cmp x y \<le> 0 \<or> cmp y x \<le> 0"
  using cmp_flip [of x y] by linarith

lemma cmp_le_flip: "x \<in> A \<Longrightarrow> y \<in> A \<Longrightarrow> cmp y x \<le> 0 \<longleftrightarrow> 0 \<le> cmp x y"
  using cmp_flip [of x y] by linarith

lemma cmp_eq_trans:
  assumes "x \<in> A" "y \<in> A" "z \<in> A" "cmp x y = 0" "cmp y z = 0"
  shows "cmp x z = 0"
proof -
  have "cmp x z \<le> 0" using assms by (intro cmp_trans [of x y z]) auto
  moreover have "cmp z x \<le> 0"
    using assms cmp_flip(2) [of x y] cmp_flip(2) [of y z] by (intro cmp_trans [of z y x]) auto
  ultimately show ?thesis using cmp_le_flip [of x z] assms by simp
qed

lemma cmp_le_lt_trans:
  assumes "x \<in> A" "y \<in> A" "z \<in> A" "cmp x y \<le> 0" "cmp y z < 0"
  shows "cmp x z < 0"
proof (rule ccontr)
  assume "\<not> cmp x z < 0"
  then have "cmp z x \<le> 0" using cmp_le_flip [of x z] assms by simp
  then have "cmp z y \<le> 0" using assms by (intro cmp_trans [of z x y]) auto
  then show False using cmp_le_flip [of y z] assms by simp
qed

lemma cmp_lt_le_trans:
  assumes "x \<in> A" "y \<in> A" "z \<in> A" "cmp x y < 0" "cmp y z \<le> 0"
  shows "cmp x z < 0"
proof (rule ccontr)
  assume "\<not> cmp x z < 0"
  then have "cmp z x \<le> 0" using cmp_le_flip [of x z] assms by simp
  then have "cmp y x \<le> 0" using assms by (intro cmp_trans [of y z x]) auto
  then show False using cmp_le_flip [of x y] assms by simp
qed

lemma cmp_lt_trans: "x \<in> A \<Longrightarrow> y \<in> A \<Longrightarrow> z \<in> A \<Longrightarrow> cmp x y < 0 \<Longrightarrow> cmp y z < 0 \<Longrightarrow> cmp x z < 0"
  using cmp_le_lt_trans [of x y z] by simp

lemma cmp_eq_subst: 
  assumes "x \<in> A" "y \<in> A" "z \<in> A" "cmp x y = 0"
  shows "sgn (cmp x z) = sgn (cmp y z)"
proof -
  have "cmp y x = 0" using assms cmp_flip(2) [of x y] by simp
  then have "cmp y x \<le> 0" "cmp x y \<le> 0" using assms by simp_all
  then have "cmp x z < 0 \<longleftrightarrow> cmp y z < 0"
    using cmp_le_lt_trans [OF assms(1,2,3)] cmp_le_lt_trans [OF assms(2,1,3)] by blast
  moreover have "cmp x z = 0 \<longleftrightarrow> cmp y z = 0"
    using cmp_eq_trans [OF assms(1,2,3)] cmp_eq_trans [OF assms(2,1,3)] assms(4) \<open>cmp y x = 0\<close> by blast
  ultimately show ?thesis by (auto simp: sgn_if)
qed

lemma negated: "comparator_on A (\<lambda>x y. - cmp x y)"
proof
  fix x y z assume A: "x \<in> A" "y \<in> A" "z \<in> A"
  show "sgn (- cmp y x) = - sgn (- cmp x y)" using cmp_antisym [of x y] A by simp
  assume "- cmp x y \<le> 0" "- cmp y z \<le> 0"
  then have "cmp y x \<le> 0" "cmp z y \<le> 0" using A cmp_le_flip by auto
  then have "cmp z x \<le> 0" using A cmp_trans [of z y x] by simp
  then show "- cmp x z \<le> 0" using A cmp_le_flip [of x z] by simp
qed

lemma vimage:
  assumes "f ` B \<subseteq> A"
  shows "comparator_on B (\<lambda>x y. cmp (f x) (f y))"
proof
  fix x y z assume "x \<in> B" "y \<in> B" "z \<in> B"
  then have A: "f x \<in> A" "f y \<in> A" "f z \<in> A" using assms by auto
  show "sgn (cmp (f y) (f x)) = - sgn (cmp (f x) (f y))" by (rule cmp_antisym [OF A(1,2)])
  show "cmp (f x) (f y) \<le> 0 \<Longrightarrow> cmp (f y) (f z) \<le> 0 \<Longrightarrow> cmp (f x) (f z) \<le> 0"
    by (rule cmp_trans [OF A])
qed

lemma subset: "B \<subseteq> A \<Longrightarrow> comparator_on B cmp"
  using vimage [of id B] by simp

end

text \<open>A comparator is discriminating when verdict 0 means identity.\<close>

locale discriminating_comparator_on = comparator_on +
  assumes cmp_eq_imp: "x \<in> A \<Longrightarrow> y \<in> A \<Longrightarrow> cmp x y = 0 \<Longrightarrow> x = y"
begin

lemma cmp_eq_iff: "x \<in> A \<Longrightarrow> y \<in> A \<Longrightarrow> cmp x y = 0 \<longleftrightarrow> x = y"
  using cmp_eq_imp cmp_refl by blast

end

abbreviation comparator_total :: "'a comparator \<Rightarrow> bool" where
  "comparator_total \<equiv> comparator_on UNIV"

text \<open>The comparator \<open>a < b ? -1 : a > b ? 1 : 0\<close> of a linear order.\<close>

definition ord_cmp :: "'a::linorder comparator" where
  "ord_cmp a b = (if a < b then -1 else if b < a then 1 else 0)"

lemma ord_cmp_sign [cmp_simps]:
  "ord_cmp a b < 0 \<longleftrightarrow> a < b" "ord_cmp a b = 0 \<longleftrightarrow> a = b" "0 < ord_cmp a b \<longleftrightarrow> b < a"
  "ord_cmp a b \<le> 0 \<longleftrightarrow> a \<le> b" "ord_cmp a a = 0"
  by (auto simp: ord_cmp_def)

interpretation ord: discriminating_comparator_on UNIV ord_cmp
  by unfold_locales (auto simp: ord_cmp_def split: if_splits)

text \<open>Only the signs of the verdicts matter.\<close>

lemma comparator_on_cong:
  assumes "comparator_on A c" "\<And>x y. x \<in> A \<Longrightarrow> y \<in> A \<Longrightarrow> sgn (c' x y) = sgn (c x y)"
  shows "comparator_on A c'"
proof -
  have le: "c' x y \<le> 0 \<longleftrightarrow> c x y \<le> 0" if "x \<in> A" "y \<in> A" for x y
    using assms(2) [OF that] by (auto simp: sgn_if split: if_splits)
  show ?thesis
  proof
    fix x y z assume A: "x \<in> A" "y \<in> A" "z \<in> A"
    show "sgn (c' y x) = - sgn (c' x y)"
      using comparator_on.cmp_antisym [OF assms(1) A(1,2)] assms(2) [OF A(1,2)] assms(2) [OF A(2,1)] by simp
    show "c' x y \<le> 0 \<Longrightarrow> c' y z \<le> 0 \<Longrightarrow> c' x z \<le> 0"
      using comparator_on.cmp_trans [OF assms(1) A] le [OF A(1,2)] le [OF A(2,3)] le [OF A(1,3)] by blast
  qed
qed

text \<open>
  Ranking by class first: values of different classes are ordered by the class number,
  values of one class by that class's comparator.
\<close>

lemma by_class_comparator:
  fixes cls :: "'a \<Rightarrow> int"
  assumes "\<And>k. comparator_on {x \<in> A. cls x = k} c"
  shows "comparator_on A (\<lambda>x y. if cls x = cls y then c x y else cls x - cls y)"
proof
  fix x y z assume "x \<in> A" "y \<in> A" "z \<in> A"
  then have anti: "cls y = cls x \<Longrightarrow> sgn (c y x) = - sgn (c x y)"
    and tr: "cls x = cls y \<Longrightarrow> cls y = cls z \<Longrightarrow> c x y \<le> 0 \<Longrightarrow> c y z \<le> 0 \<Longrightarrow> c x z \<le> 0"
    using comparator_on.cmp_antisym [OF assms, of x "cls x" y]
      comparator_on.cmp_trans [OF assms, of x "cls x" y z] by simp_all
  show "sgn (if cls y = cls x then c y x else cls y - cls x)
      = - sgn (if cls x = cls y then c x y else cls x - cls y)"
    using anti by (cases "cls x = cls y") (simp_all add: sgn_if)
  assume "(if cls x = cls y then c x y else cls x - cls y) \<le> 0"
    and "(if cls y = cls z then c y z else cls y - cls z) \<le> 0"
  then show "(if cls x = cls z then c x z else cls x - cls z) \<le> 0"
    using tr by (simp split: if_splits)
qed

text \<open>Two comparators in sequence: the second decides where the first does not.\<close>

lemma comparator_on_then:
  assumes "comparator_on A c" "comparator_on A d"
  shows "comparator_on A (\<lambda>x y. if c x y \<noteq> 0 then c x y else d x y)"
proof
  fix x y z assume A: "x \<in> A" "y \<in> A" "z \<in> A"
  note flip = comparator_on.cmp_flip(2) [OF assms(1)]
  show "sgn (if c y x \<noteq> 0 then c y x else d y x) = - sgn (if c x y \<noteq> 0 then c x y else d x y)"
    using comparator_on.cmp_antisym [OF assms(1) A(1,2)] comparator_on.cmp_antisym [OF assms(2) A(1,2)]
      flip [OF A(1,2)] by simp
  assume le: "(if c x y \<noteq> 0 then c x y else d x y) \<le> 0" "(if c y z \<noteq> 0 then c y z else d y z) \<le> 0"
  then have le': "c x y \<le> 0" "c y z \<le> 0" by (simp_all split: if_splits)
  show "(if c x z \<noteq> 0 then c x z else d x z) \<le> 0"
  proof (cases "c x z = 0")
    case True
    then have "\<not> c x y < 0" "\<not> c y z < 0"
      using comparator_on.cmp_le_lt_trans [OF assms(1) A le'(1)]
        comparator_on.cmp_lt_le_trans [OF assms(1) A _ le'(2)] by linarith+
    then have "d x y \<le> 0" "d y z \<le> 0" using le le' by simp_all
    then show ?thesis using True comparator_on.cmp_trans [OF assms(2) A] by simp
  next
    case False
    then show ?thesis using comparator_on.cmp_trans [OF assms(1) A le'] by simp
  qed
qed

section \<open>Lexicographic lifting\<close>

fun lex_cmp :: "'a comparator \<Rightarrow> 'a list comparator" where
  "lex_cmp c [] [] = 0"
| "lex_cmp c [] (_ # _) = -1"
| "lex_cmp c (_ # _) [] = 1"
| "lex_cmp c (x # xs) (y # ys) = (if c x y \<noteq> 0 then c x y else lex_cmp c xs ys)"

lemma lex_cmp_same: "(\<And>x. x \<in> set xs \<Longrightarrow> c x x = 0) \<Longrightarrow> lex_cmp c xs xs = 0"
  by (induction xs) auto

context comparator_on
begin

lemma lex_antisym: "set xs \<subseteq> A \<Longrightarrow> set ys \<subseteq> A \<Longrightarrow> sgn (lex_cmp cmp ys xs) = - sgn (lex_cmp cmp xs ys)"
proof (induction xs ys rule: list_induct2')
  case (4 x xs y ys)
  then show ?case
    using cmp_antisym [of x y] cmp_flip(2) [of x y] by auto
qed auto

lemma lex_trans:
  "set xs \<subseteq> A \<Longrightarrow> set ys \<subseteq> A \<Longrightarrow> set zs \<subseteq> A \<Longrightarrow>
   lex_cmp cmp xs ys \<le> 0 \<Longrightarrow> lex_cmp cmp ys zs \<le> 0 \<Longrightarrow> lex_cmp cmp xs zs \<le> 0"
proof (induction xs arbitrary: ys zs)
  case Nil
  then show ?case by (cases zs) auto
next
  case (Cons x xs)
  from Cons.prems obtain y ys' where ys: "ys = y # ys'" by (cases ys) auto
  with Cons.prems obtain z zs' where zs: "zs = z # zs'" by (cases zs) auto
  have A: "x \<in> A" "y \<in> A" "z \<in> A" using Cons.prems ys zs by auto
  have le: "cmp x y \<le> 0" "cmp y z \<le> 0" using Cons.prems(4,5) ys zs by (simp_all split: if_splits)
  show ?case
  proof (cases "cmp x y = 0 \<and> cmp y z = 0")
    case True
    then have "cmp x z = 0" using cmp_eq_trans [OF A] by simp
    then show ?thesis using Cons.IH [of ys' zs'] Cons.prems True ys zs by simp
  next
    case False
    then have "cmp x z < 0"
      using le cmp_le_lt_trans [OF A le(1)] cmp_lt_le_trans [OF A _ le(2)] by fastforce
    then show ?thesis using zs by simp
  qed
qed

lemma lex_comparator: "comparator_on {xs. set xs \<subseteq> A} (lex_cmp cmp)"
proof
  fix xs ys zs :: "'a list"
  assume "xs \<in> {xs. set xs \<subseteq> A}" "ys \<in> {xs. set xs \<subseteq> A}" "zs \<in> {xs. set xs \<subseteq> A}"
  then have S: "set xs \<subseteq> A" "set ys \<subseteq> A" "set zs \<subseteq> A" by auto
  show "sgn (lex_cmp cmp ys xs) = - sgn (lex_cmp cmp xs ys)" by (rule lex_antisym [OF S(1,2)])
  show "lex_cmp cmp xs ys \<le> 0 \<Longrightarrow> lex_cmp cmp ys zs \<le> 0 \<Longrightarrow> lex_cmp cmp xs zs \<le> 0"
    by (rule lex_trans [OF S])
qed

end

lemma lex_cmp_append_same:
  "(\<And>x. x \<in> set p \<Longrightarrow> c x x = 0) \<Longrightarrow> lex_cmp c (p @ u) (p @ v) = lex_cmp c u v"
  by (induction p) auto

lemma lex_ord_cmp_eq_iff: "lex_cmp ord_cmp xs ys = 0 \<longleftrightarrow> xs = ys"
  by (induction xs ys rule: list_induct2') (auto simp: cmp_simps)

lemma lex_ord_comparator: "comparator_total (lex_cmp ord_cmp)"
  using ord.lex_comparator by simp

section \<open>Separated sequences\<close>

text \<open>
  Two sequences are separated when they differ at a position inside both, the first
  holding the smaller element there. Unlike the lexicographic order itself, separation
  survives appending anything to either side: it is what makes the concatenation of
  encoded key parts order-preserving.
\<close>

definition sep :: "'a::linorder list \<Rightarrow> 'a list \<Rightarrow> bool" where
  "sep u v \<longleftrightarrow> (\<exists>p a b u' v'. u = p @ a # u' \<and> v = p @ b # v' \<and> a < b)"

lemma sep_head [sep_intros]: "a < b \<Longrightarrow> sep (a # u) (b # v)"
  unfolding sep_def by (intro exI [of _ "[]"]) simp

lemma sepI: "a < b \<Longrightarrow> sep (p @ a # u) (p @ b # v)"
  unfolding sep_def by blast

lemma sepE:
  assumes "sep u v"
  obtains p a b u' v' where "u = p @ a # u'" "v = p @ b # v'" "a < b"
  using assms unfolding sep_def by blast

lemma sep_prepend: "sep u v \<Longrightarrow> sep (p @ u) (p @ v)"
  by (elim sepE) (simp only: append_assoc [symmetric] sepI)

lemma sep_Cons [sep_intros]: "sep u v \<Longrightarrow> sep (a # u) (a # v)"
  using sep_prepend [of u v "[a]"] by simp

lemma sep_append [sep_intros]: "sep u v \<Longrightarrow> sep (u @ s) (v @ t)"
  by (elim sepE) (simp add: sepI)

lemma sep_lex: "sep u v \<Longrightarrow> lex_cmp ord_cmp u v < 0"
  by (auto simp: sep_def lex_cmp_append_same cmp_simps)

lemma sep_map_antimono:
  assumes "\<And>a b. a < b \<Longrightarrow> f b < f a" and "sep u v"
  shows "sep (map f v) (map f u)"
  using assms(2) by (elim sepE) (simp add: sepI assms(1))

lemma sep_Cons_iff: "sep (a # u) (b # v) \<longleftrightarrow> a < b \<or> (a = b \<and> sep u v)"
proof
  assume "sep (a # u) (b # v)"
  then obtain p x y u' v' where *: "a # u = p @ x # u'" "b # v = p @ y # v'" "x < y"
    unfolding sep_def by blast
  then show "a < b \<or> (a = b \<and> sep u v)"
    by (cases p) (auto simp: sep_def)
qed (auto intro: sep_intros)

lemma sep_lex_iff_length: "length u = length v \<Longrightarrow> sep u v \<longleftrightarrow> lex_cmp ord_cmp u v < 0"
proof (induction u v rule: list_induct2)
  case Nil
  then show ?case by (simp add: sep_def)
next
  case (Cons x xs y ys)
  then show ?case by (auto simp: sep_Cons_iff cmp_simps)
qed

text \<open>
  An encoder that separates values the comparator distinguishes and identifies values it
  does not: the interface between a value comparator and the bytes a store sorts by.
\<close>

locale sep_encoder = comparator_on A cmp for A and cmp :: "'a comparator" +
  fixes enc :: "'a \<Rightarrow> 'b::linorder list"
  assumes enc_sep: "x \<in> A \<Longrightarrow> y \<in> A \<Longrightarrow> cmp x y < 0 \<Longrightarrow> sep (enc x) (enc y)"
    and enc_eq: "x \<in> A \<Longrightarrow> y \<in> A \<Longrightarrow> cmp x y = 0 \<Longrightarrow> enc x = enc y"
begin

lemma enc_append_sgn:
  assumes "x \<in> A" "y \<in> A"
  shows "sgn (lex_cmp ord_cmp (enc x @ s) (enc y @ t)) =
    (if cmp x y \<noteq> 0 then sgn (cmp x y) else sgn (lex_cmp ord_cmp s t))"
proof -
  consider "cmp x y < 0" | "cmp x y = 0" | "cmp y x < 0" using cmp_flip(1) [OF assms] by linarith
  then show ?thesis
  proof cases
    case 1
    then have "lex_cmp ord_cmp (enc x @ s) (enc y @ t) < 0"
      by (intro sep_lex sep_append enc_sep assms)
    with 1 show ?thesis by simp
  next
    case 2
    then show ?thesis using enc_eq [OF assms 2] by (simp add: lex_cmp_append_same cmp_simps)
  next
    case 3
    then have "lex_cmp ord_cmp (enc y @ t) (enc x @ s) < 0"
      by (intro sep_lex sep_append enc_sep assms)
    then have "sgn (lex_cmp ord_cmp (enc x @ s) (enc y @ t)) = 1"
      using comparator_on.cmp_antisym [OF lex_ord_comparator, of "enc y @ t" "enc x @ s"] by simp
    moreover have "0 < cmp x y" using 3 cmp_flip(1) [OF assms] by simp
    ultimately show ?thesis by simp
  qed
qed

lemma enc_sgn: "x \<in> A \<Longrightarrow> y \<in> A \<Longrightarrow> sgn (lex_cmp ord_cmp (enc x) (enc y)) = sgn (cmp x y)"
  using enc_append_sgn [of x y "[]" "[]"] by simp

lemma enc_inj_iff: "x \<in> A \<Longrightarrow> y \<in> A \<Longrightarrow> enc x = enc y \<longleftrightarrow> cmp x y = 0"
  using enc_sgn [of x y] enc_eq [of x y] lex_ord_cmp_eq_iff [of "enc x" "enc y"]
  by (auto simp: sgn_if split: if_splits)

lemma enc_nonempty: "x \<in> A \<Longrightarrow> y \<in> A \<Longrightarrow> cmp x y \<noteq> 0 \<Longrightarrow> enc x \<noteq> []"
  using enc_sep [of x y] enc_sep [of y x] cmp_flip [of x y] by (auto simp: sep_def neq_iff)

text \<open>Concatenating the encodings of two sequences, terminated by nothing.\<close>

lemma concat_sgn:
  assumes ne: "\<And>x. x \<in> A \<Longrightarrow> enc x \<noteq> []"
  shows "set xs \<subseteq> A \<Longrightarrow> set ys \<subseteq> A \<Longrightarrow>
    sgn (lex_cmp ord_cmp (concat (map enc xs)) (concat (map enc ys))) = sgn (lex_cmp cmp xs ys)"
proof (induction xs ys rule: list_induct2')
  case (2 x xs)
  then obtain a r where "enc x = a # r" using ne [of x] by (cases "enc x") auto
  then show ?case by simp
next
  case (3 y ys)
  then obtain a r where "enc y = a # r" using ne [of y] by (cases "enc y") auto
  then show ?case by simp
next
  case (4 x xs y ys)
  then show ?case by (simp add: enc_append_sgn)
qed simp

end

lemma sep_encoder_vimage:
  assumes "sep_encoder A c e" "f ` B \<subseteq> A"
  shows "sep_encoder B (\<lambda>x y. c (f x) (f y)) (\<lambda>x. e (f x))"
proof (intro sep_encoder.intro sep_encoder_axioms.intro)
  note base = sep_encoder.axioms(1) [OF assms(1)]
  show "comparator_on B (\<lambda>x y. c (f x) (f y))" by (rule comparator_on.vimage [OF base assms(2)])
  fix x y assume "x \<in> B" "y \<in> B"
  then have A: "f x \<in> A" "f y \<in> A" using assms(2) by auto
  show "c (f x) (f y) < 0 \<Longrightarrow> sep (e (f x)) (e (f y))" by (rule sep_encoder.enc_sep [OF assms(1) A])
  show "c (f x) (f y) = 0 \<Longrightarrow> e (f x) = e (f y)" by (rule sep_encoder.enc_eq [OF assms(1) A])
qed

text \<open>Inverting every symbol reverses the order.\<close>

lemma sep_encoder_antimono:
  assumes "sep_encoder A c e" "\<And>a b. a < b \<Longrightarrow> f b < f a"
  shows "sep_encoder A (\<lambda>x y. - c x y) (\<lambda>x. map f (e x))"
proof (intro sep_encoder.intro sep_encoder_axioms.intro)
  note base = sep_encoder.axioms(1) [OF assms(1)]
  show "comparator_on A (\<lambda>x y. - c x y)" by (rule comparator_on.negated [OF base])
  fix x y assume A: "x \<in> A" "y \<in> A"
  show "- c x y < 0 \<Longrightarrow> sep (map f (e x)) (map f (e y))"
    using sep_encoder.enc_sep [OF assms(1) A(2,1)] comparator_on.cmp_flip(1) [OF base A]
    by (simp add: sep_map_antimono assms(2))
  show "- c x y = 0 \<Longrightarrow> map f (e x) = map f (e y)"
    using sep_encoder.enc_eq [OF assms(1) A] by simp
qed

section \<open>Sorting by a comparator\<close>

text \<open>\<open>Array.prototype.sort\<close> with a comparator: the stable sort.\<close>

fun insort_cmp :: "'a comparator \<Rightarrow> 'a \<Rightarrow> 'a list \<Rightarrow> 'a list" where
  "insort_cmp c x [] = [x]"
| "insort_cmp c x (y # ys) = (if c x y \<le> 0 then x # y # ys else y # insort_cmp c x ys)"

fun sort_cmp :: "'a comparator \<Rightarrow> 'a list \<Rightarrow> 'a list" where
  "sort_cmp c [] = []"
| "sort_cmp c (x # xs) = insort_cmp c x (sort_cmp c xs)"

lemma mset_insort_cmp [simp]: "mset (insort_cmp c x xs) = add_mset x (mset xs)"
  by (induction xs) auto

lemma mset_sort_cmp [simp]: "mset (sort_cmp c xs) = mset xs"
  by (induction xs) auto

lemma set_sort_cmp [simp]: "set (sort_cmp c xs) = set xs"
  by (metis mset_sort_cmp set_mset_mset)

lemma length_sort_cmp [simp]: "length (sort_cmp c xs) = length xs"
  by (metis mset_sort_cmp size_mset)

abbreviation sorted_cmp :: "'a comparator \<Rightarrow> 'a list \<Rightarrow> bool" where
  "sorted_cmp c \<equiv> sorted_wrt (\<lambda>x y. c x y \<le> 0)"

abbreviation strict_cmp :: "'a comparator \<Rightarrow> 'a list \<Rightarrow> bool" where
  "strict_cmp c \<equiv> sorted_wrt (\<lambda>x y. c x y < 0)"

context comparator_on
begin

lemma sorted_insort_cmp:
  "x \<in> A \<Longrightarrow> set xs \<subseteq> A \<Longrightarrow> sorted_cmp cmp xs \<Longrightarrow> sorted_cmp cmp (insort_cmp cmp x xs)"
proof (induction xs)
  case (Cons y ys)
  have set_ins: "set (insort_cmp cmp x ys) = insert x (set ys)"
    by (metis mset_insort_cmp set_mset_mset set_mset_add_mset_insert)
  have "cmp y x \<le> 0" if "\<not> cmp x y \<le> 0"
    using that cmp_le_flip [of x y] Cons.prems by simp
  moreover have "cmp x z \<le> 0" if "cmp x y \<le> 0" "z \<in> set ys" for z
    using that Cons.prems cmp_trans [of x y z] by auto
  ultimately show ?case using Cons by (auto simp: set_ins)
qed simp

lemma sorted_sort_cmp: "set xs \<subseteq> A \<Longrightarrow> sorted_cmp cmp (sort_cmp cmp xs)"
  by (induction xs) (auto simp: sorted_insort_cmp)

end

text \<open>
  Under a discriminating comparator a sorted list without repetitions is strictly sorted,
  and it is determined by its elements.
\<close>

context discriminating_comparator_on
begin

lemma strict_iff: "set xs \<subseteq> A \<Longrightarrow> strict_cmp cmp xs \<longleftrightarrow> sorted_cmp cmp xs \<and> distinct xs"
proof (induction xs)
  case (Cons x xs)
  have "(\<forall>y\<in>set xs. cmp x y < 0) \<longleftrightarrow> (\<forall>y\<in>set xs. cmp x y \<le> 0) \<and> x \<notin> set xs"
  proof -
    have "cmp x y < 0 \<longleftrightarrow> cmp x y \<le> 0 \<and> x \<noteq> y" if "y \<in> set xs" for y
      using that Cons.prems cmp_eq_iff [of x y] by auto
    then show ?thesis by auto
  qed
  with Cons show ?case by auto
qed simp

lemma strict_sort: "set xs \<subseteq> A \<Longrightarrow> distinct xs \<Longrightarrow> strict_cmp cmp (sort_cmp cmp xs)"
  using strict_iff [of "sort_cmp cmp xs"] sorted_sort_cmp [of xs]
  by (simp add: mset_eq_imp_distinct_iff [OF mset_sort_cmp])

lemma strict_unique:
  "set xs \<subseteq> A \<Longrightarrow> strict_cmp cmp xs \<Longrightarrow> strict_cmp cmp ys \<Longrightarrow> set xs = set ys \<Longrightarrow> xs = ys"
proof (induction xs arbitrary: ys)
  case (Cons x xs)
  then obtain y ys' where ys: "ys = y # ys'" by (cases ys) auto
  have A: "x \<in> A" "y \<in> A" using Cons.prems(1,4) ys by auto
  have "x = y"
  proof (rule ccontr)
    assume "x \<noteq> y"
    then have "x \<in> set ys'" "y \<in> set xs" using Cons.prems(4) ys by auto
    then have "cmp x y < 0" "cmp y x < 0" using Cons.prems(2,3) ys by auto
    then show False using cmp_flip(1) [OF A] by simp
  qed
  have irr: "x \<notin> set xs" "x \<notin> set ys'"
    using Cons.prems(2,3) ys \<open>x = y\<close> cmp_refl [OF A(1)] by auto
  then have "set xs = set ys'" using Cons.prems(4) ys \<open>x = y\<close> by auto
  then show ?case using Cons.IH [of ys'] Cons.prems ys \<open>x = y\<close> by simp
qed simp

lemma sort_cmp_cong:
  assumes "set xs \<subseteq> A" "distinct xs" "distinct ys" "set xs = set ys"
  shows "sort_cmp cmp xs = sort_cmp cmp ys"
  using assms by (intro strict_unique) (simp_all add: strict_sort)

end

end
