(* ===== verification/Js_Values.thy ===== *)
theory Js_Values
  imports Prelude "HOL-Library.Log_Nat"
begin

text \<open>
  The JavaScript values the engine computes with: IEEE-754 doubles by their bits,
  bigints, UTF-16 strings with the UTF-8 encoding of \<open>TextEncoder\<close>, JSON values with
  \<open>JSON.stringify\<close>, and on top of them \<open>SqlValue\<close> (common/types.ts).
\<close>

unbundle bit_operations_syntax

lemma unat_word_less:
  fixes u :: "16 word" and b :: "8 word" and w :: "64 word"
  shows "unat u < 65536" "unat b < 256" "unat w < 18446744073709551616"
proof -
  have "unat u < 2 ^ LENGTH(16)" "unat b < 2 ^ LENGTH(8)" "unat w < 2 ^ LENGTH(64)"
    by (rule unsigned_less)+
  then show "unat u < 65536" "unat b < 256" "unat w < 18446744073709551616" by simp_all
qed

lemma unat_inj: "unat u = unat v \<longleftrightarrow> u = v"
  by (auto intro: unsigned_word_eqI)

section \<open>Numbers\<close>

text \<open>
  A JavaScript \<open>number\<close> is an IEEE-754 double, kept as its 64 bits: a sign bit and a
  63-bit magnitude (11 exponent bits, 52 fraction bits). Every finite double is an integer
  multiple of \<open>2 ^ -1074\<close>, so its exact value is the integer \<open>dscaled\<close> counted in that
  unit; no rounding is involved in comparing values.
\<close>

type_synonym double = "64 word"

definition dneg :: "double \<Rightarrow> bool" where
  "dneg w \<longleftrightarrow> 2 ^ 63 \<le> unat w"

definition dmag :: "double \<Rightarrow> nat" where
  "dmag w = unat w mod 2 ^ 63"

definition mag_inf :: nat where
  "mag_inf = 2047 * 2 ^ 52"

definition is_nan :: "double \<Rightarrow> bool" where
  "is_nan w \<longleftrightarrow> mag_inf < dmag w"

definition is_inf :: "double \<Rightarrow> bool" where
  "is_inf w \<longleftrightarrow> dmag w = mag_inf"

definition mag_scaled :: "nat \<Rightarrow> nat" where
  "mag_scaled m = (let e = m div 2 ^ 52; f = m mod 2 ^ 52
     in if e = 0 then f else (2 ^ 52 + f) * 2 ^ (e - 1))"

text \<open>Extended integers: the finite values and the two infinities, linearly ordered.\<close>

datatype num_val = NegInf | Fin int | PosInf

instantiation num_val :: linorder
begin

fun less_eq_num_val :: "num_val \<Rightarrow> num_val \<Rightarrow> bool" where
  "less_eq_num_val NegInf _ = True"
| "less_eq_num_val _ PosInf = True"
| "less_eq_num_val (Fin a) (Fin b) = (a \<le> b)"
| "less_eq_num_val _ _ = False"

definition less_num_val :: "num_val \<Rightarrow> num_val \<Rightarrow> bool" where
  "less_num_val a b \<longleftrightarrow> a \<le> b \<and> \<not> b \<le> a"

instance
proof
  fix x y z :: num_val
  show "(x < y) = (x \<le> y \<and> \<not> y \<le> x)" by (rule less_num_val_def)
  show "x \<le> x" by (cases x) auto
  show "x \<le> y \<Longrightarrow> y \<le> z \<Longrightarrow> x \<le> z" by (cases x; cases y; cases z) auto
  show "x \<le> y \<Longrightarrow> y \<le> x \<Longrightarrow> x = y" by (cases x; cases y) auto
  show "x \<le> y \<or> y \<le> x" by (cases x; cases y) auto
qed

end

lemma less_num_val_simps [simp]:
  "Fin a < Fin b \<longleftrightarrow> a < b" "NegInf < Fin a" "Fin a < PosInf" "NegInf < PosInf"
  "\<not> x < NegInf" "\<not> PosInf < x"
  by (auto simp: less_num_val_def) (cases x; simp)+

datatype js_number = Dbl double | Big int

text \<open>
  The exact mathematical value, in units of \<open>2 ^ -1074\<close>; NaN has none. The relational
  operators on \<open>number | bigint\<close> compare these values and are false on NaN.
\<close>

fun num_value :: "js_number \<Rightarrow> num_val option" where
  "num_value (Big n) = Some (Fin (n * 2 ^ 1074))"
| "num_value (Dbl w) =
     (if is_nan w then None
      else if is_inf w then Some (if dneg w then NegInf else PosInf)
      else Some (Fin (if dneg w then - int (mag_scaled (dmag w)) else int (mag_scaled (dmag w)))))"

definition js_less :: "js_number \<Rightarrow> js_number \<Rightarrow> bool" where
  "js_less a b = (case (num_value a, num_value b) of (Some x, Some y) \<Rightarrow> x < y | _ \<Rightarrow> False)"

section \<open>Strings\<close>

type_synonym js_string = "16 word list"

definition is_high_surrogate :: "nat \<Rightarrow> bool" where
  "is_high_surrogate u \<longleftrightarrow> 0xD800 \<le> u \<and> u \<le> 0xDBFF"

definition is_low_surrogate :: "nat \<Rightarrow> bool" where
  "is_low_surrogate u \<longleftrightarrow> 0xDC00 \<le> u \<and> u \<le> 0xDFFF"

text \<open>
  The code points of a string: a surrogate pair is one code point, a lone surrogate is
  read as U+FFFD, the way \<open>TextEncoder\<close> reads it.
\<close>

fun code_points :: "js_string \<Rightarrow> nat list" where
  "code_points [] = []"
| "code_points [u] = [if is_high_surrogate (unat u) \<or> is_low_surrogate (unat u) then 0xFFFD else unat u]"
| "code_points (u # v # s) =
     (if is_high_surrogate (unat u)
      then (if is_low_surrogate (unat v)
            then (0x10000 + (unat u - 0xD800) * 0x400 + (unat v - 0xDC00)) # code_points s
            else 0xFFFD # code_points (v # s))
      else (if is_low_surrogate (unat u) then 0xFFFD else unat u) # code_points (v # s))"

fun well_formed :: "js_string \<Rightarrow> bool" where
  "well_formed [] = True"
| "well_formed [u] = (\<not> is_high_surrogate (unat u) \<and> \<not> is_low_surrogate (unat u))"
| "well_formed (u # v # s) =
     (if is_high_surrogate (unat u) then is_low_surrogate (unat v) \<and> well_formed s
      else \<not> is_low_surrogate (unat u) \<and> well_formed (v # s))"

definition utf8 :: "nat \<Rightarrow> byte list" where
  "utf8 c = map word_of_nat
     (if c < 0x80 then [c]
      else if c < 0x800 then [0xC0 + c div 64, 0x80 + c mod 64]
      else if c < 0x10000 then [0xE0 + c div 4096, 0x80 + c div 64 mod 64, 0x80 + c mod 64]
      else [0xF0 + c div 262144, 0x80 + c div 4096 mod 64, 0x80 + c div 64 mod 64, 0x80 + c mod 64])"

definition text_encode :: "js_string \<Rightarrow> byte list" where
  "text_encode s = concat (map utf8 (code_points s))"

text \<open>The code units of an ASCII literal.\<close>

definition lit :: "string \<Rightarrow> js_string" where
  "lit s = map (\<lambda>c. word_of_nat (of_char c)) s"

section \<open>Number to text\<close>

text \<open>
  \<open>Number::toString\<close> of ECMA-262 on a finite double: the shortest decimal that rounds back
  to the double. The magnitude \<open>m\<close> has the value \<open>mag_scaled m / 2 ^ 1074\<close>; a decimal
  rounds to it when it lies between the midpoints to the neighbouring magnitudes, the
  midpoints included when \<open>m\<close> is even.
\<close>

fun dec_digits :: "nat \<Rightarrow> nat list" where
  "dec_digits n = (if n < 10 then [n] else dec_digits (n div 10) @ [n mod 10])"

declare dec_digits.simps [simp del]

definition digit_units :: "nat list \<Rightarrow> js_string" where
  "digit_units = map (\<lambda>d. word_of_nat (48 + d))"

definition int_text :: "int \<Rightarrow> js_string" where
  "int_text n = (if n < 0 then lit ''-'' else []) @ digit_units (dec_digits (nat \<bar>n\<bar>))"

text \<open>The decimal exponent \<open>n\<close> with \<open>10 ^ (n - 1) \<le> x < 10 ^ n\<close>.\<close>

definition dec_exponent :: "nat \<Rightarrow> int" where
  "dec_exponent m = (let v = mag_scaled m in
     if 2 ^ 1074 \<le> v then int (length (dec_digits (v div 2 ^ 1074)))
     else (case find (\<lambda>j. 2 ^ 1074 \<le> v * 10 ^ j) [1..<325] of
             Some j \<Rightarrow> 1 - int j | None \<Rightarrow> 0))"

definition decimal_rounds_to :: "nat \<Rightarrow> nat \<Rightarrow> int \<Rightarrow> bool" where
  "decimal_rounds_to m s p = (let lhs = 2 * s * 2 ^ 1074 * 10 ^ nat p; scale = 10 ^ nat (- p);
       low = (mag_scaled (m - 1) + mag_scaled m) * scale;
       high = (mag_scaled m + mag_scaled (m + 1)) * scale
     in if even m then low \<le> lhs \<and> lhs \<le> high else low < lhs \<and> lhs < high)"

definition shortest_at :: "nat \<Rightarrow> int \<Rightarrow> nat \<Rightarrow> (nat \<times> int) option" where
  "shortest_at m n k = (let p = n - int k;
       num = mag_scaled m * 10 ^ nat (- p); den = 2 ^ 1074 * 10 ^ nat p;
       s0 = num div den; r = num mod den;
       ok0 = decimal_rounds_to m s0 p; ok1 = decimal_rounds_to m (s0 + 1) p;
       pick = (if ok0 \<and> ok1
               then Some (if 2 * r < den then s0 else if den < 2 * r then s0 + 1
                          else if even s0 then s0 else s0 + 1)
               else if ok0 then Some s0 else if ok1 then Some (s0 + 1) else None)
     in map_option (\<lambda>s. if s = 10 ^ k then (10 ^ (k - 1), n + 1) else (s, n)) pick)"

fun first_some :: "('a \<Rightarrow> 'b option) \<Rightarrow> 'a list \<Rightarrow> 'b option" where
  "first_some f [] = None"
| "first_some f (x # xs) = (case f x of None \<Rightarrow> first_some f xs | Some y \<Rightarrow> Some y)"

definition decimal_text :: "nat list \<Rightarrow> int \<Rightarrow> js_string" where
  "decimal_text ds n = (let k = int (length ds); u = digit_units ds in
     if k \<le> n \<and> n \<le> 21 then u @ digit_units (replicate (nat (n - k)) 0)
     else if 0 < n \<and> n \<le> 21 then take (nat n) u @ lit ''.'' @ drop (nat n) u
     else if -6 < n \<and> n \<le> 0 then lit ''0.'' @ digit_units (replicate (nat (- n)) 0) @ u
     else take 1 u @ (if k = 1 then [] else lit ''.'' @ drop 1 u) @ lit ''e'' @
       (if n - 1 < 0 then lit ''-'' else lit ''+'') @ digit_units (dec_digits (nat \<bar>n - 1\<bar>)))"

definition mag_text :: "nat \<Rightarrow> js_string" where
  "mag_text m = (if m = 0 then lit ''0'' else
     (case first_some (shortest_at m (dec_exponent m)) [1..<18] of
        Some (s, n) \<Rightarrow> decimal_text (dec_digits s) n | None \<Rightarrow> []))"

definition number_to_string :: "double \<Rightarrow> js_string" where
  "number_to_string w =
     (if is_nan w then lit ''NaN''
      else if is_inf w then (if dneg w then lit ''-Infinity'' else lit ''Infinity'')
      else (if dneg w \<and> dmag w \<noteq> 0 then lit ''-'' else []) @ mag_text (dmag w))"

section \<open>JSON values and SQL values\<close>

text \<open>
  A JSON object is the list of its own enumerable properties in enumeration order.
\<close>

datatype json = JNull | JBool bool | JNum double | JStr js_string
  | JArr "json list" | JObj "(js_string \<times> json) list"

text \<open>
  \<open>SqlValue = string | number | bigint | boolean | Uint8Array | JsonSqlValue | null\<close>,
  where a \<open>JsonSqlValue\<close> is a JSON object or array. \<open>SqlUndefined\<close> is the \<open>undefined\<close>
  that reading a row past its end yields; the type excludes it and the code meets it only there.
\<close>

datatype sql_value = SqlNull | SqlText js_string | SqlNum double | SqlBig int
  | SqlBool bool | SqlBlob "byte list" | SqlObject "(js_string \<times> json) list" | SqlArray "json list"
  | SqlUndefined

type_synonym row = "sql_value list"

definition row_at :: "row \<Rightarrow> nat \<Rightarrow> sql_value" where
  "row_at r i = (if i < length r then r ! i else SqlUndefined)"

text \<open>\<open>String.prototype.trim\<close> and \<open>Number.isInteger\<close>.\<close>

definition js_space :: "16 word \<Rightarrow> bool" where
  "js_space u \<longleftrightarrow> (let c = unat u in c \<in> {9, 10, 11, 12, 13, 0x20, 0xA0, 0x1680, 0x2028, 0x2029, 0x202F,
     0x205F, 0x3000, 0xFEFF} \<or> 0x2000 \<le> c \<and> c \<le> 0x200A)"

definition js_trim :: "js_string \<Rightarrow> js_string" where
  "js_trim s = rev (dropWhile js_space (rev (dropWhile js_space s)))"

definition js_is_integer :: "double \<Rightarrow> bool" where
  "js_is_integer w \<longleftrightarrow> \<not> is_nan w \<and> \<not> is_inf w \<and> mag_scaled (dmag w) mod 2 ^ 1074 = 0"

end
