(* ===== verification/Json_Canonical.thy ===== *)
theory Json_Canonical
  imports Js_Values
begin

text \<open>
  Canonical JSON text for key derivation (quereus/src/util/json-canonical.ts): object keys
  are sorted recursively, arrays keep their order, and the result goes through
  \<open>JSON.stringify\<close>.
\<close>

section \<open>Property enumeration and assignment\<close>

text \<open>
  Own properties enumerate array-index keys in ascending numeric order first, then the
  other keys in creation order.
\<close>

definition array_index :: "js_string \<Rightarrow> nat option" where
  "array_index k =
     (if k \<noteq> [] \<and> list_all (\<lambda>u. 48 \<le> unat u \<and> unat u \<le> 57) k \<and> (length k = 1 \<or> unat (hd k) \<noteq> 48)
      then (let n = foldl (\<lambda>acc u. acc * 10 + (unat u - 48)) 0 k
            in if n \<le> 4294967294 then Some n else None)
      else None)"

definition own_keys_order :: "(js_string \<times> 'a) list \<Rightarrow> (js_string \<times> 'a) list" where
  "own_keys_order ps =
     sort_cmp (\<lambda>a b. ord_cmp (the (array_index (fst a))) (the (array_index (fst b))))
       (filter (\<lambda>p. array_index (fst p) \<noteq> None) ps)
     @ filter (\<lambda>p. array_index (fst p) = None) ps"

text \<open>
  The assignment \<open>obj[key] = value\<close> on a plain object. The key \<open>__proto__\<close> reaches the
  accessor inherited from \<open>Object.prototype\<close> and creates no own property.
\<close>

definition proto_key :: js_string where
  "proto_key = lit ''__proto__''"

definition set_property :: "js_string \<times> 'a \<Rightarrow> (js_string \<times> 'a) list \<Rightarrow> (js_string \<times> 'a) list" where
  "set_property kv ps =
     (if fst kv = proto_key then ps
      else if fst kv \<in> set (map fst ps) then map (\<lambda>p. if fst p = fst kv then kv else p) ps
      else ps @ [kv])"

definition sort_by_key :: "(js_string \<times> 'a) list \<Rightarrow> (js_string \<times> 'a) list" where
  "sort_by_key = sort_cmp (\<lambda>a b. lex_cmp ord_cmp (fst a) (fst b))"

section \<open>Canonical form\<close>

fun canonicalize :: "json \<Rightarrow> json" where
  "canonicalize (JArr xs) = JArr (map canonicalize xs)"
| "canonicalize (JObj ps) =
     JObj (own_keys_order (fold set_property
       (sort_by_key (map (\<lambda>(k, v). (k, canonicalize v)) ps)) []))"
| "canonicalize v = v"

text \<open>\<open>JSON.stringify\<close>: control characters and lone surrogates are escaped.\<close>

definition hex_unit :: "nat \<Rightarrow> 16 word" where
  "hex_unit d = word_of_nat (if d < 10 then 48 + d else 87 + d)"

definition unicode_escape :: "nat \<Rightarrow> js_string" where
  "unicode_escape u =
     [92, 117] @ map hex_unit [u div 4096 mod 16, u div 256 mod 16, u div 16 mod 16, u mod 16]"

definition quote_unit :: "16 word \<Rightarrow> js_string" where
  "quote_unit u =
     (if u = 8 then [92, 98] else if u = 9 then [92, 116] else if u = 10 then [92, 110]
      else if u = 12 then [92, 102] else if u = 13 then [92, 114]
      else if u = 34 then [92, 34] else if u = 92 then [92, 92]
      else if unat u < 32 then unicode_escape (unat u) else [u])"

fun quote_units :: "js_string \<Rightarrow> js_string" where
  "quote_units [] = []"
| "quote_units [u] =
     (if is_high_surrogate (unat u) \<or> is_low_surrogate (unat u) then unicode_escape (unat u) else quote_unit u)"
| "quote_units (u # v # s) =
     (if is_high_surrogate (unat u)
      then (if is_low_surrogate (unat v) then u # v # quote_units s
            else unicode_escape (unat u) @ quote_units (v # s))
      else (if is_low_surrogate (unat u) then unicode_escape (unat u) else quote_unit u) @ quote_units (v # s))"

definition quote_json :: "js_string \<Rightarrow> js_string" where
  "quote_json s = [34] @ quote_units s @ [34]"

fun comma_join :: "js_string list \<Rightarrow> js_string" where
  "comma_join [] = []"
| "comma_join [x] = x"
| "comma_join (x # xs) = x @ lit '','' @ comma_join xs"

fun stringify :: "json \<Rightarrow> js_string" where
  "stringify JNull = lit ''null''"
| "stringify (JBool b) = (if b then lit ''true'' else lit ''false'')"
| "stringify (JNum w) = (if is_nan w \<or> is_inf w then lit ''null'' else number_to_string w)"
| "stringify (JStr s) = quote_json s"
| "stringify (JArr xs) = lit ''['' @ comma_join (map stringify xs) @ lit '']''"
| "stringify (JObj ps) =
     lit ''{'' @ comma_join (map (\<lambda>(k, v). quote_json k @ lit '':'' @ stringify v) ps) @ lit ''}''"

definition canonicalJsonString :: "json \<Rightarrow> js_string" where
  "canonicalJsonString v = stringify (canonicalize v)"

section \<open>Reordering\<close>

text \<open>
  The equality the canonical form is meant to decide: objects are equal up to the order of
  their properties, arrays element by element.
\<close>

inductive reorder_eq :: "json \<Rightarrow> json \<Rightarrow> bool" where
  reorder_refl: "reorder_eq v v"
| reorder_arr: "list_all2 reorder_eq xs ys \<Longrightarrow> reorder_eq (JArr xs) (JArr ys)"
| reorder_obj: "list_all2 (rel_prod (=) reorder_eq) ps ps' \<Longrightarrow> mset ps' = mset qs \<Longrightarrow>
    reorder_eq (JObj ps) (JObj qs)"

text \<open>Own keys are distinct; \<open>wf_json\<close> also excludes the key that assignment loses.\<close>

fun distinct_keys :: "json \<Rightarrow> bool" where
  "distinct_keys (JArr xs) = list_all distinct_keys xs"
| "distinct_keys (JObj ps) = (distinct (map fst ps) \<and> list_all (\<lambda>(k, v). distinct_keys v) ps)"
| "distinct_keys v = True"

fun no_proto :: "json \<Rightarrow> bool" where
  "no_proto (JArr xs) = list_all no_proto xs"
| "no_proto (JObj ps) = list_all (\<lambda>(k, v). k \<noteq> proto_key \<and> no_proto v) ps"
| "no_proto v = True"

lemma map_fst_pair: "map fst (map (\<lambda>(k, v). (k, f v)) ps) = map fst ps"
  by (induction ps) auto

lemma key_cmp_discriminating:
  assumes "distinct (map fst ps)"
  shows "discriminating_comparator_on (set ps) (\<lambda>a b. lex_cmp ord_cmp (fst a) (fst b))"
proof -
  have "comparator_on (set ps) (\<lambda>a b. lex_cmp ord_cmp (fst a) (fst b))"
    using comparator_on.vimage [OF lex_ord_comparator, of fst "set ps"] by simp
  moreover have "a = b" if "a \<in> set ps" "b \<in> set ps" "fst a = fst b" for a b
    using assms that by (metis eq_key_imp_eq_value prod.collapse)
  ultimately show ?thesis
    by (auto simp: discriminating_comparator_on_def discriminating_comparator_on_axioms_def
        lex_ord_cmp_eq_iff)
qed

lemma sort_by_key_cong:
  assumes "distinct (map fst ps)" "mset ps = mset qs"
  shows "sort_by_key ps = sort_by_key qs"
proof -
  have "distinct ps" using assms(1) by (simp add: distinct_map)
  moreover have "distinct qs" "set ps = set qs"
    using assms(2) \<open>distinct ps\<close> by (auto dest: mset_eq_setD mset_eq_imp_distinct_iff)
  ultimately show ?thesis
    unfolding sort_by_key_def
    using discriminating_comparator_on.sort_cmp_cong [OF key_cmp_discriminating [OF assms(1)]] by simp
qed

lemma canonicalize_arr_cong:
  "list_all2 (\<lambda>x y. canonicalize x = canonicalize y) xs ys \<Longrightarrow> map canonicalize xs = map canonicalize ys"
  by (induction rule: list_all2_induct) auto

lemma canonicalize_pairs_cong:
  "list_all2 (rel_prod (=) (\<lambda>x y. canonicalize x = canonicalize y)) ps qs \<Longrightarrow>
   map (\<lambda>(k, v). (k, canonicalize v)) ps = map (\<lambda>(k, v). (k, canonicalize v)) qs"
  by (induction rule: list_all2_induct) auto

lemma canonicalize_reorder:
  "reorder_eq a b \<Longrightarrow> distinct_keys a \<Longrightarrow> canonicalize a = canonicalize b"
proof (induction rule: reorder_eq.induct)
  case (reorder_arr xs ys)
  have "list_all2 (\<lambda>x y. canonicalize x = canonicalize y) xs ys"
    using reorder_arr.IH reorder_arr.prems
    by (auto simp: list_all2_conv_all_nth list_all_length)
  then show ?case using canonicalize_arr_cong by simp
next
  case (reorder_obj ps ps' qs)
  have eq: "list_all2 (rel_prod (=) (\<lambda>x y. canonicalize x = canonicalize y)) ps ps'"
    using reorder_obj.IH reorder_obj.prems
    by (fastforce simp: list_all2_conv_all_nth list_all_length rel_prod_sel split_beta)
  let ?c = "map (\<lambda>(k, v). (k, canonicalize v))"
  have "?c ps = ?c ps'" by (rule canonicalize_pairs_cong [OF eq])
  moreover have "mset (?c ps') = mset (?c qs)" using reorder_obj.hyps by simp
  moreover have "distinct (map fst (?c ps))" using reorder_obj.prems by (simp only: map_fst_pair distinct_keys.simps)
  ultimately have "sort_by_key (?c ps) = sort_by_key (?c qs)" by (intro sort_by_key_cong) simp_all
  then show ?case by simp
qed simp

lemma fold_set_property:
  "distinct (map fst (acc @ ps)) \<Longrightarrow> fold set_property ps acc = acc @ filter (\<lambda>p. fst p \<noteq> proto_key) ps"
proof (induction ps arbitrary: acc)
  case (Cons p ps)
  then show ?case
    by (cases "fst p = proto_key") (auto simp: set_property_def)
qed simp

lemma mset_own_keys_order: "mset (own_keys_order ps) = mset ps"
  by (simp add: own_keys_order_def multiset_partition [symmetric] not_None_eq [symmetric] del: not_None_eq)

lemma mset_canonical_pairs:
  assumes "distinct (map fst ps)" "proto_key \<notin> fst ` set ps"
  shows "mset (own_keys_order (fold set_property (sort_by_key (map (\<lambda>(k, v). (k, f v)) ps)) []))
    = image_mset (\<lambda>(k, v). (k, f v)) (mset ps)"
proof -
  let ?c = "map (\<lambda>(k, v). (k, f v)) ps"
  have keys: "map fst ?c = map fst ps" by (rule map_fst_pair)
  have m: "mset (sort_by_key ?c) = mset ?c" by (simp add: sort_by_key_def)
  have "mset (map fst (sort_by_key ?c)) = mset (map fst ?c)" by (simp only: mset_map m)
  then have mk: "mset (map fst (sort_by_key ?c)) = mset (map fst ps)" by (simp only: keys)
  have d: "distinct (map fst (sort_by_key ?c))" using mset_eq_imp_distinct_iff [OF mk] assms(1) by simp
  have "set (map fst (sort_by_key ?c)) = set (map fst ps)" by (rule mset_eq_setD [OF mk])
  then have np: "proto_key \<notin> fst ` set (sort_by_key ?c)" using assms(2) by simp
  have "fold set_property (sort_by_key ?c) [] = filter (\<lambda>p. fst p \<noteq> proto_key) (sort_by_key ?c)"
    using fold_set_property [of "[]" "sort_by_key ?c"] d by simp
  also have "\<dots> = sort_by_key ?c" using np by (force simp: filter_id_conv)
  finally show ?thesis using m by (simp add: mset_own_keys_order)
qed

lemma align_pairs:
  assumes d: "distinct (map fst ps)" "distinct (map fst qs)"
    and m: "image_mset (\<lambda>(k, v). (k, f v)) (mset ps) = image_mset (\<lambda>(k, v). (k, f v)) (mset qs)"
    and f: "\<And>k v w. (k, v) \<in> set ps \<Longrightarrow> (k, w) \<in> set qs \<Longrightarrow> f v = f w \<Longrightarrow> R v w"
  shows "\<exists>ps'. list_all2 (rel_prod (=) R) ps ps' \<and> mset ps' = mset qs"
proof (intro exI conjI)
  let ?ps' = "map (\<lambda>(k, v). (k, the (map_of qs k))) ps"
  have sets: "(\<lambda>(k, v). (k, f v)) ` set ps = (\<lambda>(k, v). (k, f v)) ` set qs"
    using arg_cong [OF m, of set_mset] by simp
  have look: "\<exists>w. (k, w) \<in> set qs \<and> map_of qs k = Some w \<and> f v = f w" if "(k, v) \<in> set ps" for k v
  proof -
    have "(k, f v) \<in> (\<lambda>(k, v). (k, f v)) ` set qs" using sets that by force
    then obtain w where "(k, w) \<in> set qs" "f w = f v" by auto
    then show ?thesis using map_of_is_SomeI [OF d(2)] by metis
  qed
  have R: "\<And>k v. (k, v) \<in> set ps \<Longrightarrow> R v (the (map_of qs k))" using look f by fastforce
  have "\<And>i. i < length ps \<Longrightarrow> (fst (ps ! i), snd (ps ! i)) \<in> set ps" by simp
  then show "list_all2 (rel_prod (=) R) ps ?ps'"
    using R by (auto simp: list_all2_conv_all_nth rel_prod_sel split_beta)
  have keys: "map fst ?ps' = map fst ps" by (induction ps) auto
  have fsts: "fst ` set ps = fst ` set qs"
  proof -
    have "fst ` set zs = fst ` (\<lambda>(k, v). (k, f v)) ` set zs" for zs :: "('a \<times> 'b) list"
      by (auto simp: image_image split_beta)
    then show ?thesis using sets by metis
  qed
  have "set ?ps' = set qs"
  proof
    show "set ?ps' \<subseteq> set qs" using look by force
    show "set qs \<subseteq> set ?ps'"
    proof
      fix q assume q: "q \<in> set qs"
      then have "fst q \<in> fst ` set ps" by (simp add: fsts)
      then obtain v where "(fst q, v) \<in> set ps" by (auto simp: image_iff)
      moreover have "map_of qs (fst q) = Some (snd q)" using q d(2) by simp
      ultimately show "q \<in> set ?ps'" by (force simp: image_iff)
    qed
  qed
  moreover have "distinct (map fst ?ps')" by (simp only: keys d(1))
  then have "distinct ?ps'" unfolding distinct_map by blast
  moreover have "distinct qs" using d(2) by (simp add: distinct_map)
  ultimately show "mset ?ps' = mset qs" using set_eq_iff_mset_eq_distinct by blast
qed

lemma canonicalize_inj:
  "distinct_keys a \<Longrightarrow> no_proto a \<Longrightarrow> distinct_keys b \<Longrightarrow> no_proto b \<Longrightarrow>
   canonicalize a = canonicalize b \<Longrightarrow> reorder_eq a b"
proof (induction a arbitrary: b)
  case (JArr xs)
  from JArr.prems(5) obtain ys where b: "b = JArr ys" by (cases b) auto
  have "list_all2 reorder_eq xs ys"
    unfolding list_all2_conv_all_nth
  proof (intro conjI allI impI)
    show len: "length xs = length ys" using JArr.prems(5) b by (auto dest: map_eq_imp_length_eq)
    fix i assume i: "i < length xs"
    have "canonicalize (xs ! i) = canonicalize (ys ! i)"
      using JArr.prems(5) b i len by (auto simp: list_eq_iff_nth_eq)
    then show "reorder_eq (xs ! i) (ys ! i)"
      using JArr.prems b i len by (intro JArr.IH) (auto simp: list_all_length)
  qed
  then show ?case using b by (simp add: reorder_arr)
next
  case (JObj ps)
  from JObj.prems(5) obtain qs where b: "b = JObj qs" by (cases b) auto
  have d: "distinct (map fst ps)" "distinct (map fst qs)"
    and np: "proto_key \<notin> fst ` set ps" "proto_key \<notin> fst ` set qs"
    using JObj.prems b by (auto simp: list_all_iff)
  let ?c = "\<lambda>rs. own_keys_order (fold set_property (sort_by_key (map (\<lambda>(k, v). (k, canonicalize v)) rs)) [])"
  have "?c ps = ?c qs" using JObj.prems(5) b by simp
  then have "mset (?c ps) = mset (?c qs)" by simp
  then have m: "image_mset (\<lambda>(k, v). (k, canonicalize v)) (mset ps) =
      image_mset (\<lambda>(k, v). (k, canonicalize v)) (mset qs)"
    by (simp only: mset_canonical_pairs [OF d(1) np(1)] mset_canonical_pairs [OF d(2) np(2)])
  have R: "reorder_eq v w"
    if "(k, v) \<in> set ps" "(k, w) \<in> set qs" "canonicalize v = canonicalize w" for k v w
  proof (rule JObj.IH [of "(k, v)" v w])
    show "(k, v) \<in> set ps" "canonicalize v = canonicalize w" using that by simp_all
    show "v \<in> Basic_BNFs.snds (k, v)" by simp
    show "distinct_keys v" "no_proto v" using JObj.prems(1,2) that(1) by (auto simp: list_all_iff)
    show "distinct_keys w" "no_proto w" using JObj.prems(3,4) that(2) b by (auto simp: list_all_iff)
  qed
  have "\<exists>ps'. list_all2 (rel_prod (=) reorder_eq) ps ps' \<and> mset ps' = mset qs"
    by (rule align_pairs [OF d m]) (rule R)
  then obtain ps' where "list_all2 (rel_prod (=) reorder_eq) ps ps'" "mset ps' = mset qs" by blast
  then show ?case unfolding b by (rule reorder_obj)
next
  case JNull
  then have "b = JNull" by (cases b) simp_all
  then show ?case by (simp add: reorder_refl)
next
  case (JBool x)
  then have "b = JBool x" by (cases b) simp_all
  then show ?case by (simp add: reorder_refl)
next
  case (JNum x)
  then have "b = JNum x" by (cases b) simp_all
  then show ?case by (simp add: reorder_refl)
next
  case (JStr x)
  then have "b = JStr x" by (cases b) simp_all
  then show ?case by (simp add: reorder_refl)
qed

section \<open>What the canonical form decides\<close>

text \<open>
  C1. On JSON values whose objects have distinct keys, none of them \<open>__proto__\<close>, two values
  have the same canonical form exactly when they are equal up to reordering the properties
  of their objects; array order is significant.
\<close>

theorem canonicalize_eq_iff:
  assumes "distinct_keys a" "no_proto a" "distinct_keys b" "no_proto b"
  shows "canonicalize a = canonicalize b \<longleftrightarrow> reorder_eq a b"
  using assms canonicalize_inj canonicalize_reorder by blast

theorem canonicalize_eq_iff_witness:
  "canonicalize (JObj [(lit ''b'', JBool True), (lit ''a'', JArr [JNull])]) =
     canonicalize (JObj [(lit ''a'', JArr [JNull]), (lit ''b'', JBool True)]) \<and>
   \<not> reorder_eq (JArr [JNull, JBool True]) (JArr [JBool True, JNull])"
proof -
  let ?x = "[(lit ''b'', JBool True), (lit ''a'', JArr [JNull])]"
  have "reorder_eq (JObj ?x) (JObj [(lit ''a'', JArr [JNull]), (lit ''b'', JBool True)])"
    by (rule reorder_obj [of ?x ?x]) (auto intro: reorder_refl)
  moreover have "lit ''a'' \<noteq> lit ''b''" "lit ''a'' \<noteq> proto_key" "lit ''b'' \<noteq> proto_key"
    by (simp_all add: lit_def proto_key_def)
  ultimately show ?thesis
    using canonicalize_eq_iff [of "JObj ?x" "JObj [(lit ''a'', JArr [JNull]), (lit ''b'', JBool True)]"]
      canonicalize_eq_iff [of "JArr [JNull, JBool True]" "JArr [JBool True, JNull]"]
    by auto
qed

text \<open>
  C2. A property named \<open>__proto__\<close>, which \<open>JSON.parse\<close> creates like any other, is lost by the
  canonical form: an object that has only that property gets the canonical text of the
  empty object, whatever the property's value is.
\<close>

theorem canonical_proto_collision:
  "canonicalJsonString (JObj [(proto_key, v)]) = canonicalJsonString (JObj [])"
  by (simp add: canonicalJsonString_def sort_by_key_def set_property_def own_keys_order_def)

end
