(* ===== verification/Comparison.thy ===== *)
theory Comparison
  imports Json_Canonical
begin

text \<open>
  Value comparison (quereus/src/util/comparison.ts): string collations, storage classes,
  the SQL value comparators and the comparators built from them for sorting, row identity
  and declared types.
\<close>

section \<open>Collations\<close>

type_synonym collation = "js_string comparator"

definition unit_rank :: "16 word \<Rightarrow> nat" where
  "unit_rank u = (if 0xD800 \<le> unat u \<and> unat u \<le> 0xDBFF then unat u + 0x2800 else unat u)"

fun scan_units :: "js_string \<Rightarrow> js_string \<Rightarrow> int" where
  "scan_units (u # us) (v # vs) =
     (if u \<noteq> v then (if unit_rank u < unit_rank v then -1 else 1) else scan_units us vs)"
| "scan_units [] [] = 0"
| "scan_units [] (_ # _) = -1"
| "scan_units (_ # _) [] = 1"

definition compareCodePointsBounded :: "js_string \<Rightarrow> nat \<Rightarrow> js_string \<Rightarrow> nat \<Rightarrow> int" where
  "compareCodePointsBounded a lenA b lenB = scan_units (take lenA a) (take lenB b)"

definition has_high_surrogate :: "js_string \<Rightarrow> bool" where
  "has_high_surrogate s \<longleftrightarrow> list_ex (\<lambda>u. is_high_surrogate (unat u)) s"

text \<open>The relational operator on strings compares code units.\<close>

definition str_less :: "js_string \<Rightarrow> js_string \<Rightarrow> bool" where
  "str_less a b \<longleftrightarrow> lex_cmp ord_cmp a b < 0"

definition compareCodePoints :: "js_string \<Rightarrow> js_string \<Rightarrow> int" where
  "compareCodePoints a b =
     (if a = b then 0
      else if \<not> has_high_surrogate a \<and> \<not> has_high_surrogate b then (if str_less a b then -1 else 1)
      else compareCodePointsBounded a (length a) b (length b))"

definition BINARY_COLLATION :: collation where
  "BINARY_COLLATION a b = compareCodePoints a b"

text \<open>\<open>toLowerCase\<close> is the Unicode case mapping, a parameter.\<close>

definition NOCASE_COLLATION :: "(js_string \<Rightarrow> js_string) \<Rightarrow> collation" where
  "NOCASE_COLLATION toLowerCase a b = compareCodePoints (toLowerCase a) (toLowerCase b)"

fun trim_length :: "js_string \<Rightarrow> nat \<Rightarrow> nat" where
  "trim_length s 0 = 0"
| "trim_length s (Suc n) = (if s ! n = 0x20 then trim_length s n else Suc n)"

definition RTRIM_COLLATION :: collation where
  "RTRIM_COLLATION a b =
     compareCodePointsBounded a (trim_length a (length a)) b (trim_length b (length b))"

subsection \<open>Code-point order\<close>

definition unit_cmp :: "16 word comparator" where
  "unit_cmp u v = ord_cmp (unit_rank u) (unit_rank v)"

lemma unit_rank_inj: "unit_rank u = unit_rank v \<longleftrightarrow> u = v"
proof
  assume *: "unit_rank u = unit_rank v"
  then have "unat u = unat v"
    using unat_word_less(1) [of u] unat_word_less(1) [of v] by (simp add: unit_rank_def split: if_splits)
  then show "u = v" by (rule unsigned_word_eqI)
qed simp

interpretation unit: discriminating_comparator_on UNIV unit_cmp
proof -
  have "comparator_on UNIV unit_cmp"
    using ord.vimage [of unit_rank UNIV] by (simp add: unit_cmp_def [abs_def])
  then show "discriminating_comparator_on UNIV unit_cmp"
    by (simp add: discriminating_comparator_on_def discriminating_comparator_on_axioms_def
        unit_cmp_def cmp_simps unit_rank_inj)
qed

lemma scan_units_lex: "scan_units a b = lex_cmp unit_cmp a b"
  by (induction a b rule: scan_units.induct) (auto simp: unit_cmp_def ord_cmp_def unit_rank_inj)

lemma lex_unit_no_high:
  "\<not> has_high_surrogate a \<Longrightarrow> \<not> has_high_surrogate b \<Longrightarrow> lex_cmp unit_cmp a b = lex_cmp ord_cmp a b"
proof (induction a b rule: list_induct2')
  case (4 x xs y ys)
  then have "unit_rank x = unat x" "unit_rank y = unat y"
    by (auto simp: has_high_surrogate_def is_high_surrogate_def unit_rank_def)
  then have "unit_cmp x y = ord_cmp x y"
    by (simp add: unit_cmp_def ord_cmp_def word_less_nat_alt)
  with 4 show ?case by (simp add: has_high_surrogate_def)
qed auto

lemma lex_ord_cmp_range: "lex_cmp ord_cmp a b \<in> {-1, 0, 1}"
  by (induction a b rule: list_induct2') (auto simp: ord_cmp_def)

lemma compareCodePoints_lex: "compareCodePoints a b = lex_cmp unit_cmp a b"
proof -
  have "lex_cmp unit_cmp b b = 0" by (rule lex_cmp_same) (simp add: unit.cmp_refl)
  moreover have "lex_cmp unit_cmp a b = (if str_less a b then -1 else 1)"
    if "a \<noteq> b" "\<not> has_high_surrogate a" "\<not> has_high_surrogate b"
    using that lex_unit_no_high [of a b] lex_ord_cmp_range [of a b] lex_ord_cmp_eq_iff [of a b]
    by (auto simp: str_less_def)
  ultimately show ?thesis
    by (auto simp: compareCodePoints_def compareCodePointsBounded_def scan_units_lex)
qed

lemma lex_unit_eq_iff: "lex_cmp unit_cmp a b = 0 \<longleftrightarrow> a = b"
  by (induction a b rule: list_induct2') (auto simp: unit.cmp_eq_iff)

interpretation code_points: discriminating_comparator_on UNIV compareCodePoints
proof -
  have "comparator_on UNIV (lex_cmp unit_cmp)" using unit.lex_comparator by simp
  then show "discriminating_comparator_on UNIV compareCodePoints"
    by (simp add: discriminating_comparator_on_def discriminating_comparator_on_axioms_def
        compareCodePoints_lex [abs_def] lex_unit_eq_iff)
qed

subsection \<open>Agreement with the UTF-8 bytes\<close>

lemma byte_of_nat_less: "a < 256 \<Longrightarrow> b < 256 \<Longrightarrow> (word_of_nat a :: byte) < word_of_nat b \<longleftrightarrow> a < b"
  by (simp add: word_less_nat_alt unat_of_nat)

lemma byte_of_nat_eq: "a < 256 \<Longrightarrow> b < 256 \<Longrightarrow> (word_of_nat a :: byte) = word_of_nat b \<longleftrightarrow> a = b"
  by (metis byte_of_nat_less less_irrefl linorder_neqE_nat)

text \<open>Separation of nat sequences below 256 carries over to their bytes.\<close>

lemma sep_bytes:
  assumes "sep u v" "\<forall>x \<in> set u. x < 256" "\<forall>x \<in> set v. x < 256"
  shows "sep (map word_of_nat u :: byte list) (map word_of_nat v)"
  using assms by (elim sepE) (simp add: sepI byte_of_nat_less)

definition utf8_nat :: "nat \<Rightarrow> nat list" where
  "utf8_nat c =
     (if c < 0x80 then [c]
      else if c < 0x800 then [0xC0 + c div 64, 0x80 + c mod 64]
      else if c < 0x10000 then [0xE0 + c div 4096, 0x80 + c div 64 mod 64, 0x80 + c mod 64]
      else [0xF0 + c div 262144, 0x80 + c div 4096 mod 64, 0x80 + c div 64 mod 64, 0x80 + c mod 64])"

lemma utf8_nat_bound: "c < 0x110000 \<Longrightarrow> \<forall>x \<in> set (utf8_nat c). x < 256"
  by (auto simp: utf8_nat_def)

lemma div_mod_less_cases:
  fixes x y k :: nat
  assumes "x < y"
  shows "x div k < y div k \<or> (x div k = y div k \<and> x mod k < y mod k)"
proof (cases "x div k = y div k")
  case True
  then have "x mod k < y mod k" using assms by (metis add_less_cancel_left div_mult_mod_eq)
  with True show ?thesis by simp
next
  case False
  then show ?thesis using div_le_mono [of x y k] assms by simp
qed

lemma sep_hi_lo:
  assumes "c div k < d div k \<Longrightarrow> sep u v" "c div k = d div k \<Longrightarrow> u = v" "c < (d::nat)"
  shows "sep (u @ [h + c mod k]) (v @ [h + d mod k])"
  using div_mod_less_cases [OF assms(3), of k] assms(1,2)
  by (auto intro: sep_append simp: sepI)

lemma utf8_nat_sep_same:
  assumes "c < d"
  shows "sep [0xC0 + c div 64, 0x80 + c mod 64] [0xC0 + d div 64, 0x80 + d mod 64 :: nat]"
    and "sep [0xE0 + c div 4096, 0x80 + c div 64 mod 64, 0x80 + c mod 64]
             [0xE0 + d div 4096, 0x80 + d div 64 mod 64, 0x80 + d mod 64 :: nat]"
    and "sep [0xF0 + c div 262144, 0x80 + c div 4096 mod 64, 0x80 + c div 64 mod 64, 0x80 + c mod 64]
             [0xF0 + d div 262144, 0x80 + d div 4096 mod 64, 0x80 + d div 64 mod 64, 0x80 + d mod 64 :: nat]"
proof -
  have d1: "x div 4096 = x div 64 div 64" and d2: "x div 262144 = x div 4096 div 64" for x :: nat
    by (simp_all add: div_mult2_eq [symmetric])
  have "sep ([0xC0 + x div 64] @ [0x80 + x mod 64]) ([0xC0 + y div 64] @ [0x80 + y mod 64])"
    if "x < y" for x y :: nat
    by (rule sep_hi_lo [OF _ _ that]) (simp_all add: sep_Cons_iff)
  with assms show "sep [0xC0 + c div 64, 0x80 + c mod 64] [0xC0 + d div 64, 0x80 + d mod 64 :: nat]" by simp
  have three: "sep [0xE0 + x div 4096, 0x80 + x div 64 mod 64] [0xE0 + y div 4096, 0x80 + y div 64 mod 64]"
    if "x div 64 < y div 64" for x y :: nat
  proof -
    have "sep ([0xE0 + x div 4096] @ [0x80 + x div 64 mod 64]) ([0xE0 + y div 4096] @ [0x80 + y div 64 mod 64])"
      by (rule sep_hi_lo [OF _ _ that]) (simp_all add: d1 sep_Cons_iff)
    then show ?thesis by simp
  qed
  have "sep ([0xE0 + c div 4096, 0x80 + c div 64 mod 64] @ [0x80 + c mod 64])
            ([0xE0 + d div 4096, 0x80 + d div 64 mod 64] @ [0x80 + d mod 64 :: nat])"
    by (rule sep_hi_lo [OF _ _ assms]) (erule three, simp add: d1)
  then show "sep [0xE0 + c div 4096, 0x80 + c div 64 mod 64, 0x80 + c mod 64]
             [0xE0 + d div 4096, 0x80 + d div 64 mod 64, 0x80 + d mod 64 :: nat]" by simp
  have two: "sep [0xF0 + x div 262144, 0x80 + x div 4096 mod 64] [0xF0 + y div 262144, 0x80 + y div 4096 mod 64]"
    if "x div 4096 < y div 4096" for x y :: nat
  proof -
    have "sep ([0xF0 + x div 262144] @ [0x80 + x div 4096 mod 64]) ([0xF0 + y div 262144] @ [0x80 + y div 4096 mod 64])"
      by (rule sep_hi_lo [OF _ _ that]) (simp_all add: d2 sep_Cons_iff)
    then show ?thesis by simp
  qed
  have four: "sep [0xF0 + x div 262144, 0x80 + x div 4096 mod 64, 0x80 + x div 64 mod 64]
      [0xF0 + y div 262144, 0x80 + y div 4096 mod 64, 0x80 + y div 64 mod 64]"
    if "x div 64 < y div 64" for x y :: nat
  proof -
    have "sep ([0xF0 + x div 262144, 0x80 + x div 4096 mod 64] @ [0x80 + x div 64 mod 64])
        ([0xF0 + y div 262144, 0x80 + y div 4096 mod 64] @ [0x80 + y div 64 mod 64])"
      by (rule sep_hi_lo [OF _ _ that]) (rule two, simp_all add: d2 d1)
    then show ?thesis by simp
  qed
  have "sep ([0xF0 + c div 262144, 0x80 + c div 4096 mod 64, 0x80 + c div 64 mod 64] @ [0x80 + c mod 64])
      ([0xF0 + d div 262144, 0x80 + d div 4096 mod 64, 0x80 + d div 64 mod 64] @ [0x80 + d mod 64 :: nat])"
    by (rule sep_hi_lo [OF _ _ assms]) (erule four, simp add: d1 d2)
  then show "sep [0xF0 + c div 262144, 0x80 + c div 4096 mod 64, 0x80 + c div 64 mod 64, 0x80 + c mod 64]
     [0xF0 + d div 262144, 0x80 + d div 4096 mod 64, 0x80 + d div 64 mod 64, 0x80 + d mod 64 :: nat]" by simp
qed

lemma utf8_nat_sep:
  assumes "c < d"
  shows "sep (utf8_nat c) (utf8_nat d)"
proof -
  have b2: "x div 64 < 32" if "x < 0x800" for x :: nat using that by simp
  have b3: "x div 4096 < 16" if "x < 0x10000" for x :: nat using that by simp
  consider "d < 0x80" | "c < 0x80" "\<not> d < 0x80" | "\<not> c < 0x80" "d < 0x800"
    | "\<not> c < 0x80" "c < 0x800" "\<not> d < 0x800" | "\<not> c < 0x800" "d < 0x10000"
    | "\<not> c < 0x800" "c < 0x10000" "\<not> d < 0x10000" | "\<not> c < 0x10000" by linarith
  then show ?thesis
  proof cases
    case 1
    with assms show ?thesis by (simp add: utf8_nat_def sep_Cons_iff)
  next
    case 2
    then show ?thesis by (simp add: utf8_nat_def sep_Cons_iff)
  next
    case 3
    with assms have "\<not> d < 0x80" "c < 0x800" by simp_all
    with 3 show ?thesis using utf8_nat_sep_same(1) [OF assms] by (simp add: utf8_nat_def)
  next
    case 4
    with b2 [of c] show ?thesis by (simp add: utf8_nat_def sep_Cons_iff)
  next
    case 5
    with assms have "\<not> d < 0x80" "\<not> d < 0x800" "c < 0x10000" "\<not> c < 0x80" by simp_all
    with 5 show ?thesis using utf8_nat_sep_same(2) [OF assms] by (simp add: utf8_nat_def)
  next
    case 6
    with b3 [of c] show ?thesis by (simp add: utf8_nat_def sep_Cons_iff)
  next
    case 7
    with assms have "\<not> d < 0x80" "\<not> d < 0x800" "\<not> d < 0x10000" "\<not> c < 0x800" "\<not> c < 0x80" by simp_all
    with 7 show ?thesis using utf8_nat_sep_same(3) [OF assms] by (simp add: utf8_nat_def)
  qed
qed

lemma utf8_utf8_nat: "utf8 c = map word_of_nat (utf8_nat c)"
  by (simp add: utf8_def utf8_nat_def)

definition scalar_points :: "nat set" where
  "scalar_points = {c. c < 0x110000}"

interpretation utf8: sep_encoder scalar_points ord_cmp utf8
proof -
  have "comparator_on scalar_points ord_cmp" by (rule ord.subset) simp
  moreover have "sep (utf8 c) (utf8 d)" if "c \<in> scalar_points" "d \<in> scalar_points" "c < d" for c d
    unfolding utf8_utf8_nat using that
    by (intro sep_bytes utf8_nat_sep utf8_nat_bound) (simp_all add: scalar_points_def)
  ultimately show "sep_encoder scalar_points ord_cmp utf8"
    by (simp add: sep_encoder_def sep_encoder_axioms_def cmp_simps)
qed

lemma utf8_nonempty: "utf8 c \<noteq> []"
  by (simp add: utf8_def)

lemma code_points_scalar: "set (code_points s) \<subseteq> scalar_points"
proof (induction s rule: code_points.induct)
  case (2 u)
  then show ?case using unat_word_less(1) [of u] by (simp add: scalar_points_def)
next
  case (3 u v s)
  then show ?case using unat_word_less(1) [of u] unat_word_less(1) [of v]
    by (auto simp: scalar_points_def is_high_surrogate_def is_low_surrogate_def)
qed simp

lemma text_encode_sgn:
  "sgn (lex_cmp ord_cmp (text_encode a) (text_encode b)) = sgn (lex_cmp ord_cmp (code_points a) (code_points b))"
  unfolding text_encode_def by (rule utf8.concat_sgn) (simp_all add: utf8_nonempty code_points_scalar)

text \<open>A well-formed string starts with a character of one unit or with a surrogate pair.\<close>

definition astral :: "16 word \<Rightarrow> 16 word \<Rightarrow> nat" where
  "astral u v = 0x10000 + (unat u - 0xD800) * 0x400 + (unat v - 0xDC00)"

lemma well_formed_Cons_cases:
  assumes "well_formed (u # s)"
  obtains (bmp) "\<not> is_high_surrogate (unat u)" "\<not> is_low_surrogate (unat u)" "well_formed s"
      "code_points (u # s) = unat u # code_points s"
  | (pair) v s' where "s = v # s'" "is_high_surrogate (unat u)" "is_low_surrogate (unat v)" "well_formed s'"
      "code_points (u # s) = astral u v # code_points s'"
proof (cases s)
  case Nil
  then show ?thesis using assms bmp by simp
next
  case (Cons v s')
  then show ?thesis using assms bmp pair by (cases "is_high_surrogate (unat u)") (simp_all add: astral_def)
qed

lemma unit_rank_bmp: "\<not> is_high_surrogate (unat u) \<Longrightarrow> unit_rank u = unat u"
  by (auto simp: unit_rank_def is_high_surrogate_def)

lemma unit_rank_high: "is_high_surrogate (unat u) \<Longrightarrow> unit_rank u = unat u + 0x2800"
  by (auto simp: unit_rank_def is_high_surrogate_def)

lemma astral_cmp:
  assumes "is_high_surrogate (unat u)" "is_low_surrogate (unat v)"
    "is_high_surrogate (unat u')" "is_low_surrogate (unat v')"
  shows "ord_cmp (astral u v) (astral u' v') = (if u = u' then ord_cmp (unat v) (unat v') else ord_cmp (unat u) (unat u'))"
proof -
  have ne: "unat u \<noteq> unat u'" if "u \<noteq> u'" using that by (simp add: unat_inj)
  show ?thesis
    using assms ne by (auto simp: astral_def ord_cmp_def is_high_surrogate_def is_low_surrogate_def)
qed

lemma lex_units_code_points:
  "well_formed a \<Longrightarrow> well_formed b \<Longrightarrow>
   sgn (lex_cmp unit_cmp a b) = sgn (lex_cmp ord_cmp (code_points a) (code_points b))"
proof (induction "length a" arbitrary: a b rule: less_induct)
  case less
  show ?case
  proof (cases a)
    case Nil
    then show ?thesis using less.prems(2) by (cases b) (auto elim: well_formed_Cons_cases)
  next
    case a: (Cons u s)
    show ?thesis
    proof (cases b)
      case Nil
      then show ?thesis using less.prems(1) a by (auto elim: well_formed_Cons_cases)
    next
      case b: (Cons w t)
      have lt: "unat u < 65536" "unat w < 65536" by (rule unat_word_less)+
      from less.prems(1) [unfolded a] show ?thesis
      proof (cases rule: well_formed_Cons_cases)
        case ubmp: bmp
        from less.prems(2) [unfolded b] show ?thesis
        proof (cases rule: well_formed_Cons_cases)
          case bmp
          have "sgn (lex_cmp unit_cmp s t) = sgn (lex_cmp ord_cmp (code_points s) (code_points t))"
            using less.hyps [of s t] a ubmp bmp by simp
          then show ?thesis
            using a b ubmp bmp by (simp add: unit_cmp_def unit_rank_bmp)
        next
          case (pair x t')
          have "unat u < astral w x" using lt by (simp add: astral_def)
          moreover have "unat u < unit_rank w" using lt pair by (simp add: unit_rank_high is_high_surrogate_def)
          ultimately show ?thesis
            using a b ubmp pair(5) by (simp add: unit_cmp_def unit_rank_bmp ord_cmp_def)
        qed
      next
        case upair: (pair v s')
        from less.prems(2) [unfolded b] show ?thesis
        proof (cases rule: well_formed_Cons_cases)
          case bmp
          have "unat w < astral u v" using lt by (simp add: astral_def)
          moreover have "unat w < unit_rank u" using lt upair by (simp add: unit_rank_high is_high_surrogate_def)
          ultimately show ?thesis
            using a b upair(5) bmp by (simp add: unit_cmp_def unit_rank_bmp ord_cmp_def)
        next
          case (pair x t')
          have IH: "sgn (lex_cmp unit_cmp s' t') = sgn (lex_cmp ord_cmp (code_points s') (code_points t'))"
            using less.hyps [of s' t'] a upair pair by simp
          have low: "\<not> is_high_surrogate (unat v)" "\<not> is_high_surrogate (unat x)"
            using upair pair by (auto simp: is_high_surrogate_def is_low_surrogate_def)
          have uw: "unit_cmp u w = ord_cmp (unat u) (unat w)"
            using upair(2) pair(2) by (simp add: unit_cmp_def unit_rank_high ord_cmp_def)
          have vx: "unit_cmp v x = ord_cmp (unat v) (unat x)"
            using low by (simp add: unit_cmp_def unit_rank_bmp)
          have cp: "ord_cmp (astral u v) (astral w x) =
              (if u = w then ord_cmp (unat v) (unat x) else ord_cmp (unat u) (unat w))"
            by (rule astral_cmp [OF upair(2,3) pair(2,3)])
          have ne: "ord_cmp (unat u) (unat w) \<noteq> 0" if "u \<noteq> w"
            using that by (simp add: cmp_simps unat_inj)
          have L: "lex_cmp unit_cmp a b = (if ord_cmp (unat u) (unat w) \<noteq> 0 then ord_cmp (unat u) (unat w)
              else if ord_cmp (unat v) (unat x) \<noteq> 0 then ord_cmp (unat v) (unat x) else lex_cmp unit_cmp s' t')"
            by (simp only: a b upair(1) pair(1) uw vx lex_cmp.simps)
          have R: "lex_cmp ord_cmp (code_points a) (code_points b) =
              (if ord_cmp (astral u v) (astral w x) \<noteq> 0 then ord_cmp (astral u v) (astral w x)
               else lex_cmp ord_cmp (code_points s') (code_points t'))"
            by (simp only: a b upair(5) pair(5) lex_cmp.simps)
          show ?thesis
            unfolding L R cp using IH ne by (cases "u = w") (simp_all add: ord_cmp_sign(5))
        qed
      qed
    qed
  qed
qed

text \<open>
  C3. On well-formed strings the BINARY collation is the byte order of the UTF-8
  encodings: the order in which a store sorts text keys.
\<close>

theorem compareCodePoints_utf8:
  assumes "well_formed a" "well_formed b"
  shows "sgn (compareCodePoints a b) = sgn (lex_cmp ord_cmp (text_encode a) (text_encode b))"
  by (simp add: compareCodePoints_lex text_encode_sgn lex_units_code_points [OF assms])

theorem compareCodePoints_utf8_witness:
  "sgn (compareCodePoints [0xD83D, 0xDE00] [0xFFFD]) =
     sgn (lex_cmp ord_cmp (text_encode [0xD83D, 0xDE00]) (text_encode [0xFFFD])) \<and>
   0 < compareCodePoints [0xD83D, 0xDE00] [0xFFFD] \<and> str_less [0xD83D, 0xDE00] [0xFFFD]"
proof -
  have "well_formed [0xD83D, 0xDE00]" "well_formed [0xFFFD]"
    by (simp_all add: is_high_surrogate_def is_low_surrogate_def)
  moreover have "0 < compareCodePoints [0xD83D, 0xDE00] [0xFFFD]"
    by (simp add: compareCodePoints_lex unit_cmp_def unit_rank_def ord_cmp_def)
  moreover have "str_less [0xD83D, 0xDE00] [0xFFFD]" by (simp add: str_less_def ord_cmp_def)
  ultimately show ?thesis using compareCodePoints_utf8 by blast
qed

subsection \<open>The built-in collations\<close>

text \<open>A string without its trailing ASCII spaces.\<close>

definition rtrim :: "js_string \<Rightarrow> js_string" where
  "rtrim s = rev (dropWhile (\<lambda>u. u = 0x20) (rev s))"

lemma take_trim_length: "n \<le> length s \<Longrightarrow> take (trim_length s n) s = rtrim (take n s)"
proof (induction s n rule: trim_length.induct)
  case (2 s n)
  then have "take (Suc n) s = take n s @ [s ! n]" by (simp add: take_Suc_conv_app_nth)
  with 2 show ?case by (simp add: rtrim_def)
qed (simp add: rtrim_def)

lemma RTRIM_COLLATION_rtrim: "RTRIM_COLLATION a b = compareCodePoints (rtrim a) (rtrim b)"
  by (simp add: RTRIM_COLLATION_def compareCodePointsBounded_def take_trim_length scan_units_lex compareCodePoints_lex)

lemma builtin_comparators:
  "comparator_total BINARY_COLLATION" "comparator_total (NOCASE_COLLATION lower)" "comparator_total RTRIM_COLLATION"
  using code_points.comparator_on_axioms code_points.vimage [of lower UNIV] code_points.vimage [of rtrim UNIV]
  by (simp_all add: BINARY_COLLATION_def [abs_def] NOCASE_COLLATION_def [abs_def] RTRIM_COLLATION_rtrim [abs_def])

end
