(* ===== verification/Sql_Compare.thy ===== *)
theory Sql_Compare
  imports Comparison
begin

text \<open>
  Comparison of SQL values (the second half of quereus/src/util/comparison.ts): collation
  names, storage classes, \<open>compareSqlValuesFast\<close>, the ORDER BY comparators, the comparators
  of declared logical types and the row comparators.
  A declared type is a parameter with laws on a carrier of values; TIMESPAN
  (quereus/src/types/temporal-types.ts) is an instance, lawful on part of the texts only.
\<close>

section \<open>Collation names\<close>

text \<open>\<open>toUpperCase\<close> and \<open>toLowerCase\<close> are the Unicode case mappings, parameters.\<close>

definition normalizeCollationName :: "(js_string \<Rightarrow> js_string) \<Rightarrow> js_string \<Rightarrow> js_string" where
  "normalizeCollationName toUpperCase name = toUpperCase (js_trim name)"

definition builtinCollationResolver ::
  "(js_string \<Rightarrow> js_string) \<Rightarrow> (js_string \<Rightarrow> js_string) \<Rightarrow> js_string \<Rightarrow> collation option" where
  "builtinCollationResolver toUpperCase toLowerCase name =
     (let n = normalizeCollationName toUpperCase name in
      if n = lit ''BINARY'' then Some BINARY_COLLATION
      else if n = lit ''NOCASE'' then Some (NOCASE_COLLATION toLowerCase)
      else if n = lit ''RTRIM'' then Some RTRIM_COLLATION
      else None)"

definition collationRefines ::
  "(js_string \<Rightarrow> js_string) \<Rightarrow> js_string option \<Rightarrow> js_string option \<Rightarrow> bool" where
  "collationRefines toUpperCase finer coarser =
     (let f = normalizeCollationName toUpperCase (case finer of None \<Rightarrow> lit ''BINARY'' | Some s \<Rightarrow> s) in
      f = lit ''BINARY'' \<or>
      f = normalizeCollationName toUpperCase (case coarser of None \<Rightarrow> lit ''BINARY'' | Some s \<Rightarrow> s))"

section \<open>Storage classes\<close>

datatype storage_class = CNull | CNumeric | CText | CBlob | CObject | CUnknown

fun class_num :: "storage_class \<Rightarrow> int" where
  "class_num CNull = 0"
| "class_num CNumeric = 1"
| "class_num CText = 2"
| "class_num CBlob = 3"
| "class_num CObject = 4"
| "class_num CUnknown = 99"

fun getStorageClass :: "sql_value \<Rightarrow> storage_class" where
  "getStorageClass SqlNull = CNull"
| "getStorageClass (SqlNum _) = CNumeric"
| "getStorageClass (SqlText _) = CText"
| "getStorageClass (SqlBool _) = CNumeric"
| "getStorageClass (SqlBig _) = CNumeric"
| "getStorageClass (SqlBlob _) = CBlob"
| "getStorageClass (SqlObject _) = CObject"
| "getStorageClass (SqlArray _) = CObject"
| "getStorageClass SqlUndefined = CUnknown"

fun getSqlDataTypeName :: "sql_value \<Rightarrow> string" where
  "getSqlDataTypeName SqlNull = ''null''"
| "getSqlDataTypeName SqlUndefined = ''null''"
| "getSqlDataTypeName (SqlBool _) = ''integer''"
| "getSqlDataTypeName (SqlNum w) = (if js_is_integer w then ''integer'' else ''real'')"
| "getSqlDataTypeName (SqlBig _) = ''integer''"
| "getSqlDataTypeName (SqlText _) = ''text''"
| "getSqlDataTypeName (SqlBlob _) = ''blob''"
| "getSqlDataTypeName (SqlObject _) = ''json''"
| "getSqlDataTypeName (SqlArray _) = ''json''"

section \<open>Value comparison\<close>

definition compareNumbers :: "js_number \<Rightarrow> js_number \<Rightarrow> int" where
  "compareNumbers a b = (if js_less a b then -1 else if js_less b a then 1 else 0)"

text \<open>Booleans are read as the doubles 1 and 0; other classes do not reach the numeric branch.\<close>

fun numeric_operand :: "sql_value \<Rightarrow> js_number" where
  "numeric_operand (SqlBool b) = Dbl (if b then 0x3FF0000000000000 else 0)"
| "numeric_operand (SqlNum w) = Dbl w"
| "numeric_operand (SqlBig n) = Big n"
| "numeric_operand _ = Dbl 0"

fun text_operand :: "sql_value \<Rightarrow> js_string" where
  "text_operand (SqlText s) = s"
| "text_operand _ = []"

fun blob_operand :: "sql_value \<Rightarrow> byte list" where
  "blob_operand (SqlBlob b) = b"
| "blob_operand _ = []"

text \<open>
  The canonical string of an object-class value. The source memoises it per object
  identity; the values are immutable, so the memo is transparent.
\<close>

fun objectCanonicalString :: "sql_value \<Rightarrow> js_string" where
  "objectCanonicalString (SqlObject ps) = canonicalJsonString (JObj ps)"
| "objectCanonicalString (SqlArray xs) = canonicalJsonString (JArr xs)"
| "objectCanonicalString _ = []"

fun compare_blobs :: "byte list \<Rightarrow> byte list \<Rightarrow> int" where
  "compare_blobs (x # xs) (y # ys) = (if x \<noteq> y then (if x < y then -1 else 1) else compare_blobs xs ys)"
| "compare_blobs [] [] = 0"
| "compare_blobs [] (_ # _) = -1"
| "compare_blobs (_ # _) [] = 1"

fun compareSameType :: "sql_value \<Rightarrow> sql_value \<Rightarrow> storage_class \<Rightarrow> collation \<Rightarrow> int" where
  "compareSameType a b CNumeric coll = compareNumbers (numeric_operand a) (numeric_operand b)"
| "compareSameType a b CText coll = coll (text_operand a) (text_operand b)"
| "compareSameType a b CBlob coll = compare_blobs (blob_operand a) (blob_operand b)"
| "compareSameType a b CObject coll =
     compareCodePoints (objectCanonicalString a) (objectCanonicalString b)"
| "compareSameType a b _ coll = 0"

definition compareSqlValuesFast :: "sql_value \<Rightarrow> sql_value \<Rightarrow> collation \<Rightarrow> int" where
  "compareSqlValuesFast a b coll =
     (let classA = getStorageClass a; classB = getStorageClass b in
      if classA = CNull then (if classB = CNull then 0 else -1)
      else if classB = CNull then 1
      else if classA = classB then compareSameType a b classA coll
      else class_num classA - class_num classB)"

definition compareSqlValues :: "sql_value \<Rightarrow> sql_value \<Rightarrow> int" where
  "compareSqlValues a b = compareSqlValuesFast a b BINARY_COLLATION"

definition sqlValueIdentical :: "sql_value \<Rightarrow> sql_value \<Rightarrow> bool" where
  "sqlValueIdentical a b \<longleftrightarrow> compareSqlValuesFast a b BINARY_COLLATION = 0"

definition rowsValueIdentical :: "row \<Rightarrow> row \<Rightarrow> bool" where
  "rowsValueIdentical a b \<longleftrightarrow> length a = length b \<and> list_all2 sqlValueIdentical a b"

text \<open>The resolver throws on a name it does not know; an absent or empty name means BINARY.\<close>

fun resolveCollationFunctions ::
  "(js_string \<Rightarrow> collation option) \<Rightarrow> js_string option list \<Rightarrow> collation list option" where
  "resolveCollationFunctions resolver [] = Some []"
| "resolveCollationFunctions resolver (name # names) =
     (case (if name = None \<or> name = Some [] then Some BINARY_COLLATION else resolver (the name)) of
        None \<Rightarrow> None
      | Some f \<Rightarrow> map_option ((#) f) (resolveCollationFunctions resolver names))"

fun isObjectClassValue :: "sql_value \<Rightarrow> bool" where
  "isObjectClassValue (SqlObject _) = True"
| "isObjectClassValue (SqlArray _) = True"
| "isObjectClassValue _ = False"

section \<open>ORDER BY comparators\<close>

datatype sort_direction = ASC | DESC

datatype nulls_ordering = NULLS_DEFAULT | NULLS_FIRST | NULLS_LAST

definition orderByNullResult :: "sql_value \<Rightarrow> sql_value \<Rightarrow> nulls_ordering \<Rightarrow> int" where
  "orderByNullResult a b nullsOrdering =
     (if a = SqlNull \<and> b = SqlNull then 0
      else if a = SqlNull then (if nullsOrdering = NULLS_LAST then 1 else -1)
      else (if nullsOrdering = NULLS_LAST then -1 else 1))"

definition compareWithOrderByFast ::
  "sql_value \<Rightarrow> sql_value \<Rightarrow> sort_direction \<Rightarrow> nulls_ordering \<Rightarrow> collation \<Rightarrow> int" where
  "compareWithOrderByFast a b direction nullsOrdering coll =
     (if a \<noteq> SqlNull \<and> b \<noteq> SqlNull then
        (let comparison = compareSqlValuesFast a b coll in
         if direction = DESC then - comparison else comparison)
      else orderByNullResult a b nullsOrdering)"

text \<open>The optional NULLS clause of the syntax tree and the flag it becomes.\<close>

datatype nulls_clause = NFirst | NLast

fun nulls_flag :: "nulls_clause option \<Rightarrow> nulls_ordering" where
  "nulls_flag (Some NFirst) = NULLS_FIRST"
| "nulls_flag (Some NLast) = NULLS_LAST"
| "nulls_flag None = NULLS_DEFAULT"

definition createOrderByComparatorFast ::
  "sort_direction \<Rightarrow> nulls_clause option \<Rightarrow> collation \<Rightarrow> sql_value comparator" where
  "createOrderByComparatorFast direction nullsOrdering coll =
     (\<lambda>a b. compareWithOrderByFast a b direction (nulls_flag nullsOrdering) coll)"

section \<open>Declared logical types\<close>

text \<open>
  The fields of \<open>LogicalType\<close> (types/logical-type.ts) the comparators read. Types are
  compared by object identity, and so are their \<open>compare\<close> functions: \<open>type_id\<close> and the first
  component of \<open>type_compare\<close> are those identities.
\<close>

type_synonym type_compare_fun = "sql_value \<Rightarrow> sql_value \<Rightarrow> collation option \<Rightarrow> int"

record logical_type =
  type_id :: nat
  type_name :: js_string
  type_compare :: "(nat \<times> type_compare_fun) option"
  type_semanticOrdering :: bool
  type_collationAware :: bool
  type_groupKey :: "(sql_value \<Rightarrow> sql_value) option"

definition hasSemanticOrdering :: "logical_type option \<Rightarrow> bool" where
  "hasSemanticOrdering t =
     (case t of None \<Rightarrow> False | Some ty \<Rightarrow> type_semanticOrdering ty \<and> type_compare ty \<noteq> None)"

definition isCollationAware :: "logical_type option \<Rightarrow> bool" where
  "isCollationAware t = (case t of None \<Rightarrow> False | Some ty \<Rightarrow> type_collationAware ty)"

definition comparisonSemanticsDiffer :: "logical_type \<Rightarrow> logical_type \<Rightarrow> bool" where
  "comparisonSemanticsDiffer a b \<longleftrightarrow> map_option fst (type_compare a) \<noteq> map_option fst (type_compare b)"

definition semanticOrderingsAgree :: "logical_type option \<Rightarrow> logical_type option \<Rightarrow> bool" where
  "semanticOrderingsAgree a b =
     (let semA = hasSemanticOrdering a; semB = hasSemanticOrdering b in
      if \<not> semA \<and> \<not> semB then True
      else semA \<and> semB \<and> map_option type_id a = map_option type_id b)"

definition semanticKeyTransform :: "logical_type option \<Rightarrow> (sql_value \<Rightarrow> sql_value) option" where
  "semanticKeyTransform t =
     (case t of None \<Rightarrow> None
      | Some ty \<Rightarrow> if hasSemanticOrdering t then type_groupKey ty else None)"

definition createTypedComparator :: "logical_type \<Rightarrow> collation option \<Rightarrow> sql_value comparator" where
  "createTypedComparator ty coll =
     (case type_compare ty of
        Some (_, compareFunc) \<Rightarrow> (\<lambda>a b.
          if a = SqlNull \<and> b = SqlNull then 0
          else if a = SqlNull then -1
          else if b = SqlNull then 1
          else (let classA = getStorageClass a; classB = getStorageClass b in
                if classA \<noteq> classB then class_num classA - class_num classB
                else compareFunc a b coll))
      | None \<Rightarrow> (\<lambda>a b. compareSqlValuesFast a b (case coll of None \<Rightarrow> BINARY_COLLATION | Some f \<Rightarrow> f)))"

definition createTypedOrderByComparator ::
  "logical_type option \<Rightarrow> sort_direction \<Rightarrow> nulls_clause option \<Rightarrow> collation \<Rightarrow> sql_value comparator" where
  "createTypedOrderByComparator t direction nullsOrdering coll =
     (if \<not> hasSemanticOrdering t then createOrderByComparatorFast direction nullsOrdering coll
      else (let typedCompare = createTypedComparator (the t) (Some coll) in
        (\<lambda>a b. if a \<noteq> SqlNull \<and> b \<noteq> SqlNull
               then (let comparison = typedCompare a b in if direction = DESC then - comparison else comparison)
               else orderByNullResult a b (nulls_flag nullsOrdering))))"

definition createSemanticValueComparator :: "logical_type option \<Rightarrow> collation \<Rightarrow> sql_value comparator" where
  "createSemanticValueComparator t coll =
     (if hasSemanticOrdering t then createTypedComparator (the t) (Some coll)
      else (\<lambda>a b. compareSqlValuesFast a b coll))"

text \<open>
  TIMESPAN, the built-in type whose order is not the order of its text (types/temporal-types.ts).
  The total seconds of a duration come from the Temporal package: \<open>totalSeconds\<close> is a parameter,
  None where parsing or totalling throws. The type's \<open>validate\<close> admits text and NULL only, and
  \<open>createTypedComparator\<close> hands its \<open>compare\<close> two values of one storage class; the last
  equation is for the values that never reach it.
\<close>

definition compareNulls :: "sql_value \<Rightarrow> sql_value \<Rightarrow> int option" where
  "compareNulls a b =
     (if a = SqlNull \<and> b = SqlNull then Some 0
      else if a = SqlNull then Some (-1)
      else if b = SqlNull then Some 1
      else None)"

definition timespan_text_compare :: "(js_string \<Rightarrow> double option) \<Rightarrow> js_string \<Rightarrow> js_string \<Rightarrow> int" where
  "timespan_text_compare totalSeconds a b =
     (case (totalSeconds a, totalSeconds b) of
        (Some totalA, Some totalB) \<Rightarrow>
          if js_less (Dbl totalA) (Dbl totalB) then -1 else if js_less (Dbl totalB) (Dbl totalA) then 1 else 0
      | _ \<Rightarrow> BINARY_COLLATION a b)"

definition timespan_compare :: "(js_string \<Rightarrow> double option) \<Rightarrow> type_compare_fun" where
  "timespan_compare totalSeconds a b coll =
     (case compareNulls a b of
        Some nullCmp \<Rightarrow> nullCmp
      | None \<Rightarrow> (case (a, b) of
                  (SqlText s, SqlText t) \<Rightarrow> timespan_text_compare totalSeconds s t
                | _ \<Rightarrow> 0))"

definition timespan_groupKey :: "(js_string \<Rightarrow> double option) \<Rightarrow> sql_value \<Rightarrow> sql_value" where
  "timespan_groupKey totalSeconds v =
     (case v of
        SqlText s \<Rightarrow> (case totalSeconds s of Some w \<Rightarrow> SqlNum w | None \<Rightarrow> v)
      | _ \<Rightarrow> v)"

definition TIMESPAN_TYPE :: "nat \<Rightarrow> (js_string \<Rightarrow> double option) \<Rightarrow> logical_type" where
  "TIMESPAN_TYPE i totalSeconds =
     \<lparr>type_id = i, type_name = lit ''TIMESPAN'', type_compare = Some (i, timespan_compare totalSeconds),
      type_semanticOrdering = True, type_collationAware = False,
      type_groupKey = Some (timespan_groupKey totalSeconds)\<rparr>"

datatype compare_error = TypeMismatch js_string js_string

definition compareTypedValues ::
  "sql_value \<Rightarrow> sql_value \<Rightarrow> logical_type \<Rightarrow> logical_type \<Rightarrow> collation option \<Rightarrow> compare_error + int" where
  "compareTypedValues a b typeA typeB coll =
     (if a = SqlNull \<and> b = SqlNull then Inr 0
      else if a = SqlNull then Inr (-1)
      else if b = SqlNull then Inr 1
      else if type_id typeA \<noteq> type_id typeB then Inl (TypeMismatch (type_name typeA) (type_name typeB))
      else (case type_compare typeA of
              Some (_, f) \<Rightarrow> Inr (f a b coll)
            | None \<Rightarrow> Inr (compareSqlValuesFast a b (case coll of None \<Rightarrow> BINARY_COLLATION | Some f \<Rightarrow> f))))"

section \<open>Row comparators\<close>

text \<open>The loop the row comparators share: the first column that decides.\<close>

fun compare_columns :: "nat \<Rightarrow> sql_value comparator list \<Rightarrow> row \<Rightarrow> row \<Rightarrow> int" where
  "compare_columns i [] a b = 0"
| "compare_columns i (c # cs) a b =
     (let cmp = c (row_at a i) (row_at b i) in if cmp \<noteq> 0 then cmp else compare_columns (Suc i) cs a b)"

definition compareRows :: "row \<Rightarrow> row \<Rightarrow> int" where
  "compareRows a b = compare_columns 0 (replicate (length a) compareSqlValues) a b"

definition createSemanticRowComparator ::
  "logical_type option list \<Rightarrow> collation list \<Rightarrow> row \<Rightarrow> row \<Rightarrow> int" where
  "createSemanticRowComparator types collations =
     (let comparators = map (\<lambda>i. createSemanticValueComparator (types ! i)
            (if i < length collations then collations ! i else BINARY_COLLATION)) [0..<length types]
      in compare_columns 0 comparators)"

definition createTypedRowComparator ::
  "logical_type list \<Rightarrow> collation option list \<Rightarrow> row \<Rightarrow> row \<Rightarrow> int" where
  "createTypedRowComparator types collations =
     (let comparators = map (\<lambda>i. createTypedComparator (types ! i)
            (if i < length collations then collations ! i else None)) [0..<length types]
      in compare_columns 0 comparators)"

definition createCollationRowComparator :: "collation list \<Rightarrow> row \<Rightarrow> row \<Rightarrow> int" where
  "createCollationRowComparator collations =
     compare_columns 0 (map (\<lambda>coll a b. compareSqlValuesFast a b coll) collations)"

section \<open>The comparators are total preorders\<close>

text \<open>
  NaN is the one value the numeric branch cannot place: every comparison with it is 0.
  The engine keeps it out of its data, so the carrier of the orders is the other values.
\<close>

fun not_nan :: "sql_value \<Rightarrow> bool" where
  "not_nan (SqlNum w) = (\<not> is_nan w)"
| "not_nan _ = True"

lemma num_value_not_nan: "num_value n \<noteq> None \<longleftrightarrow> (case n of Dbl w \<Rightarrow> \<not> is_nan w | Big _ \<Rightarrow> True)"
  by (cases n) auto

lemma num_value_operand: "not_nan v \<Longrightarrow> \<exists>x. num_value (numeric_operand v) = Some x"
  by (cases v) (auto simp: is_nan_def mag_inf_def dmag_def)

lemma compareNumbers_ord:
  "num_value a = Some x \<Longrightarrow> num_value b = Some y \<Longrightarrow> compareNumbers a b = ord_cmp x y"
  by (simp add: compareNumbers_def js_less_def ord_cmp_def)

lemma compareNumbers_operands:
  "not_nan a \<Longrightarrow> not_nan b \<Longrightarrow> compareNumbers (numeric_operand a) (numeric_operand b) =
     ord_cmp (the (num_value (numeric_operand a))) (the (num_value (numeric_operand b)))"
  using num_value_operand [of a] num_value_operand [of b] compareNumbers_ord by fastforce

lemma compare_blobs_lex: "compare_blobs a b = lex_cmp ord_cmp a b"
  by (induction a b rule: compare_blobs.induct) (auto simp: ord_cmp_def)

lemma zero_comparator: "comparator_on A (\<lambda>_ _. 0)"
  by unfold_locales simp_all

lemma compareSameType_comparator:
  assumes "comparator_total coll"
  shows "comparator_on {v. not_nan v} (\<lambda>a b. compareSameType a b k coll)"
proof (cases k)
  case CNumeric
  have "comparator_on {v. not_nan v}
      (\<lambda>a b. ord_cmp (the (num_value (numeric_operand a))) (the (num_value (numeric_operand b))))"
    using ord.vimage [of "\<lambda>v. the (num_value (numeric_operand v))"] by simp
  then show ?thesis
    by (rule comparator_on_cong) (simp add: CNumeric compareNumbers_operands)
next
  case CText
  then show ?thesis using comparator_on.vimage [OF assms, of text_operand] by simp
next
  case CBlob
  then show ?thesis
    using comparator_on.vimage [OF lex_ord_comparator, of blob_operand] by (simp add: compare_blobs_lex)
next
  case CObject
  then show ?thesis using code_points.vimage [of objectCanonicalString] by simp
qed (simp_all add: zero_comparator)

lemma class_num_eq_iff [simp]: "class_num k = class_num l \<longleftrightarrow> k = l"
  by (cases k; cases l) simp_all

lemma class_num_pos: "k \<noteq> CNull \<Longrightarrow> 0 < class_num k"
  by (cases k) simp_all

lemma storage_class_null [simp]:
  "getStorageClass v = CNull \<longleftrightarrow> v = SqlNull" "CNull = getStorageClass v \<longleftrightarrow> v = SqlNull"
  by (cases v; simp)+

text \<open>The form every class-first comparator of the program takes, up to sign.\<close>

definition class_first :: "(storage_class \<Rightarrow> sql_value comparator) \<Rightarrow> sql_value comparator" where
  "class_first c a b =
     (if class_num (getStorageClass a) = class_num (getStorageClass b) then c (getStorageClass a) a b
      else class_num (getStorageClass a) - class_num (getStorageClass b))"

lemma class_first_comparator:
  assumes "\<And>k. comparator_on {v \<in> A. getStorageClass v = k} (c k)"
  shows "comparator_on A (class_first c)"
proof -
  have "comparator_on {v \<in> A. class_num (getStorageClass v) = n} (\<lambda>a b. c (getStorageClass a) a b)" for n
  proof (cases "\<exists>k. n = class_num k")
    case True
    then obtain k where "n = class_num k" ..
    then show ?thesis using assms [of k] by (auto intro: comparator_on_cong)
  qed (auto simp: comparator_on_def)
  from by_class_comparator [OF this] show ?thesis unfolding class_first_def [abs_def] .
qed

lemma compareSqlValuesFast_class_first:
  "sgn (compareSqlValuesFast a b coll) = sgn (class_first (\<lambda>k a b. compareSameType a b k coll) a b)"
  using class_num_pos [of "getStorageClass a"] class_num_pos [of "getStorageClass b"]
  by (auto simp: compareSqlValuesFast_def class_first_def Let_def sgn_if)

lemma compareSqlValuesFast_comparator:
  assumes "comparator_total coll"
  shows "comparator_on {v. not_nan v} (\<lambda>a b. compareSqlValuesFast a b coll)"
proof -
  have "comparator_on {v \<in> {v. not_nan v}. getStorageClass v = k} (\<lambda>a b. compareSameType a b k coll)" for k
    by (rule comparator_on.subset [OF compareSameType_comparator [OF assms]]) auto
  from class_first_comparator [OF this] show ?thesis
    by (rule comparator_on_cong) (rule compareSqlValuesFast_class_first)
qed

subsection \<open>Declared types\<close>

text \<open>
  The contract a logical type's \<open>compare\<close> has to meet under a collation on the values \<open>A\<close> of a
  column: a total preorder within each storage class. It need not be coherent across classes.
\<close>

definition lawful_type :: "sql_value set \<Rightarrow> logical_type \<Rightarrow> collation option \<Rightarrow> bool" where
  "lawful_type A ty coll =
     (case type_compare ty of
        None \<Rightarrow> comparator_total (case coll of None \<Rightarrow> BINARY_COLLATION | Some f \<Rightarrow> f)
      | Some (_, f) \<Rightarrow> (\<forall>k. comparator_on {v \<in> A. not_nan v \<and> getStorageClass v = k} (\<lambda>a b. f a b coll)))"

lemma createTypedComparator_class_first:
  assumes "type_compare ty = Some (i, f)"
  shows "sgn (createTypedComparator ty coll a b) =
    sgn (class_first (\<lambda>k a b. if k = CNull then 0 else f a b coll) a b)"
  using assms class_num_pos [of "getStorageClass a"] class_num_pos [of "getStorageClass b"]
  by (auto simp: createTypedComparator_def class_first_def Let_def sgn_if)

lemma createTypedComparator_comparator:
  assumes "lawful_type A ty coll"
  shows "comparator_on {v \<in> A. not_nan v} (createTypedComparator ty coll)"
proof (cases "type_compare ty")
  case None
  with assms show ?thesis
    by (auto simp: lawful_type_def createTypedComparator_def
        intro: comparator_on.subset [OF compareSqlValuesFast_comparator])
next
  case (Some p)
  then obtain i f where p: "type_compare ty = Some (i, f)" by (cases p) simp
  then have "comparator_on {v \<in> {v \<in> A. not_nan v}. getStorageClass v = k}
      (\<lambda>a b. if k = CNull then 0 else f a b coll)" for k
    using assms by (cases "k = CNull") (simp_all add: lawful_type_def zero_comparator)
  from class_first_comparator [OF this] show ?thesis
    by (rule comparator_on_cong) (rule createTypedComparator_class_first [OF p])
qed

subsection \<open>ORDER BY\<close>

definition with_nulls ::
  "sql_value comparator \<Rightarrow> sort_direction \<Rightarrow> nulls_clause option \<Rightarrow> sql_value comparator" where
  "with_nulls c direction nulls a b =
     (if a \<noteq> SqlNull \<and> b \<noteq> SqlNull then (if direction = DESC then - c a b else c a b)
      else orderByNullResult a b (nulls_flag nulls))"

lemma with_nulls_comparator:
  assumes "comparator_on A c"
  shows "comparator_on A (with_nulls c direction nulls)"
proof -
  define c' where "c' = (\<lambda>a b. if direction = DESC then - c a b else c a b)"
  define cls :: "sql_value \<Rightarrow> int" where
    "cls = (\<lambda>v. if v \<noteq> SqlNull then 0 else if nulls_flag nulls = NULLS_LAST then 1 else -1)"
  have "comparator_on A c'"
    using assms comparator_on.negated [OF assms] by (cases "direction = DESC") (simp_all add: c'_def)
  then have "comparator_on {v \<in> A. cls v = k} c'" for k
    by (rule comparator_on.subset) auto
  moreover have "SqlNull \<in> A \<Longrightarrow> c SqlNull SqlNull = 0"
    using assms by (rule comparator_on.cmp_refl)
  ultimately show ?thesis
    by (intro comparator_on_cong [OF by_class_comparator [of A cls c']])
       (auto simp: with_nulls_def orderByNullResult_def c'_def cls_def)
qed

lemma createTypedOrderByComparator_with_nulls:
  "createTypedOrderByComparator t direction nulls coll =
     with_nulls (createSemanticValueComparator t coll) direction nulls"
  by (auto simp: createTypedOrderByComparator_def createSemanticValueComparator_def with_nulls_def
      createOrderByComparatorFast_def compareWithOrderByFast_def Let_def fun_eq_iff)

text \<open>The types a value comparator may be asked for: only a semantic order consults the type.\<close>

definition lawful_column :: "sql_value set \<Rightarrow> logical_type option \<Rightarrow> collation \<Rightarrow> bool" where
  "lawful_column A t coll \<longleftrightarrow>
     comparator_total coll \<and> (hasSemanticOrdering t \<longrightarrow> lawful_type A (the t) (Some coll))"

lemma createSemanticValueComparator_comparator:
  "lawful_column A t coll \<Longrightarrow> comparator_on {v \<in> A. not_nan v} (createSemanticValueComparator t coll)"
  by (auto simp: lawful_column_def createSemanticValueComparator_def
      intro: createTypedComparator_comparator comparator_on.subset [OF compareSqlValuesFast_comparator])

subsubsection \<open>TIMESPAN\<close>

text \<open>
  The values on which the order of TIMESPAN is sound: NULL and the texts whose total seconds
  can be computed. On these its \<open>compare\<close> ranks by total seconds.
\<close>

definition totalled :: "(js_string \<Rightarrow> double option) \<Rightarrow> sql_value set" where
  "totalled totalSeconds = {v. v = SqlNull \<or>
     (\<exists>s w. v = SqlText s \<and> totalSeconds s = Some w \<and> \<not> is_nan w)}"

lemma timespan_text_compare_ord:
  assumes "num_value (Dbl p) = Some x" "num_value (Dbl q) = Some y"
    and "secs a = Some p" "secs b = Some q"
  shows "timespan_text_compare secs a b = (if x < y then -1 else if y < x then 1 else 0)"
  by (simp only: timespan_text_compare_def js_less_def assms prod.case option.case)

lemma totalled_text:
  assumes "v \<in> totalled secs" "getStorageClass v = CText"
  obtains s p x where "v = SqlText s" "secs s = Some p" "num_value (Dbl p) = Some x"
proof -
  obtain s p where v: "v = SqlText s" "secs s = Some p" "\<not> is_nan p"
    using assms unfolding totalled_def by force
  have "num_value (Dbl p) \<noteq> None"
    using v(3) by (subst num_value_not_nan) simp
  then obtain x where "num_value (Dbl p) = Some x" by blast
  with v(1,2) show thesis by (rule that)
qed

lemma totalled_null: "v \<in> totalled secs \<Longrightarrow> getStorageClass v \<noteq> CText \<Longrightarrow> v = SqlNull"
  by (auto simp: totalled_def)

lemma timespan_seconds_comparator:
  "comparator_on {v \<in> totalled secs. getStorageClass v = CText} (\<lambda>a b. timespan_compare secs a b coll)"
proof -
  define sec where "sec v = the (num_value (Dbl (the (secs (text_operand v)))))" for v
  have ord: "timespan_compare secs a b coll = (if sec a < sec b then -1 else if sec b < sec a then 1 else 0)"
    if a: "a \<in> totalled secs" "getStorageClass a = CText" and b: "b \<in> totalled secs" "getStorageClass b = CText" for a b
  proof -
    obtain s p x where s: "a = SqlText s" "secs s = Some p" "num_value (Dbl p) = Some x"
      using a by (rule totalled_text)
    obtain t q y where t: "b = SqlText t" "secs t = Some q" "num_value (Dbl q) = Some y"
      using b by (rule totalled_text)
    have "sec a = x" "sec b = y"
      unfolding sec_def s(1) t(1) text_operand.simps s(2) t(2) option.sel s(3) t(3) by (rule refl)+
    then show ?thesis
      using timespan_text_compare_ord [OF s(3) t(3) s(2) t(2)]
      by (simp add: timespan_compare_def compareNulls_def s(1) t(1) del: num_value.simps)
  qed
  show ?thesis
  proof
    show "sgn (timespan_compare secs y x coll) = - sgn (timespan_compare secs x y coll)"
      if "x \<in> {v \<in> totalled secs. getStorageClass v = CText}" "y \<in> {v \<in> totalled secs. getStorageClass v = CText}" for x y
      using that by (simp add: ord)
    show "timespan_compare secs x z coll \<le> 0"
      if "x \<in> {v \<in> totalled secs. getStorageClass v = CText}" "y \<in> {v \<in> totalled secs. getStorageClass v = CText}"
        "z \<in> {v \<in> totalled secs. getStorageClass v = CText}"
        "timespan_compare secs x y coll \<le> 0" "timespan_compare secs y z coll \<le> 0" for x y z
      using that by (auto simp: ord split: if_splits)
  qed
qed

lemma TIMESPAN_lawful: "lawful_type (totalled secs) (TIMESPAN_TYPE i secs) coll"
proof -
  have "comparator_on {v \<in> totalled secs. not_nan v \<and> getStorageClass v = k} (\<lambda>a b. timespan_compare secs a b coll)" for k
  proof (cases "k = CText")
    case True
    show ?thesis by (rule comparator_on.subset [OF timespan_seconds_comparator]) (auto simp: True)
  next
    case False
    have "comparator_on {SqlNull} (\<lambda>a b. timespan_compare secs a b coll)"
      by unfold_locales (auto simp: timespan_compare_def compareNulls_def)
    then show ?thesis by (rule comparator_on.subset) (use False totalled_null in auto)
  qed
  then show ?thesis by (simp add: lawful_type_def TIMESPAN_TYPE_def)
qed

lemma TIMESPAN_column:
  "comparator_total coll \<Longrightarrow> lawful_column (totalled secs) (Some (TIMESPAN_TYPE i secs)) coll"
  by (simp add: lawful_column_def TIMESPAN_lawful)

text \<open>
  Outside these values the text fallback breaks transitivity: a text without a total that lies,
  as text, between two spans whose totals are ordered the other way closes a cycle. Adding
  it to the column makes \<open>lawful_type\<close> false.
\<close>

lemma timespan_compare_cycle:
  assumes "secs x = Some p" "secs y = Some q" "secs z = None" "js_less (Dbl p) (Dbl q)"
    and "BINARY_COLLATION y z < 0" "BINARY_COLLATION z x < 0"
  shows "timespan_compare secs (SqlText x) (SqlText y) coll < 0"
    "timespan_compare secs (SqlText y) (SqlText z) coll < 0"
    "timespan_compare secs (SqlText z) (SqlText x) coll < 0"
  using assms by (simp_all add: timespan_compare_def compareNulls_def timespan_text_compare_def)

lemma TIMESPAN_not_lawful:
  assumes cycle: "secs x = Some p" "secs y = Some q" "secs z = None" "js_less (Dbl p) (Dbl q)"
    "BINARY_COLLATION y z < 0" "BINARY_COLLATION z x < 0"
    and A: "SqlText x \<in> A" "SqlText y \<in> A" "SqlText z \<in> A"
  shows "\<not> lawful_type A (TIMESPAN_TYPE i secs) coll"
proof
  let ?c = "\<lambda>a b. timespan_compare secs a b coll"
  assume "lawful_type A (TIMESPAN_TYPE i secs) coll"
  then have lawful: "comparator_on {v \<in> A. not_nan v \<and> getStorageClass v = CText} ?c"
    by (simp add: lawful_type_def TIMESPAN_TYPE_def)
  note c = timespan_compare_cycle [where coll = coll, OF cycle]
  have "?c (SqlText x) (SqlText z) < 0"
    using comparator_on.cmp_lt_trans [OF lawful _ _ _ c(1,2)] A by simp
  then show False
    using comparator_on.cmp_flip(1) [OF lawful, of "SqlText z" "SqlText x"] c(3) A by simp
qed

subsection \<open>Rows\<close>

lemma row_at_not_nan: "\<forall>v \<in> set r. not_nan v \<Longrightarrow> not_nan (row_at r i)"
  by (simp add: row_at_def)

lemma compare_columns_comparator_on:
  assumes "\<And>i. i < length cs \<Longrightarrow> comparator_on (A (k + i)) (cs ! i)"
  shows "comparator_on {r. \<forall>i < length cs. row_at r (k + i) \<in> A (k + i)} (compare_columns k cs)"
  using assms
proof (induction cs arbitrary: k)
  case (Cons c cs)
  let ?R = "{r. \<forall>i < length (c # cs). row_at r (k + i) \<in> A (k + i)}"
  have "comparator_on (A k) c" using Cons.prems [of 0] by simp
  then have hd: "comparator_on ?R (\<lambda>a b. c (row_at a k) (row_at b k))"
    by (rule comparator_on.vimage) (auto dest: spec [of _ 0])
  have "comparator_on {r. \<forall>i < length cs. row_at r (Suc k + i) \<in> A (Suc k + i)} (compare_columns (Suc k) cs)"
  proof (rule Cons.IH)
    show "comparator_on (A (Suc k + i)) (cs ! i)" if "i < length cs" for i
      using Cons.prems [of "Suc i"] that by simp
  qed
  then have tl: "comparator_on ?R (compare_columns (Suc k) cs)"
    by (rule comparator_on.subset) (auto dest: spec [of _ "Suc _"])
  show ?case
    by (rule comparator_on_cong [OF comparator_on_then [OF hd tl]]) (simp add: Let_def)
qed (simp add: comparator_on_cong [OF zero_comparator])

lemma compare_columns_comparator:
  assumes "\<And>c. c \<in> set cs \<Longrightarrow> comparator_on {v. not_nan v} c"
  shows "comparator_on {r. \<forall>v \<in> set r. not_nan v} (compare_columns k cs)"
  by (rule comparator_on.subset [OF compare_columns_comparator_on [of cs "\<lambda>_. {v. not_nan v}"]])
     (auto simp: assms row_at_not_nan)

lemma compare_columns_eq_iff:
  "compare_columns k cs a b = 0 \<longleftrightarrow> (\<forall>i < length cs. (cs ! i) (row_at a (k + i)) (row_at b (k + i)) = 0)"
proof (induction cs arbitrary: k)
  case (Cons c cs)
  show ?case
    by (simp add: Cons.IH Let_def All_less_Suc2)
qed simp

lemma other_operand:
  "getStorageClass v \<noteq> CNumeric \<Longrightarrow> numeric_operand v = Dbl 0" "getStorageClass v \<noteq> CText \<Longrightarrow> text_operand v = []"
  "getStorageClass v \<noteq> CBlob \<Longrightarrow> blob_operand v = []" "getStorageClass v \<noteq> CObject \<Longrightarrow> objectCanonicalString v = []"
  by (cases v; simp)+

section \<open>Properties\<close>

text \<open>
  C4. For every collation that is itself a total preorder of strings, the SQL value comparator
  is a total preorder of the values other than NaN: verdicts flip sign with the operands,
  they are transitive, and a value of a lower storage class (NULL, numeric, text, blob,
  object) always comes first.
\<close>

theorem compareSqlValuesFast_total_preorder:
  assumes "comparator_total coll" "not_nan a" "not_nan b" "not_nan c"
  shows "sgn (compareSqlValuesFast b a coll) = - sgn (compareSqlValuesFast a b coll) \<and>
    (compareSqlValuesFast a b coll \<le> 0 \<and> compareSqlValuesFast b c coll \<le> 0 \<longrightarrow>
      compareSqlValuesFast a c coll \<le> 0) \<and>
    (class_num (getStorageClass a) < class_num (getStorageClass b) \<longrightarrow> compareSqlValuesFast a b coll < 0)"
proof (intro conjI impI)
  note order = compareSqlValuesFast_comparator [OF assms(1)]
  show "sgn (compareSqlValuesFast b a coll) = - sgn (compareSqlValuesFast a b coll)"
    using comparator_on.cmp_antisym [OF order, of a b] assms by simp
  show "compareSqlValuesFast a c coll \<le> 0" if "compareSqlValuesFast a b coll \<le> 0 \<and> compareSqlValuesFast b c coll \<le> 0"
    using comparator_on.cmp_trans [OF order, of a b c] assms that by simp
  show "compareSqlValuesFast a b coll < 0" if "class_num (getStorageClass a) < class_num (getStorageClass b)"
    using compareSqlValuesFast_class_first [of a b coll] that by (simp add: class_first_def sgn_if split: if_splits)
qed

theorem compareSqlValuesFast_total_preorder_witness:
  "compareSqlValuesFast (SqlBool True) (SqlBig 2) BINARY_COLLATION \<le> 0 \<and>
   compareSqlValuesFast (SqlBig 2) (SqlText (lit ''1'')) BINARY_COLLATION < 0 \<and>
   compareSqlValuesFast (SqlBool True) (SqlText (lit ''1'')) BINARY_COLLATION \<le> 0"
proof -
  have "compareSqlValuesFast (SqlBool True) (SqlBig 2) BINARY_COLLATION \<le> 0"
    by (simp add: compareSqlValuesFast_def compareNumbers_def js_less_def is_nan_def is_inf_def mag_inf_def
        dmag_def dneg_def mag_scaled_def)
  then show ?thesis
    using compareSqlValuesFast_total_preorder
        [of BINARY_COLLATION "SqlBig 2" "SqlText (lit ''1'')" SqlNull]
      compareSqlValuesFast_total_preorder
        [of BINARY_COLLATION "SqlBool True" "SqlBig 2" "SqlText (lit ''1'')"]
    by (simp add: builtin_comparators)
qed

text \<open>
  C5. Where the collation is a total preorder and so is the \<open>compare\<close> of a declared type with a
  semantic order on the values \<open>A\<close> of the column, the ORDER BY comparator of a sort key is a total
  preorder of \<open>A\<close> (NaN aside) for every direction and NULLS clause. NULLs go to the end the
  NULLS clause names, and without a clause they come first in both directions, DESC included.
  DESC reverses ASC exactly on the other values.
\<close>

theorem order_by_comparator_correct:
  assumes "lawful_column A t coll"
  shows "comparator_on {v \<in> A. not_nan v} (createTypedOrderByComparator t direction nulls coll) \<and>
    (\<forall>v. v \<noteq> SqlNull \<longrightarrow>
      (if nulls = Some NLast then createTypedOrderByComparator t direction nulls coll v SqlNull < 0
       else createTypedOrderByComparator t direction nulls coll SqlNull v < 0)) \<and>
    (\<forall>u v. u \<noteq> SqlNull \<and> v \<noteq> SqlNull \<longrightarrow>
      createTypedOrderByComparator t DESC nulls coll u v = - createTypedOrderByComparator t ASC nulls coll u v)"
proof -
  have "nulls_flag nulls = NULLS_LAST \<longleftrightarrow> nulls = Some NLast"
    by (cases nulls rule: nulls_flag.cases) simp_all
  then show ?thesis
    using with_nulls_comparator [OF createSemanticValueComparator_comparator [OF assms]]
    by (simp add: createTypedOrderByComparator_with_nulls with_nulls_def orderByNullResult_def)
qed

text \<open>
  A TIMESPAN column over two spellings of an hour and one of two hours, with their totals, the
  doubles 3600 and 7200.
\<close>

definition demo_seconds :: "js_string \<Rightarrow> double option" where
  "demo_seconds s =
     (if s = lit ''PT1H'' \<or> s = lit ''PT60M'' then Some 0x40AC200000000000
      else if s = lit ''PT2H'' then Some 0x40BC200000000000 else None)"

lemma demo_seconds_totals:
  "demo_seconds (lit ''PT1H'') = Some 0x40AC200000000000" "demo_seconds (lit ''PT60M'') = Some 0x40AC200000000000"
  "demo_seconds (lit ''PT2H'') = Some 0x40BC200000000000"
  by (simp_all add: demo_seconds_def lit_def)

theorem order_by_comparator_correct_witness:
  "comparator_on {v \<in> totalled demo_seconds. not_nan v}
     (createTypedOrderByComparator (Some (TIMESPAN_TYPE 7 demo_seconds)) DESC None BINARY_COLLATION) \<and>
   createTypedOrderByComparator (Some (TIMESPAN_TYPE 7 demo_seconds)) DESC None BINARY_COLLATION
     SqlNull (SqlText (lit ''PT2H'')) < 0 \<and>
   createTypedOrderByComparator (Some (TIMESPAN_TYPE 7 demo_seconds)) DESC None BINARY_COLLATION
     (SqlText (lit ''PT2H'')) (SqlText (lit ''PT60M'')) < 0"
proof -
  let ?T = "Some (TIMESPAN_TYPE 7 demo_seconds)"
  have "lawful_column (totalled demo_seconds) ?T BINARY_COLLATION"
    by (simp add: TIMESPAN_column builtin_comparators)
  from order_by_comparator_correct [OF this, of DESC None]
  have order: "comparator_on {v \<in> totalled demo_seconds. not_nan v}
        (createTypedOrderByComparator ?T DESC None BINARY_COLLATION)"
    "createTypedOrderByComparator ?T DESC None BINARY_COLLATION SqlNull (SqlText (lit ''PT2H'')) < 0"
    "createTypedOrderByComparator ?T DESC None BINARY_COLLATION (SqlText (lit ''PT2H'')) (SqlText (lit ''PT60M'')) =
      - createTypedOrderByComparator ?T ASC None BINARY_COLLATION (SqlText (lit ''PT2H'')) (SqlText (lit ''PT60M''))"
    by simp_all
  moreover have "createTypedOrderByComparator ?T ASC None BINARY_COLLATION
      (SqlText (lit ''PT2H'')) (SqlText (lit ''PT60M'')) = 1"
    by (simp add: createTypedOrderByComparator_def hasSemanticOrdering_def TIMESPAN_TYPE_def
        createTypedComparator_def timespan_compare_def compareNulls_def timespan_text_compare_def demo_seconds_totals
        js_less_def is_nan_def is_inf_def mag_inf_def dmag_def dneg_def mag_scaled_def)
  ultimately show ?thesis by simp
qed

text \<open>
  C6. The row comparator of DISTINCT and the set operations, for columns whose collation is a
  total preorder and whose type, where it has a semantic order, is one on the values \<open>A i\<close> of
  column \<open>i\<close>: it is a total preorder of the rows over these values (NaN aside). For any rows it
  calls two equal exactly when every column's comparator does.
\<close>

theorem semantic_row_comparator_correct:
  assumes "length collations = length types"
    and "\<And>i. i < length types \<Longrightarrow> lawful_column (A i) (types ! i) (collations ! i)"
  shows "comparator_on {r. \<forall>i < length types. row_at r i \<in> A i \<and> not_nan (row_at r i)}
      (createSemanticRowComparator types collations) \<and>
    (createSemanticRowComparator types collations a b = 0 \<longleftrightarrow>
      (\<forall>i < length types. createSemanticValueComparator (types ! i) (collations ! i) (row_at a i) (row_at b i) = 0))"
proof
  let ?cs = "map (\<lambda>i. createSemanticValueComparator (types ! i)
    (if i < length collations then collations ! i else BINARY_COLLATION)) [0..<length types]"
  have "comparator_on {v \<in> A (0 + i). not_nan v} (?cs ! i)" if "i < length ?cs" for i
    using that assms createSemanticValueComparator_comparator by simp
  from compare_columns_comparator_on [where A = "\<lambda>i. {v \<in> A i. not_nan v}", OF this]
  show "comparator_on {r. \<forall>i < length types. row_at r i \<in> A i \<and> not_nan (row_at r i)}
      (createSemanticRowComparator types collations)"
    by (simp add: createSemanticRowComparator_def)
  show "createSemanticRowComparator types collations a b = 0 \<longleftrightarrow>
      (\<forall>i < length types. createSemanticValueComparator (types ! i) (collations ! i) (row_at a i) (row_at b i) = 0)"
    by (simp add: createSemanticRowComparator_def compare_columns_eq_iff assms(1))
qed

theorem semantic_row_comparator_correct_witness:
  "comparator_on {r. row_at r 0 \<in> totalled demo_seconds \<and> not_nan (row_at r 0) \<and> not_nan (row_at r 1)}
     (createSemanticRowComparator [Some (TIMESPAN_TYPE 7 demo_seconds), None] [BINARY_COLLATION, RTRIM_COLLATION]) \<and>
   createSemanticRowComparator [Some (TIMESPAN_TYPE 7 demo_seconds), None] [BINARY_COLLATION, RTRIM_COLLATION]
     [SqlText (lit ''PT1H''), SqlBig 1] [SqlText (lit ''PT60M''), SqlBig 1] = 0"
proof -
  let ?ts = "[Some (TIMESPAN_TYPE 7 demo_seconds), None]" and ?cs = "[BINARY_COLLATION, RTRIM_COLLATION]"
  let ?A = "\<lambda>i. if i = (0 :: nat) then totalled demo_seconds else UNIV"
  have *: "lawful_column (?A i) (?ts ! i) (?cs ! i)" if "i < length ?ts" for i
    using that TIMESPAN_column [of BINARY_COLLATION demo_seconds 7]
    by (cases i) (simp_all add: lawful_column_def hasSemanticOrdering_def builtin_comparators)
  have "compareSqlValuesFast (SqlBig 1) (SqlBig 1) RTRIM_COLLATION = 0"
    using comparator_on.cmp_refl [OF compareSqlValuesFast_comparator, of RTRIM_COLLATION "SqlBig 1"]
    by (simp add: builtin_comparators)
  moreover have "createSemanticValueComparator (Some (TIMESPAN_TYPE 7 demo_seconds)) BINARY_COLLATION
      (SqlText (lit ''PT1H'')) (SqlText (lit ''PT60M'')) = 0"
    by (simp add: createSemanticValueComparator_def hasSemanticOrdering_def TIMESPAN_TYPE_def
        createTypedComparator_def timespan_compare_def compareNulls_def timespan_text_compare_def demo_seconds_totals js_less_def)
  ultimately have "\<forall>i < length ?ts. createSemanticValueComparator (?ts ! i) (?cs ! i)
      (row_at [SqlText (lit ''PT1H''), SqlBig 1] i) (row_at [SqlText (lit ''PT60M''), SqlBig 1] i) = 0"
    by (simp add: All_less_Suc2 createSemanticValueComparator_def [of None] hasSemanticOrdering_def row_at_def)
  then show ?thesis
    using semantic_row_comparator_correct [where A = ?A, OF _ *,
        of "[SqlText (lit ''PT1H''), SqlBig 1]" "[SqlText (lit ''PT60M''), SqlBig 1]"]
    by (simp add: All_less_Suc2)
qed

text \<open>
  C7. Value identity, which decides whether an upsert changes a row, is class equality plus
  exact equality of content: numbers (booleans included) by mathematical value, text and
  blobs unit by unit, objects by canonical JSON text.
\<close>

theorem sqlValueIdentical_exact:
  assumes "not_nan a" "not_nan b"
  shows "sqlValueIdentical a b \<longleftrightarrow> getStorageClass a = getStorageClass b \<and>
    num_value (numeric_operand a) = num_value (numeric_operand b) \<and> text_operand a = text_operand b \<and>
    blob_operand a = blob_operand b \<and> objectCanonicalString a = objectCanonicalString b"
proof -
  obtain x y where xy: "num_value (numeric_operand a) = Some x" "num_value (numeric_operand b) = Some y"
    using assms num_value_operand by metis
  show ?thesis
  proof (cases "getStorageClass a = getStorageClass b")
    case True
    then show ?thesis using compareNumbers_ord [OF xy] xy
      by (cases "getStorageClass b") (simp_all add: sqlValueIdentical_def compareSqlValuesFast_def
          BINARY_COLLATION_def code_points.cmp_eq_iff compare_blobs_lex lex_ord_cmp_eq_iff cmp_simps other_operand)
  next
    case False
    then show ?thesis by (auto simp: sqlValueIdentical_def compareSqlValuesFast_def Let_def)
  qed
qed

theorem sqlValueIdentical_exact_witness:
  "sqlValueIdentical (SqlBig 1) (SqlBool True) \<and> \<not> sqlValueIdentical (SqlText (lit ''a'')) (SqlText (lit ''A''))"
  using sqlValueIdentical_exact [of "SqlBig 1" "SqlBool True"]
    sqlValueIdentical_exact [of "SqlText (lit ''a'')" "SqlText (lit ''A'')"]
  by (simp add: is_nan_def is_inf_def mag_inf_def dmag_def dneg_def mag_scaled_def lit_def)

text \<open>
  C8. When \<open>collationRefines\<close> answers yes, strings the finer built-in collation calls equal are
  equal under the coarser one, so a key unique under the coarser one stays unique.
\<close>

theorem collationRefines_sound:
  assumes "collationRefines up (Some f) (Some c)"
    and "builtinCollationResolver up lo f = Some finer" "builtinCollationResolver up lo c = Some coarser"
    and "finer a b = 0"
  shows "coarser a b = 0"
proof -
  have "comparator_total coarser"
    using assms(3) by (auto simp: builtinCollationResolver_def Let_def builtin_comparators split: if_splits)
  then have refl: "coarser b b = 0" by (rule comparator_on.cmp_refl) simp
  consider "normalizeCollationName up f = lit ''BINARY''"
    | "normalizeCollationName up f = normalizeCollationName up c"
    using assms(1) by (auto simp: collationRefines_def Let_def)
  then show ?thesis
  proof cases
    case 1
    then have "a = b"
      using assms(2,4) by (auto simp: builtinCollationResolver_def BINARY_COLLATION_def code_points.cmp_eq_iff)
    then show ?thesis using refl by simp
  next
    case 2
    then show ?thesis using assms(2,3,4) by (simp add: builtinCollationResolver_def)
  qed
qed

theorem collationRefines_sound_witness:
  "(RTRIM_COLLATION (lit ''a '') (lit ''a'') = 0) \<and> collationRefines id (Some (lit '' RTRIM'')) (Some (lit ''RTRIM''))"
proof -
  have n: "normalizeCollationName id (lit '' RTRIM'') = lit ''RTRIM''" "normalizeCollationName id (lit ''RTRIM'') = lit ''RTRIM''"
    by (simp_all add: normalizeCollationName_def js_trim_def lit_def js_space_def)
  have d: "lit ''RTRIM'' \<noteq> lit ''BINARY''" "lit ''RTRIM'' \<noteq> lit ''NOCASE''" by (simp_all add: lit_def)
  have e: "RTRIM_COLLATION (lit ''a '') (lit ''a'') = 0"
    by (simp add: RTRIM_COLLATION_rtrim rtrim_def lit_def code_points.cmp_eq_iff)
  have r: "collationRefines id (Some (lit '' RTRIM'')) (Some (lit ''RTRIM''))"
    by (simp add: collationRefines_def n)
  show ?thesis
    using collationRefines_sound [OF r, of id RTRIM_COLLATION RTRIM_COLLATION "lit ''a ''" "lit ''a''"] r e
    by (simp add: builtinCollationResolver_def n d)
qed

end
