(* ===== verification/Bytes.thy ===== *)
theory Bytes
  imports Sql_Compare
begin

text \<open>
  Byte strings: the key helpers of quereus-store/src/common/bytes.ts, big-endian integers,
  and the escaped, terminated byte sequences of quereus-store/src/common/encoding.ts.
\<close>

section \<open>Key helpers\<close>

definition bytesEqual :: "byte list \<Rightarrow> byte list \<Rightarrow> bool" where
  "bytesEqual a b \<longleftrightarrow> length a = length b \<and> list_all2 (=) a b"

fun compareBytes :: "byte list \<Rightarrow> byte list \<Rightarrow> int" where
  "compareBytes (x # xs) (y # ys) = (if x \<noteq> y then uint x - uint y else compareBytes xs ys)"
| "compareBytes a b = int (length a) - int (length b)"

definition hex_byte :: "byte \<Rightarrow> js_string" where
  "hex_byte b = [hex_unit (unat b div 16), hex_unit (unat b mod 16)]"

fun bytesToHex :: "byte list \<Rightarrow> js_string" where
  "bytesToHex [] = []"
| "bytesToHex (b # bs) = hex_byte b @ bytesToHex bs"

lemma bytesEqual_iff: "bytesEqual a b \<longleftrightarrow> a = b"
  by (auto simp: bytesEqual_def list_all2_conv_all_nth intro: nth_equalityI)

lemma compareBytes_sgn: "sgn (compareBytes a b) = lex_cmp ord_cmp a b"
proof (induction a b rule: compareBytes.induct)
  case (1 x xs y ys)
  have "uint x \<noteq> uint y" if "x \<noteq> y" using that by (simp add: word_uint_eq_iff)
  with 1 show ?case by (auto simp: ord_cmp_def [of x y] word_less_def sgn_if cmp_simps)
qed (auto simp: sgn_if neq_Nil_conv)

interpretation key_bytes: discriminating_comparator_on UNIV compareBytes
proof -
  have sgn: "sgn (compareBytes a b) = sgn (lex_cmp ord_cmp a b)" for a b
    using compareBytes_sgn [of a b] by (simp add: sgn_if split: if_splits)
  have "comparator_on UNIV compareBytes"
    by (rule comparator_on_cong [OF lex_ord_comparator]) (rule sgn)
  moreover have "a = b" if "compareBytes a b = 0" for a b
    using that sgn [of a b] lex_ord_cmp_eq_iff [of a b] by (simp add: sgn_if split: if_splits)
  ultimately show "discriminating_comparator_on UNIV compareBytes"
    by (simp add: discriminating_comparator_on_def discriminating_comparator_on_axioms_def)
qed

lemma hex_unit_less: "i < 16 \<Longrightarrow> j < 16 \<Longrightarrow> hex_unit i < hex_unit j \<longleftrightarrow> i < j"
  by (simp add: hex_unit_def word_less_nat_alt unat_of_nat)

lemma hex_byte_sep: "x < y \<Longrightarrow> sep (hex_byte x) (hex_byte y)"
proof -
  assume "x < y"
  then have "unat x < unat y" by (simp add: word_less_nat_alt)
  then consider "unat x div 16 < unat y div 16"
    | "unat x div 16 = unat y div 16" "unat x mod 16 < unat y mod 16"
    by (metis div_le_mono div_mult_mod_eq le_neq_implies_less less_imp_le_nat nat_add_left_cancel_less)
  then show ?thesis
    using unat_word_less(2) [of x] unat_word_less(2) [of y]
    by cases (auto simp: hex_byte_def sep_Cons_iff hex_unit_less sep_intros)
qed

interpretation hex: sep_encoder UNIV ord_cmp hex_byte
  by unfold_locales (auto simp: cmp_simps hex_byte_sep)

lemma bytesToHex_concat: "bytesToHex bs = concat (map hex_byte bs)"
  by (induction bs) simp_all

section \<open>Big-endian integers\<close>

fun be_bytes :: "nat \<Rightarrow> nat \<Rightarrow> byte list" where
  "be_bytes 0 n = []"
| "be_bytes (Suc k) n = be_bytes k (n div 256) @ [word_of_nat (n mod 256)]"

fun be_value :: "byte list \<Rightarrow> nat" where
  "be_value [] = 0"
| "be_value (b # bs) = unat b * 256 ^ length bs + be_value bs"

lemma length_be_bytes [simp]: "length (be_bytes k n) = k"
  by (induction k arbitrary: n) simp_all

lemma be_value_append: "be_value (a @ b) = be_value a * 256 ^ length b + be_value b"
  by (induction a) (simp_all add: algebra_simps power_add)

lemma be_value_be_bytes: "n < 256 ^ k \<Longrightarrow> be_value (be_bytes k n) = n"
proof (induction k arbitrary: n)
  case (Suc k)
  then have "n div 256 < 256 ^ k" by (simp add: less_mult_imp_div_less mult.commute)
  with Suc.IH show ?case by (simp add: be_value_append unat_of_nat)
qed simp

lemma be_value_less: "be_value bs < 256 ^ length bs"
proof (induction bs)
  case (Cons b bs)
  have "unat b * 256 ^ length bs + be_value bs < (unat b + 1) * 256 ^ length bs" using Cons by simp
  also have "\<dots> \<le> 256 * 256 ^ length bs" using unat_word_less(2) [of b] by (intro mult_right_mono) simp_all
  finally show ?case by simp
qed simp

lemma be_bytes_sep: "m < n \<Longrightarrow> n < 256 ^ k \<Longrightarrow> sep (be_bytes k m) (be_bytes k n)"
proof (induction k arbitrary: m n)
  case (Suc k)
  have bound: "n div 256 < 256 ^ k" using Suc.prems by (simp add: less_mult_imp_div_less mult.commute)
  have "m div 256 \<le> n div 256" using Suc.prems by (simp add: div_le_mono)
  then consider "m div 256 < n div 256" | "m div 256 = n div 256" by linarith
  then show ?case
  proof cases
    case 1
    from Suc.IH [OF this bound] show ?thesis by (simp add: sep_append)
  next
    case 2
    have "m mod 256 < n mod 256"
      using Suc.prems(1) 2 by (metis div_mult_mod_eq nat_add_left_cancel_less)
    then have "sep [word_of_nat (m mod 256) :: byte] [word_of_nat (n mod 256)]"
      by (intro sep_head) (simp add: byte_of_nat_less)
    with 2 show ?thesis by (simp add: sep_prepend)
  qed
qed simp

section \<open>Escaped byte sequences\<close>

text \<open>
  \<open>writeEscapedWithTerminator\<close> writes byte by byte into a buffer of the exact size it has
  counted; \<open>readEscapedUntilTerminator\<close> walks the buffer from \<open>offset + 1\<close> and reports how
  many bytes it consumed.
\<close>

definition escape_byte :: "byte \<Rightarrow> byte list" where
  "escape_byte b = (if b = 0 then [1, 1] else if b = 1 then [1, 2] else [b])"

definition writeEscapedWithTerminator :: "byte \<Rightarrow> byte list \<Rightarrow> byte list" where
  "writeEscapedWithTerminator typeTag bytes = typeTag # concat (map escape_byte bytes) @ [0]"

fun read_escaped :: "byte list \<Rightarrow> byte list \<times> nat" where
  "read_escaped [] = ([], 0)"
| "read_escaped (b # rest) =
     (if b = 0 then ([], 1)
      else if b = 1 \<and> rest \<noteq> [] \<and> hd rest = 1 then map_prod ((#) 0) ((+) 2) (read_escaped (tl rest))
      else if b = 1 \<and> rest \<noteq> [] \<and> hd rest = 2 then map_prod ((#) 1) ((+) 2) (read_escaped (tl rest))
      else map_prod ((#) b) ((+) 1) (read_escaped rest))"

definition readEscapedUntilTerminator :: "byte list \<Rightarrow> nat \<Rightarrow> byte list \<times> nat" where
  "readEscapedUntilTerminator buffer offset = map_prod id ((+) 1) (read_escaped (drop (offset + 1) buffer))"

lemma byte_cases_012:
  obtains "b = (0 :: byte)" | "b = 1" | "1 < b"
proof -
  have "b = 0 \<or> b = 1 \<or> 1 < b"
    by (simp add: word_less_nat_alt flip: unat_inj) linarith
  with that show thesis by blast
qed

lemma read_escaped_escape:
  "read_escaped (concat (map escape_byte bytes) @ 0 # rest) = (bytes, length (concat (map escape_byte bytes)) + 1)"
proof (induction bytes)
  case (Cons b bytes)
  show ?case by (cases b rule: byte_cases_012) (auto simp: escape_byte_def [of b] escape_byte_def [of 0] escape_byte_def [of 1] Cons.IH)
qed simp

lemma read_write_escaped:
  "readEscapedUntilTerminator (pre @ writeEscapedWithTerminator tag bytes @ rest) (length pre) =
     (bytes, length (writeEscapedWithTerminator tag bytes))"
  by (simp add: readEscapedUntilTerminator_def writeEscapedWithTerminator_def read_escaped_escape)

lemma escape_byte_sep: "b < c \<Longrightarrow> sep (escape_byte b) (escape_byte c)"
  by (cases b rule: byte_cases_012; cases c rule: byte_cases_012)
    (auto simp: escape_byte_def sep_Cons_iff sep_intros)

lemma escape_byte_hd: obtains x u where "escape_byte b = x # u" "0 < x"
proof (cases b rule: byte_cases_012)
  case 3
  then have "0 < b" by (rule order.strict_trans [rotated]) simp
  moreover have "escape_byte b = [b]" using 3 by (auto simp: escape_byte_def)
  ultimately show thesis by (intro that)
qed (use that in \<open>simp_all add: escape_byte_def\<close>)

lemma escaped_sep:
  "lex_cmp ord_cmp u v < 0 \<Longrightarrow> sep (concat (map escape_byte u) @ [0]) (concat (map escape_byte v) @ [0])"
proof (induction u v rule: list_induct2')
  case (3 y ys)
  obtain x w where "escape_byte y = x # w" "0 < x" by (rule escape_byte_hd)
  then show ?case by (simp add: sep_head)
next
  case (4 x xs y ys)
  then consider "x < y" | "x = y" "lex_cmp ord_cmp xs ys < 0"
    by (auto simp: cmp_simps split: if_splits)
  then show ?case
  proof cases
    case 1
    then show ?thesis by (simp add: escape_byte_sep sep_append)
  next
    case 2
    then show ?thesis using 4 by (simp add: sep_prepend)
  qed
qed simp_all

lemma writeEscaped_sep:
  "lex_cmp ord_cmp u v < 0 \<Longrightarrow> sep (writeEscapedWithTerminator tag u) (writeEscapedWithTerminator tag v)"
  by (simp add: writeEscapedWithTerminator_def sep_Cons escaped_sep)

end
