(* ===== verification/Kv_Store.thy ===== *)
theory Kv_Store
  imports Bytes "HOL-Library.AList"
begin

text \<open>
  The key-value store interface of quereus-store/src/common/kv-store.ts, what it promises as a
  contract over an abstract map from keys to values, and the in-memory implementation of
  memory-store.ts, which meets the contract. A JavaScript \<open>Map\<close> is an association list in
  insertion order: \<open>set\<close> is \<open>AList.update\<close> (an existing key keeps its place) and \<open>delete\<close> is
  \<open>AList.delete\<close>. Buffers are immutable values here, so the defensive copies of the source do
  not show.
\<close>

type_synonym key = "byte list"
type_synonym val = "byte list"
type_synonym kv_entry = "key \<times> val"
type_synonym kv_map = "key \<rightharpoonup> val"

datatype kv_error = StoreClosed | BackendError nat

record iterate_options =
  gte :: "key option"
  gt :: "key option"
  lte :: "key option"
  lt :: "key option"
  reverse :: bool
  limit :: "int option"

datatype batch_op = Put key val | Delete key

primrec op_key :: "batch_op \<Rightarrow> key" where
  "op_key (Put k v) = k"
| "op_key (Delete k) = k"

record 's kv_ops =
  op_get :: "'s \<Rightarrow> key \<Rightarrow> kv_error + val option \<times> 's"
  op_getMany :: "'s \<Rightarrow> key list \<Rightarrow> kv_error + val option list \<times> 's"
  op_put :: "'s \<Rightarrow> key \<Rightarrow> val \<Rightarrow> kv_error + 's"
  op_delete :: "'s \<Rightarrow> key \<Rightarrow> kv_error + 's"
  op_has :: "'s \<Rightarrow> key \<Rightarrow> kv_error + bool \<times> 's"
  op_iterate :: "'s \<Rightarrow> iterate_options \<Rightarrow> kv_error + kv_entry list"
  op_write :: "'s \<Rightarrow> batch_op list \<Rightarrow> kv_error + 's"
  op_close :: "'s \<Rightarrow> 's"
  op_approximateCount :: "'s \<Rightarrow> iterate_options option \<Rightarrow> kv_error + nat"

fun defaultGetMany :: "('s \<Rightarrow> key \<Rightarrow> kv_error + val option \<times> 's) \<Rightarrow> 's \<Rightarrow> key list \<Rightarrow> kv_error + val option list \<times> 's" where
  "defaultGetMany g s [] = Inr ([], s)"
| "defaultGetMany g s (k # ks) = (case g s k of
     Inl e \<Rightarrow> Inl e
   | Inr (v, s1) \<Rightarrow> (case defaultGetMany g s1 ks of Inl e \<Rightarrow> Inl e | Inr (vs, s2) \<Rightarrow> Inr (v # vs, s2)))"

section \<open>The contract\<close>

text \<open>
  What a range scan of a map yields: its entries in key order (or the reverse), restricted to
  the window of the options and cut at the limit.
\<close>

definition keyWithinBounds :: "key \<Rightarrow> iterate_options \<Rightarrow> bool" where
  "keyWithinBounds k bounds \<longleftrightarrow>
     \<not> (case gte bounds of Some b \<Rightarrow> compareBytes k b < 0 | None \<Rightarrow> False) \<and>
     \<not> (case gt bounds of Some b \<Rightarrow> compareBytes k b \<le> 0 | None \<Rightarrow> False) \<and>
     \<not> (case lte bounds of Some b \<Rightarrow> compareBytes k b > 0 | None \<Rightarrow> False) \<and>
     \<not> (case lt bounds of Some b \<Rightarrow> compareBytes k b \<ge> 0 | None \<Rightarrow> False)"

definition key_sorted :: "kv_entry list \<Rightarrow> bool" where
  "key_sorted xs \<longleftrightarrow> strict_cmp compareBytes (map fst xs)"

fun take_limit :: "int option \<Rightarrow> 'a list \<Rightarrow> 'a list" where
  "take_limit None xs = xs"
| "take_limit (Some n) xs = take (nat n) xs"

lemma take_limit_Nil [simp]: "take_limit n [] = []"
  by (cases n) simp_all

definition window :: "iterate_options \<Rightarrow> kv_entry list \<Rightarrow> kv_entry list" where
  "window opts xs = filter (\<lambda>e. keyWithinBounds (fst e) opts) (if reverse opts then rev xs else xs)"

definition scan_list :: "iterate_options \<Rightarrow> kv_entry list \<Rightarrow> kv_entry list" where
  "scan_list opts xs = take_limit (limit opts) (window opts xs)"

definition scan_of :: "iterate_options \<Rightarrow> kv_map \<Rightarrow> kv_entry list \<Rightarrow> bool" where
  "scan_of opts m xs \<longleftrightarrow> (\<exists>ys. key_sorted ys \<and> map_of ys = m \<and> xs = scan_list opts ys)"

fun apply_op :: "batch_op \<Rightarrow> kv_map \<Rightarrow> kv_map" where
  "apply_op (Put k v) m = m(k \<mapsto> v)"
| "apply_op (Delete k) m = m(k := None)"

definition apply_ops :: "batch_op list \<Rightarrow> kv_map \<Rightarrow> kv_map" where
  "apply_ops ops m = fold apply_op ops m"

lemma apply_ops_simps [simp]:
  "apply_ops [] m = m" "apply_ops (x # xs) m = apply_ops xs (apply_op x m)"
  "apply_ops (xs @ ys) m = apply_ops ys (apply_ops xs m)"
  by (simp_all add: apply_ops_def)

lemma apply_op_cong_key: "m k = m' k \<Longrightarrow> apply_op x m k = apply_op x m' k"
  by (cases x) auto

lemma apply_ops_cong_key: "m k = m' k \<Longrightarrow> apply_ops xs m k = apply_ops xs m' k"
proof (induction xs arbitrary: m m')
  case (Cons x xs)
  have "apply_op x m k = apply_op x m' k" by (rule apply_op_cong_key) (rule Cons.prems)
  then show ?case using Cons.IH [of "apply_op x m" "apply_op x m'"] by simp
qed simp

lemma key_sorted_distinct: "key_sorted xs \<Longrightarrow> distinct (map fst xs)"
  unfolding key_sorted_def using key_bytes.strict_iff [of "map fst xs"] by simp

lemma map_of_set_eq: "distinct (map fst xs) \<Longrightarrow> distinct (map fst ys) \<Longrightarrow> map_of xs = map_of ys \<Longrightarrow> set xs = set ys"
  by (simp add: map_of_inject_set)

lemma key_sorted_unique:
  assumes "key_sorted xs" "key_sorted ys" "map_of xs = map_of ys"
  shows "xs = ys"
proof -
  note d = key_sorted_distinct [OF assms(1)] key_sorted_distinct [OF assms(2)]
  have set: "set xs = set ys" by (rule map_of_set_eq [OF d assms(3)])
  then have "map fst xs = map fst ys"
    using assms(1,2) unfolding key_sorted_def
    by (intro key_bytes.strict_unique) (auto simp: image_set [symmetric] simp del: image_set)
  moreover have "inj_on fst (set xs \<union> set ys)" using d(1) set by (simp add: distinct_map)
  ultimately show ?thesis by (simp add: inj_on_map_eq_map)
qed

text \<open>The order a scan yields keys in.\<close>

definition iter_before :: "bool \<Rightarrow> kv_entry \<Rightarrow> kv_entry \<Rightarrow> bool" where
  "iter_before rv a b \<longleftrightarrow> (if rv then compareBytes (fst b) (fst a) < 0 else compareBytes (fst a) (fst b) < 0)"

lemma window_sorted: "key_sorted ys \<Longrightarrow> sorted_wrt (iter_before (reverse opts)) (window opts ys)"
  unfolding window_def key_sorted_def sorted_wrt_map
  by (intro sorted_wrt_filter) (cases "reverse opts", simp_all add: sorted_wrt_rev iter_before_def [abs_def])

lemma iter_sorted_False: "sorted_wrt (iter_before False) xs \<longleftrightarrow> key_sorted xs"
  by (simp add: key_sorted_def sorted_wrt_map iter_before_def [abs_def])

lemma iter_sorted_True: "sorted_wrt (iter_before True) xs \<longleftrightarrow> key_sorted (rev xs)"
  by (simp add: key_sorted_def sorted_wrt_map sorted_wrt_rev iter_before_def [abs_def] rev_map [symmetric])

lemma iter_sorted_unique:
  assumes "sorted_wrt (iter_before rv) xs" "sorted_wrt (iter_before rv) ys" "set xs = set ys"
  shows "xs = ys"
proof -
  have uniq: "as = bs" if "key_sorted as" "key_sorted bs" "set as = set bs" for as bs
    using that key_sorted_distinct by (intro key_sorted_unique) (simp_all add: map_of_inject_set)
  show ?thesis
  proof (cases rv)
    case True
    with assms have "rev xs = rev ys" by (intro uniq) (simp_all add: iter_sorted_True)
    then show ?thesis by simp
  qed (use assms in \<open>simp add: iter_sorted_False uniq\<close>)
qed

lemma scan_of_unique: "scan_of opts m xs \<Longrightarrow> scan_of opts m ys \<Longrightarrow> xs = ys"
  unfolding scan_of_def using key_sorted_unique by metis

locale kv_contract =
  fixes K :: "('s, 'x) kv_ops_scheme" and opened closed :: "'s \<Rightarrow> bool" and contents :: "'s \<Rightarrow> kv_map"
  assumes get_law: "opened s \<Longrightarrow> \<exists>s'. op_get K s k = Inr (contents s k, s') \<and> opened s' \<and> contents s' = contents s"
    and getMany_law: "opened s \<Longrightarrow> \<exists>s'. op_getMany K s ks = Inr (map (contents s) ks, s') \<and> opened s' \<and> contents s' = contents s"
    and has_law: "opened s \<Longrightarrow> \<exists>s'. op_has K s k = Inr (contents s k \<noteq> None, s') \<and> opened s' \<and> contents s' = contents s"
    and put_law: "opened s \<Longrightarrow> \<exists>s'. op_put K s k v = Inr s' \<and> opened s' \<and> contents s' = (contents s)(k \<mapsto> v)"
    and delete_law: "opened s \<Longrightarrow> \<exists>s'. op_delete K s k = Inr s' \<and> opened s' \<and> contents s' = (contents s)(k := None)"
    and iterate_law: "opened s \<Longrightarrow> \<exists>xs. op_iterate K s opts = Inr xs \<and> scan_of opts (contents s) xs"
    and write_law: "opened s \<Longrightarrow> \<exists>s'. op_write K s ops = Inr s' \<and> opened s' \<and> contents s' = apply_ops ops (contents s)"
    and close_law: "opened s \<Longrightarrow> closed (op_close K s)"
    and closed_law: "closed s \<Longrightarrow> op_get K s k = Inl StoreClosed \<and> op_has K s k = Inl StoreClosed \<and>
      op_put K s k v = Inl StoreClosed \<and> op_delete K s k = Inl StoreClosed \<and> op_iterate K s opts = Inl StoreClosed"
begin

text \<open>Reading a key just written, and after a batch of writes.\<close>

lemma get_after_put:
  assumes "opened s" "op_put K s k v = Inr s1"
  shows "\<exists>s2. op_get K s1 k' = Inr (if k' = k then Some v else contents s k', s2)"
  using put_law [OF assms(1), of k v] assms(2) get_law [of s1 k'] by auto

lemma scan_after_write:
  assumes "opened s" "op_write K s ops = Inr s1" "op_iterate K s1 opts = Inr xs"
  shows "scan_of opts (apply_ops ops (contents s)) xs"
  using write_law [OF assms(1), of ops] assms(2,3) iterate_law [of s1 opts] by auto

end

section \<open>The in-memory store\<close>

record mem_store =
  mem_data :: "(js_string \<times> kv_entry) list"
  mem_closed :: bool

definition new_mem_store :: mem_store where
  "new_mem_store = \<lparr>mem_data = [], mem_closed = False\<rparr>"

text \<open>\<open>localeCompare\<close> on lower-case hex digits, where it is the code-unit order.\<close>

definition compareHex :: "js_string \<Rightarrow> js_string \<Rightarrow> int" where
  "compareHex a b = lex_cmp ord_cmp a b"

definition checkOpen :: "mem_store \<Rightarrow> 'a \<Rightarrow> kv_error + 'a" where
  "checkOpen s r = (if mem_closed s then Inl StoreClosed else Inr r)"

definition mem_get :: "mem_store \<Rightarrow> key \<Rightarrow> kv_error + val option \<times> mem_store" where
  "mem_get s k = checkOpen s (map_option snd (map_of (mem_data s) (bytesToHex k)), s)"

definition mem_getMany :: "mem_store \<Rightarrow> key list \<Rightarrow> kv_error + val option list \<times> mem_store" where
  "mem_getMany s ks = defaultGetMany mem_get s ks"

definition mem_put :: "mem_store \<Rightarrow> key \<Rightarrow> val \<Rightarrow> kv_error + mem_store" where
  "mem_put s k v = checkOpen s (s\<lparr>mem_data := AList.update (bytesToHex k) (k, v) (mem_data s)\<rparr>)"

definition mem_delete :: "mem_store \<Rightarrow> key \<Rightarrow> kv_error + mem_store" where
  "mem_delete s k = checkOpen s (s\<lparr>mem_data := AList.delete (bytesToHex k) (mem_data s)\<rparr>)"

definition mem_has :: "mem_store \<Rightarrow> key \<Rightarrow> kv_error + bool \<times> mem_store" where
  "mem_has s k = checkOpen s (map_of (mem_data s) (bytesToHex k) \<noteq> None, s)"

definition below_lower :: "iterate_options \<Rightarrow> js_string \<Rightarrow> bool" where
  "below_lower opts keyHex \<longleftrightarrow>
     (case gte opts of Some b \<Rightarrow> lex_cmp ord_cmp keyHex (bytesToHex b) < 0 | None \<Rightarrow> False) \<or>
     (case gt opts of Some b \<Rightarrow> lex_cmp ord_cmp keyHex (bytesToHex b) \<le> 0 | None \<Rightarrow> False)"

definition above_upper :: "iterate_options \<Rightarrow> js_string \<Rightarrow> bool" where
  "above_upper opts keyHex \<longleftrightarrow>
     (case lte opts of Some b \<Rightarrow> lex_cmp ord_cmp keyHex (bytesToHex b) > 0 | None \<Rightarrow> False) \<or>
     (case lt opts of Some b \<Rightarrow> lex_cmp ord_cmp keyHex (bytesToHex b) \<ge> 0 | None \<Rightarrow> False)"

fun iterate_loop :: "iterate_options \<Rightarrow> int \<Rightarrow> (js_string \<times> kv_entry) list \<Rightarrow> kv_entry list" where
  "iterate_loop opts n [] = []"
| "iterate_loop opts n ((keyHex, e) # rest) =
     (if (if reverse opts then above_upper opts keyHex else below_lower opts keyHex)
      then iterate_loop opts n rest
      else if (if reverse opts then below_lower opts keyHex else above_upper opts keyHex) then []
      else if (case limit opts of Some m \<Rightarrow> m \<le> n | None \<Rightarrow> False) then []
      else e # iterate_loop opts (n + 1) rest)"

definition mem_entries :: "mem_store \<Rightarrow> (js_string \<times> kv_entry) list" where
  "mem_entries s = sort_cmp (\<lambda>a b. compareHex (fst a) (fst b)) (mem_data s)"

definition mem_iterate :: "mem_store \<Rightarrow> iterate_options \<Rightarrow> kv_error + kv_entry list" where
  "mem_iterate s opts = checkOpen s
     (iterate_loop opts 0 (if reverse opts then rev (mem_entries s) else mem_entries s))"

fun mem_write :: "mem_store \<Rightarrow> batch_op list \<Rightarrow> kv_error + mem_store" where
  "mem_write s [] = Inr s"
| "mem_write s (op # ops) =
     (case (case op of Put k v \<Rightarrow> mem_put s k v | Delete k \<Rightarrow> mem_delete s k) of
        Inl e \<Rightarrow> Inl e
      | Inr s' \<Rightarrow> mem_write s' ops)"

definition mem_close :: "mem_store \<Rightarrow> mem_store" where
  "mem_close s = s\<lparr>mem_closed := True, mem_data := []\<rparr>"

definition mem_approximateCount :: "mem_store \<Rightarrow> iterate_options option \<Rightarrow> kv_error + nat" where
  "mem_approximateCount s options = (case options of
     None \<Rightarrow> checkOpen s (length (mem_data s))
   | Some opts \<Rightarrow> (case mem_iterate s opts of Inl e \<Rightarrow> Inl e | Inr xs \<Rightarrow> Inr (length xs)))"

definition mem_clear :: "mem_store \<Rightarrow> kv_error + mem_store" where
  "mem_clear s = checkOpen s (s\<lparr>mem_data := []\<rparr>)"

definition mem_size :: "mem_store \<Rightarrow> nat" where
  "mem_size s = length (mem_data s)"

definition mem_isClosed :: "mem_store \<Rightarrow> bool" where
  "mem_isClosed s = mem_closed s"

definition mem_ops :: "mem_store kv_ops" where
  "mem_ops = \<lparr>op_get = mem_get, op_getMany = mem_getMany, op_put = mem_put, op_delete = mem_delete,
     op_has = mem_has, op_iterate = mem_iterate, op_write = mem_write, op_close = mem_close,
     op_approximateCount = mem_approximateCount\<rparr>"


subsection \<open>It meets the contract\<close>

lemma hex_byte_nonempty: "hex_byte b \<noteq> []"
  by (simp add: hex_byte_def)

lemma bytesToHex_sgn: "sgn (lex_cmp ord_cmp (bytesToHex a) (bytesToHex b)) = sgn (compareBytes a b)"
proof -
  have "sgn (lex_cmp ord_cmp (bytesToHex a) (bytesToHex b)) = sgn (lex_cmp ord_cmp a b)"
    unfolding bytesToHex_concat by (rule hex.concat_sgn) (simp_all add: hex_byte_nonempty)
  then show ?thesis using compareBytes_sgn [of a b] by (simp add: sgn_if split: if_splits)
qed

lemma sgn_cases_int:
  assumes "sgn (x :: int) = sgn y"
  shows "x < 0 \<longleftrightarrow> y < 0" "x \<le> 0 \<longleftrightarrow> y \<le> 0" "x > 0 \<longleftrightarrow> y > 0" "x \<ge> 0 \<longleftrightarrow> y \<ge> 0" "x = 0 \<longleftrightarrow> y = 0"
  using assms by (auto simp: sgn_if split: if_splits)

lemmas bytesToHex_cmp = sgn_cases_int [OF bytesToHex_sgn]

lemma bytesToHex_inj [simp]: "bytesToHex a = bytesToHex b \<longleftrightarrow> a = b"
  using bytesToHex_cmp(5) [of a b] lex_ord_cmp_eq_iff [of "bytesToHex a" "bytesToHex b"]
    key_bytes.cmp_eq_iff [of a b] by simp

lemma hex_byte_inj [simp]: "hex_byte a = hex_byte b \<longleftrightarrow> a = b"
  using bytesToHex_inj [of "[a]" "[b]"] by simp

lemma keyWithinBounds_hex:
  "keyWithinBounds k opts \<longleftrightarrow> \<not> below_lower opts (bytesToHex k) \<and> \<not> above_upper opts (bytesToHex k)"
  by (auto simp: keyWithinBounds_def below_lower_def above_upper_def bytesToHex_cmp split: option.splits)

definition hex_keyed :: "(js_string \<times> kv_entry) list \<Rightarrow> bool" where
  "hex_keyed xs \<longleftrightarrow> list_all (\<lambda>x. fst x = bytesToHex (fst (snd x))) xs"

lemma iterate_loop_filter:
  assumes "hex_keyed xs"
    and "sorted_wrt (\<lambda>a b. (if reverse opts then below_lower opts (fst a) else above_upper opts (fst a)) \<longrightarrow>
           (if reverse opts then below_lower opts (fst b) else above_upper opts (fst b))) xs"
  shows "iterate_loop opts c xs =
    take_limit (map_option (\<lambda>n. n - c) (limit opts)) (filter (\<lambda>e. keyWithinBounds (fst e) opts) (map snd xs))"
  using assms
proof (induction opts c xs rule: iterate_loop.induct)
  case (2 opts c h e rest)
  define skip where "skip h = (if reverse opts then above_upper opts h else below_lower opts h)" for h
  define stop where "stop h = (if reverse opts then below_lower opts h else above_upper opts h)" for h
  have within: "keyWithinBounds (fst (snd x)) opts \<longleftrightarrow> \<not> skip (fst x) \<and> \<not> stop (fst x)"
    if "x \<in> set ((h, e) # rest)" for x
    using that 2(3) by (auto simp: hex_keyed_def list_all_iff keyWithinBounds_hex skip_def stop_def)
  have IH1: "iterate_loop opts c rest = take_limit (map_option (\<lambda>n. n - c) (limit opts))
      (filter (\<lambda>e. keyWithinBounds (fst e) opts) (map snd rest))" if "skip h"
    using 2(1) that 2(3,4) by (simp add: skip_def hex_keyed_def)
  have IH2: "iterate_loop opts (c + 1) rest = take_limit (map_option (\<lambda>n. n - (c + 1)) (limit opts))
      (filter (\<lambda>e. keyWithinBounds (fst e) opts) (map snd rest))"
    if "\<not> skip h" "\<not> stop h" "\<not> (case limit opts of Some n \<Rightarrow> n \<le> c | None \<Rightarrow> False)"
    using 2(2) that 2(3,4) by (simp add: skip_def stop_def hex_keyed_def)
  have here: "keyWithinBounds (fst e) opts \<longleftrightarrow> \<not> skip h \<and> \<not> stop h" using within [of "(h, e)"] by simp
  have none: "filter (\<lambda>e. keyWithinBounds (fst e) opts) (map snd rest) = []" if "stop h"
    using that 2(4) within by (auto simp: filter_empty_conv stop_def)
  have unfold: "iterate_loop opts c ((h, e) # rest) = (if skip h then iterate_loop opts c rest else if stop h then []
      else if (case limit opts of Some n \<Rightarrow> n \<le> c | None \<Rightarrow> False) then [] else e # iterate_loop opts (c + 1) rest)"
    by (simp add: skip_def stop_def)
  consider "skip h" | "\<not> skip h" "stop h" | "\<not> skip h" "\<not> stop h" by blast
  then show ?case
  proof cases
    case 1
    then show ?thesis unfolding unfold using IH1 here by simp
  next
    case 2
    then show ?thesis unfolding unfold using here none by (cases "limit opts") simp_all
  next
    case 3
    show ?thesis
    proof (cases "limit opts")
      case None
      then show ?thesis unfolding unfold using 3 IH2 here by simp
    next
      case (Some n)
      show ?thesis
      proof (cases "n \<le> c")
        case False
        then have "nat (n - c) = Suc (nat (n - (c + 1)))" by simp
        then show ?thesis unfolding unfold using 3 IH2 here Some False by simp
      next
        case True
        then show ?thesis unfolding unfold using 3 here Some by simp
      qed
    qed
  qed
qed simp

definition mem_opened :: "mem_store \<Rightarrow> bool" where
  "mem_opened s \<longleftrightarrow> \<not> mem_closed s \<and> distinct (map fst (mem_data s)) \<and> hex_keyed (mem_data s)"

definition mem_contents :: "mem_store \<Rightarrow> kv_map" where
  "mem_contents s k = map_option snd (map_of (mem_data s) (bytesToHex k))"

lemma hex_keyed_member: "hex_keyed xs \<Longrightarrow> x \<in> set xs \<Longrightarrow> fst x = bytesToHex (fst (snd x))"
  by (simp add: hex_keyed_def list_all_iff)

lemma hex_keyed_map_of: "hex_keyed xs \<Longrightarrow> map_of (map snd xs) k = map_option snd (map_of xs (bytesToHex k))"
  by (induction xs) (auto simp: hex_keyed_def)

lemma mem_contents_put:
  "mem_contents (s\<lparr>mem_data := AList.update (bytesToHex k) (k, v) (mem_data s)\<rparr>) = (mem_contents s)(k \<mapsto> v)"
  by (rule ext) (simp add: mem_contents_def AList.update_conv')

lemma mem_contents_delete:
  "mem_contents (s\<lparr>mem_data := AList.delete (bytesToHex k) (mem_data s)\<rparr>) = (mem_contents s)(k := None)"
  by (rule ext) (simp add: mem_contents_def AList.delete_conv')

lemma mem_opened_put:
  assumes "mem_opened s"
  shows "mem_opened (s\<lparr>mem_data := AList.update (bytesToHex k) (k, v) (mem_data s)\<rparr>)"
proof -
  have "hex_keyed (AList.update (bytesToHex k) (k, v) xs)" if "hex_keyed xs" for xs
    using that by (induction xs) (auto simp: hex_keyed_def)
  with assms show ?thesis by (simp add: mem_opened_def AList.distinct_update)
qed

lemma mem_opened_delete:
  "mem_opened s \<Longrightarrow> mem_opened (s\<lparr>mem_data := AList.delete (bytesToHex k) (mem_data s)\<rparr>)"
  by (auto simp: mem_opened_def hex_keyed_def list_all_iff AList.delete_eq intro: distinct_map_filter)

lemmas mem_ok = mem_contents_put mem_contents_delete mem_opened_put mem_opened_delete

lemma mem_open_simps [simp]: "mem_opened s \<Longrightarrow> checkOpen s r = Inr r" "mem_closed s \<Longrightarrow> checkOpen s r = Inl StoreClosed"
  by (simp_all add: mem_opened_def checkOpen_def)

lemma mem_entries_sorted:
  assumes "mem_opened s"
  shows "hex_keyed (mem_entries s)" "key_sorted (map snd (mem_entries s))"
    "map_of (map snd (mem_entries s)) = mem_contents s"
proof -
  have keys: "distinct (map fst (mem_entries s))" "set (mem_entries s) = set (mem_data s)"
    using assms mset_eq_imp_distinct_iff [of "map fst (mem_entries s)" "map fst (mem_data s)"]
    by (simp_all add: mem_opened_def mem_entries_def)
  then show hk: "hex_keyed (mem_entries s)"
    using assms by (auto simp: mem_opened_def hex_keyed_def list_all_iff)
  have "comparator_on UNIV (\<lambda>a b :: js_string \<times> kv_entry. compareHex (fst a) (fst b))"
    unfolding compareHex_def by (rule comparator_on.vimage [OF lex_ord_comparator]) simp
  then have le: "sorted_wrt (\<lambda>a b. lex_cmp ord_cmp (fst a) (fst b) \<le> 0) (mem_entries s)"
    unfolding mem_entries_def using comparator_on.sorted_sort_cmp [of UNIV] by (simp add: compareHex_def)
  then have "sorted_wrt (\<lambda>a b. compareBytes (fst (snd a)) (fst (snd b)) \<le> 0) (mem_entries s)"
    by (rule sorted_wrt_mono_rel [rotated]) (simp add: hex_keyed_member [OF hk] bytesToHex_cmp)
  then have "sorted_cmp compareBytes (map fst (map snd (mem_entries s)))" by (simp add: sorted_wrt_map)
  moreover have "map fst (mem_entries s) = map bytesToHex (map fst (map snd (mem_entries s)))"
    using hex_keyed_member [OF hk] by simp
  then have "distinct (map fst (map snd (mem_entries s)))" using keys(1) by (metis distinct_map)
  ultimately show "key_sorted (map snd (mem_entries s))"
    unfolding key_sorted_def using key_bytes.strict_iff by blast
  have "map_of (mem_entries s) = map_of (mem_data s)"
    using assms keys by (simp add: map_of_inject_set mem_opened_def)
  then show "map_of (map snd (mem_entries s)) = mem_contents s"
    by (intro ext) (simp add: hex_keyed_map_of [OF hk] mem_contents_def)
qed

text \<open>Leaving the window on the far side is final, in either direction of a sorted scan.\<close>

lemma key_ge_trans: "0 \<le> compareBytes a c \<Longrightarrow> compareBytes a b < 0 \<Longrightarrow> 0 < compareBytes b c"
  using key_bytes.cmp_le_lt_trans [of c a b] key_bytes.cmp_le_flip [of a c] key_bytes.cmp_flip(1) [of b c] by simp

lemma key_le_trans: "compareBytes b c \<le> 0 \<Longrightarrow> compareBytes a b < 0 \<Longrightarrow> compareBytes a c < 0"
  using key_bytes.cmp_lt_le_trans [of a b c] by simp

lemma above_upper_mono:
  assumes "above_upper opts (bytesToHex a)" "compareBytes a b < 0"
  shows "above_upper opts (bytesToHex b)"
proof -
  have "0 < compareBytes b c" if "0 \<le> compareBytes a c" for c by (rule key_ge_trans [OF that assms(2)])
  from this this [THEN less_imp_le] show ?thesis
    using assms(1) unfolding above_upper_def bytesToHex_cmp by (simp split: option.splits) (meson less_imp_le)+
qed

lemma below_lower_mono:
  assumes "below_lower opts (bytesToHex b)" "compareBytes a b < 0"
  shows "below_lower opts (bytesToHex a)"
proof -
  have "compareBytes a c < 0" if "compareBytes b c \<le> 0" for c by (rule key_le_trans [OF that assms(2)])
  from this this [THEN less_imp_le] show ?thesis
    using assms(1) unfolding below_lower_def bytesToHex_cmp by (simp split: option.splits) (meson less_imp_le)+
qed

lemma mem_iterate_scan:
  assumes "mem_opened s"
  shows "\<exists>xs. mem_iterate s opts = Inr xs \<and> scan_of opts (mem_contents s) xs"
proof -
  define es where "es = (if reverse opts then rev (mem_entries s) else mem_entries s)"
  note props = mem_entries_sorted [OF assms]
  have hk: "hex_keyed es" using props(1) by (simp add: es_def hex_keyed_def)
  have inc: "sorted_wrt (\<lambda>a b. compareBytes (fst (snd a)) (fst (snd b)) < 0) (mem_entries s)"
    using props(2) by (simp add: key_sorted_def sorted_wrt_map)
  have "sorted_wrt (\<lambda>a b. (if reverse opts then below_lower opts (fst a) else above_upper opts (fst a)) \<longrightarrow>
           (if reverse opts then below_lower opts (fst b) else above_upper opts (fst b))) es"
  proof (cases "reverse opts")
    case True
    have "sorted_wrt (\<lambda>a b. below_lower opts (fst b) \<longrightarrow> below_lower opts (fst a)) (mem_entries s)"
    proof (rule sorted_wrt_mono_rel [OF _ inc])
      fix a b assume "a \<in> set (mem_entries s)" "b \<in> set (mem_entries s)"
      then have "fst a = bytesToHex (fst (snd a))" "fst b = bytesToHex (fst (snd b))"
        using hex_keyed_member [OF props(1)] by blast+
      then show "compareBytes (fst (snd a)) (fst (snd b)) < 0 \<Longrightarrow> below_lower opts (fst b) \<longrightarrow> below_lower opts (fst a)"
        using below_lower_mono [of opts "fst (snd b)" "fst (snd a)"] by simp
    qed
    with True show ?thesis by (simp add: es_def sorted_wrt_rev)
  next
    case False
    have "sorted_wrt (\<lambda>a b. above_upper opts (fst a) \<longrightarrow> above_upper opts (fst b)) (mem_entries s)"
    proof (rule sorted_wrt_mono_rel [OF _ inc])
      fix a b assume "a \<in> set (mem_entries s)" "b \<in> set (mem_entries s)"
      then have "fst a = bytesToHex (fst (snd a))" "fst b = bytesToHex (fst (snd b))"
        using hex_keyed_member [OF props(1)] by blast+
      then show "compareBytes (fst (snd a)) (fst (snd b)) < 0 \<Longrightarrow> above_upper opts (fst a) \<longrightarrow> above_upper opts (fst b)"
        using above_upper_mono [of opts "fst (snd a)" "fst (snd b)"] by simp
    qed
    with False show ?thesis by (simp add: es_def)
  qed
  from iterate_loop_filter [OF hk this, of 0]
  have "iterate_loop opts 0 es = scan_list opts (map snd (mem_entries s))"
    by (simp add: scan_list_def window_def es_def rev_map option.map_ident)
  then show ?thesis
    using assms props(2,3) unfolding scan_of_def mem_iterate_def es_def [symmetric] by auto
qed

lemma mem_getMany_ok: "mem_opened s \<Longrightarrow> mem_getMany s ks = Inr (map (mem_contents s) ks, s)"
  unfolding mem_getMany_def by (induction ks) (simp_all add: mem_get_def mem_contents_def)

lemma mem_write_ok:
  "mem_opened s \<Longrightarrow> \<exists>s'. mem_write s ops = Inr s' \<and> mem_opened s' \<and> mem_contents s' = apply_ops ops (mem_contents s)"
proof (induction ops arbitrary: s)
  case (Cons x xs)
  show ?case
  proof (cases x)
    case (Put k v)
    then show ?thesis using Cons.IH [OF mem_opened_put [OF Cons.prems, of k v]] Cons.prems
      unfolding mem_contents_put by (simp add: mem_put_def fun_upd_def)
  next
    case (Delete k)
    then show ?thesis using Cons.IH [OF mem_opened_delete [OF Cons.prems, of k]] Cons.prems
      unfolding mem_contents_delete by (simp add: mem_delete_def fun_upd_def)
  qed
qed simp

interpretation mem: kv_contract mem_ops mem_opened mem_closed mem_contents
proof (unfold_locales, goal_cases)
  case (6 s opts)
  then show ?case using mem_iterate_scan by (simp add: mem_ops_def)
next
  case (7 s ops)
  then show ?case using mem_write_ok by (simp add: mem_ops_def)
next
  case (9 s k v opts)
  then show ?case
    by (simp add: mem_ops_def mem_get_def mem_has_def mem_put_def mem_delete_def mem_iterate_def)
qed (simp_all add: mem_ops_def mem_get_def mem_getMany_ok mem_has_def mem_put_def mem_delete_def mem_close_def
  mem_ok mem_contents_def [symmetric], auto simp: mem_contents_def)

end
