(* ===== verification/Paged_Iterate.thy ===== *)
theory Paged_Iterate
  imports Kv_Store
begin

text \<open>
  The batch-and-resume scan of quereus-store/src/common/paged-iterate.ts, for backends that
  cannot hold a cursor open. The backend read is the parameter \<open>fetch\<close>; the loop may not end
  for an arbitrary backend, so it is a partial function. A yielded sequence comes with the
  error that ended it, if one did.
\<close>

datatype paged_error = BadBatchSize int | BatchTooLong nat int

record edge =
  edge_key :: key
  edge_open :: bool

definition DEFAULT_BATCH_SIZE :: int where "DEFAULT_BATCH_SIZE = 256"

definition edgesOf :: "iterate_options \<Rightarrow> edge option \<times> edge option" where
  "edgesOf options =
     ((case gte options of
         Some k \<Rightarrow> Some \<lparr>edge_key = k, edge_open = False\<rparr>
       | None \<Rightarrow> (case gt options of Some k \<Rightarrow> Some \<lparr>edge_key = k, edge_open = True\<rparr> | None \<Rightarrow> None)),
      (case lte options of
         Some k \<Rightarrow> Some \<lparr>edge_key = k, edge_open = False\<rparr>
       | None \<Rightarrow> (case lt options of Some k \<Rightarrow> Some \<lparr>edge_key = k, edge_open = True\<rparr> | None \<Rightarrow> None)))"

fun isEmptyRange :: "edge option \<Rightarrow> edge option \<Rightarrow> bool" where
  "isEmptyRange (Some l) (Some u) = (let c = compareBytes (edge_key l) (edge_key u)
     in c > 0 \<or> (c = 0 \<and> (edge_open l \<or> edge_open u)))"
| "isEmptyRange _ _ = False"

definition boundsOf :: "edge option \<Rightarrow> edge option \<Rightarrow> bool \<Rightarrow> iterate_options" where
  "boundsOf lower upper rv =
     \<lparr>gte = (case lower of Some e \<Rightarrow> if edge_open e then None else Some (edge_key e) | None \<Rightarrow> None),
      gt = (case lower of Some e \<Rightarrow> if edge_open e then Some (edge_key e) else None | None \<Rightarrow> None),
      lte = (case upper of Some e \<Rightarrow> if edge_open e then None else Some (edge_key e) | None \<Rightarrow> None),
      lt = (case upper of Some e \<Rightarrow> if edge_open e then Some (edge_key e) else None | None \<Rightarrow> None),
      reverse = rv, limit = None\<rparr>"

type_synonym fetch_batch = "iterate_options \<Rightarrow> int \<Rightarrow> kv_entry list"

partial_function (option) paged_loop ::
  "fetch_batch \<Rightarrow> int \<Rightarrow> bool \<Rightarrow> edge option \<Rightarrow> edge option \<Rightarrow> int option \<Rightarrow> key option \<Rightarrow>
   (kv_entry list \<times> paged_error option) option" where
  "paged_loop fetch batchSize rv lower upper remaining resumeKey =
    (if (case remaining of Some r \<Rightarrow> r \<le> 0 | None \<Rightarrow> False) then Some ([], None)
     else
       let want = (case remaining of Some r \<Rightarrow> min batchSize r | None \<Rightarrow> batchSize);
         resume = map_option (\<lambda>k. \<lparr>edge_key = k, edge_open = True\<rparr>) resumeKey;
         effLower = (if \<not> rv \<and> resumeKey \<noteq> None then resume else lower);
         effUpper = (if rv \<and> resumeKey \<noteq> None then resume else upper)
       in if isEmptyRange effLower effUpper then Some ([], None)
       else
         let batch = fetch (boundsOf effLower effUpper rv) want
         in if int (length batch) > want then Some ([], Some (BatchTooLong (length batch) want))
         else if int (length batch) < want then Some (batch, None)
         else Option.bind (paged_loop fetch batchSize rv lower upper
                (map_option (\<lambda>r. r - int (length batch)) remaining)
                (if batch = [] then None else Some (fst (last batch))))
              (\<lambda>(rest, err). Some (batch @ rest, err)))"

definition pagedIterate :: "iterate_options \<Rightarrow> fetch_batch \<Rightarrow> int \<Rightarrow> (kv_entry list \<times> paged_error option) option" where
  "pagedIterate options fetch batchSize =
     (if batchSize < 1 then Some ([], Some (BadBatchSize batchSize))
      else case edgesOf options of
        (lower, upper) \<Rightarrow> paged_loop fetch batchSize (reverse options) lower upper (limit options) None)"

section \<open>Correctness\<close>

fun above_edge :: "edge option \<Rightarrow> key \<Rightarrow> bool" where
  "above_edge None k = True"
| "above_edge (Some e) k = (if edge_open e then compareBytes k (edge_key e) > 0 else compareBytes k (edge_key e) \<ge> 0)"

fun below_edge :: "edge option \<Rightarrow> key \<Rightarrow> bool" where
  "below_edge None k = True"
| "below_edge (Some e) k = (if edge_open e then compareBytes k (edge_key e) < 0 else compareBytes k (edge_key e) \<le> 0)"

lemma within_boundsOf: "keyWithinBounds k (boundsOf l u r) \<longleftrightarrow> above_edge l k \<and> below_edge u k"
  by (cases l; cases u) (auto simp: keyWithinBounds_def boundsOf_def)

text \<open>At most one form of each bound, as the interface intends.\<close>

definition single_bounds :: "iterate_options \<Rightarrow> bool" where
  "single_bounds opts \<longleftrightarrow> \<not> (gte opts \<noteq> None \<and> gt opts \<noteq> None) \<and> \<not> (lte opts \<noteq> None \<and> lt opts \<noteq> None)"

lemma within_edgesOf:
  "single_bounds opts \<Longrightarrow> keyWithinBounds k (boundsOf (fst (edgesOf opts)) (snd (edgesOf opts)) r) \<longleftrightarrow> keyWithinBounds k opts"
  unfolding within_boundsOf
  by (auto simp: keyWithinBounds_def edgesOf_def single_bounds_def split: option.splits)

lemma window_edgesOf:
  "single_bounds opts \<Longrightarrow> window (boundsOf (fst (edgesOf opts)) (snd (edgesOf opts)) (reverse opts)) ys = window opts ys"
  by (simp add: window_def within_edgesOf) (simp add: boundsOf_def)

lemma isEmptyRange_none:
  assumes "isEmptyRange l u"
  shows "\<not> (above_edge l k \<and> below_edge u k)"
proof -
  obtain a b where e: "l = Some a" "u = Some b" using assms by (cases l; cases u) auto
  define x where "x = compareBytes k (edge_key a)"
  define y where "y = compareBytes k (edge_key b)"
  have "compareBytes (edge_key a) (edge_key b) \<le> 0" if "0 \<le> x" "y \<le> 0"
    using key_bytes.cmp_trans [of "edge_key a" k "edge_key b"] key_bytes.cmp_le_flip [of k "edge_key a"] that
    by (simp add: x_def y_def)
  moreover have "compareBytes (edge_key a) (edge_key b) < 0" if "0 < x" "y \<le> 0"
    using key_bytes.cmp_lt_le_trans [of "edge_key a" k "edge_key b"] key_bytes.cmp_flip(1) [of k "edge_key a"] that
    by (simp add: x_def y_def)
  moreover have "compareBytes (edge_key a) (edge_key b) < 0" if "0 \<le> x" "y < 0"
    using key_bytes.cmp_le_lt_trans [of "edge_key a" k "edge_key b"] key_bytes.cmp_le_flip [of k "edge_key a"] that
    by (simp add: x_def y_def)
  ultimately show ?thesis
    using assms unfolding e by (auto simp: Let_def x_def [symmetric] y_def [symmetric] split: if_splits)
qed

lemma filter_after:
  assumes "sorted_wrt (iter_before rv) (A @ e # B)"
  shows "filter (iter_before rv e) (A @ e # B) = B"
proof -
  have "\<not> iter_before rv e x" if "x \<in> set A \<or> x = e" for x
    using that assms key_bytes.cmp_flip(1) [of "fst x" "fst e"] key_bytes.cmp_refl [of "fst e"]
    by (auto simp: iter_before_def sorted_wrt_append split: if_splits)
  then have "filter (iter_before rv e) A = []" "\<not> iter_before rv e e" by (auto simp: filter_empty_conv)
  moreover have "filter (iter_before rv e) B = B"
    using assms by (auto simp: sorted_wrt_append intro!: filter_True)
  ultimately show ?thesis by simp
qed

lemma resume_window:
  assumes "key_sorted ys" "window (boundsOf l u rv) ys = A @ e # B"
  shows "window (boundsOf (if rv then l else Some \<lparr>edge_key = fst e, edge_open = True\<rparr>)
                          (if rv then Some \<lparr>edge_key = fst e, edge_open = True\<rparr> else u) rv) ys = B"
proof -
  let ?b = "boundsOf l u rv" and ?r = "Some \<lparr>edge_key = fst e, edge_open = True\<rparr>"
  have rv: "reverse (boundsOf x y rv) = rv" for x y by (simp add: boundsOf_def)
  have "e \<in> set (window ?b ys)" using assms(2) by simp
  then have e: "above_edge l (fst e)" "below_edge u (fst e)"
    by (auto simp: window_def within_boundsOf)
  have above: "above_edge l k" if "compareBytes (fst e) k < 0" for k
    using that e(1) key_ge_trans [of "fst e" _ k] by (cases l) (auto split: if_splits simp: less_imp_le)
  have below: "below_edge u k" if "compareBytes k (fst e) < 0" for k
    using that e(2) key_le_trans [of "fst e" _ k] by (cases u) (auto split: if_splits simp: less_imp_le)
  have "window (boundsOf (if rv then l else ?r) (if rv then ?r else u) rv) ys
    = filter (iter_before rv e) (window ?b ys)"
    unfolding window_def rv filter_filter
    by (rule filter_cong [OF refl]) (use above below key_bytes.cmp_flip(1) in \<open>auto simp: within_boundsOf iter_before_def\<close>)
  also have "\<dots> = B"
    using window_sorted [OF assms(1), of ?b] unfolding assms(2) rv by (rule filter_after)
  finally show ?thesis .
qed

text \<open>A backend read as \<open>FetchBatch\<close> specifies it: the first entries of the range, all that fit.\<close>

definition fetches :: "fetch_batch \<Rightarrow> kv_map \<Rightarrow> bool" where
  "fetches fetch m \<longleftrightarrow> (\<forall>b w. limit b = None \<longrightarrow> scan_of (b\<lparr>limit := Some w\<rparr>) m (fetch b w))"

lemma fetches_window:
  assumes "fetches fetch (map_of ys)" "key_sorted ys" "limit b = None"
  shows "fetch b w = take (nat w) (window b ys)"
proof -
  have "scan_of (b\<lparr>limit := Some w\<rparr>) (map_of ys) (scan_list (b\<lparr>limit := Some w\<rparr>) ys)"
    using assms(2) by (auto simp: scan_of_def)
  then have "fetch b w = scan_list (b\<lparr>limit := Some w\<rparr>) ys"
    using assms(1,3) scan_of_unique unfolding fetches_def by blast
  then show ?thesis by (simp add: scan_list_def window_def keyWithinBounds_def)
qed

lemma take_limit_split:
  assumes "(case r of Some n \<Rightarrow> int k \<le> n | None \<Rightarrow> True)"
  shows "take k xs @ take_limit (map_option (\<lambda>n. n - int k) r) (drop k xs) = take_limit r xs"
proof (cases r)
  case (Some n)
  then have "nat n = k + nat (n - int k)" using assms by simp
  then show ?thesis using Some by (simp add: take_add)
qed simp

lemma paged_loop_correct:
  assumes "fetches fetch (map_of ys)" "key_sorted ys" "1 \<le> bs"
    and "window (boundsOf
      (if \<not> rv \<and> resume \<noteq> None then map_option (\<lambda>k. \<lparr>edge_key = k, edge_open = True\<rparr>) resume else l)
      (if rv \<and> resume \<noteq> None then map_option (\<lambda>k. \<lparr>edge_key = k, edge_open = True\<rparr>) resume else u) rv) ys = L"
  shows "paged_loop fetch bs rv l u remaining resume = Some (take_limit remaining L, None)"
  using assms(4)
proof (induction "length L" arbitrary: L remaining resume rule: less_induct)
  case less
  define el where "el = (if \<not> rv \<and> resume \<noteq> None then map_option (\<lambda>k. \<lparr>edge_key = k, edge_open = True\<rparr>) resume else l)"
  define eu where "eu = (if rv \<and> resume \<noteq> None then map_option (\<lambda>k. \<lparr>edge_key = k, edge_open = True\<rparr>) resume else u)"
  define want where "want = (case remaining of Some r \<Rightarrow> min bs r | None \<Rightarrow> bs)"
  have L: "window (boundsOf el eu rv) ys = L" using less.prems by (simp add: el_def eu_def)
  have batch: "fetch (boundsOf el eu rv) want = take (nat want) L"
    using fetches_window [OF assms(1,2), of "boundsOf el eu rv" want] L by (simp add: boundsOf_def)
  let ?stop = "case remaining of Some r \<Rightarrow> r \<le> 0 | None \<Rightarrow> False"
  let ?rest = "paged_loop fetch bs rv l u (map_option (\<lambda>r. r - int (length (take (nat want) L))) remaining)
    (if take (nat want) L = [] then None else Some (fst (last (take (nat want) L))))"
  have unfold: "paged_loop fetch bs rv l u remaining resume =
    (if ?stop then Some ([], None) else if isEmptyRange el eu then Some ([], None)
     else if int (length (take (nat want) L)) > want then Some ([], Some (BatchTooLong (length (take (nat want) L)) want))
     else if int (length (take (nat want) L)) < want then Some (take (nat want) L, None)
     else Option.bind ?rest (\<lambda>(rest, err). Some (take (nat want) L @ rest, err)))"
    by (subst paged_loop.simps) (simp only: Let_def el_def [symmetric] eu_def [symmetric] want_def [symmetric] batch)
  consider "?stop" | "\<not> ?stop" "isEmptyRange el eu" | "\<not> ?stop" "\<not> isEmptyRange el eu" "int (length L) < want"
    | "\<not> ?stop" "\<not> isEmptyRange el eu" "want \<le> int (length L)" by linarith
  then show ?case
  proof cases
    case 1
    then show ?thesis unfolding unfold by (simp split: option.splits)
  next
    case 2
    then have "L = []" using L isEmptyRange_none [of el eu] by (auto simp: window_def within_boundsOf filter_empty_conv)
    with 2 show ?thesis unfolding unfold by simp
  next
    case 3
    then have "take_limit remaining L = L" by (auto simp: want_def min_def split: option.splits if_splits)
    with 3 show ?thesis unfolding unfold by (simp add: min_def)
  next
    case 4
    then have want: "1 \<le> want" "case remaining of Some r \<Rightarrow> want \<le> r | None \<Rightarrow> True"
      using assms(3) by (auto simp: want_def split: option.splits)
    define k where "k = nat want"
    have k: "0 < k" "k \<le> length L" "want = int k" using want(1) 4(3) by (auto simp: k_def)
    define e where "e = last (take k L)"
    have ne: "take k L \<noteq> []" using k by auto
    have split: "L = butlast (take k L) @ e # drop k L"
      unfolding e_def using append_butlast_last_id [OF ne] append_take_drop_id [of k L] by (metis append_Cons append_Nil append_assoc)
    have "window (boundsOf (if rv then el else Some \<lparr>edge_key = fst e, edge_open = True\<rparr>)
        (if rv then Some \<lparr>edge_key = fst e, edge_open = True\<rparr> else eu) rv) ys = drop k L"
      by (rule resume_window [OF assms(2)]) (use L split in simp)
    then have "paged_loop fetch bs rv l u (map_option (\<lambda>r. r - int k) remaining) (Some (fst e))
      = Some (take_limit (map_option (\<lambda>r. r - int k) remaining) (drop k L), None)"
      by (intro less.hyps) (use k in \<open>auto simp: el_def eu_def split: if_splits\<close>)
    moreover have "take k L @ take_limit (map_option (\<lambda>r. r - int k) remaining) (drop k L) = take_limit remaining L"
      by (rule take_limit_split) (use want(2) k(3) in \<open>simp split: option.splits\<close>)
    ultimately show ?thesis unfolding unfold using 4(1,2) k ne by (simp add: e_def)
  qed
qed

text \<open>The in-memory store read batch by batch.\<close>

definition mem_fetch :: "mem_store \<Rightarrow> fetch_batch" where
  "mem_fetch s b w = projr (mem_iterate s (b\<lparr>limit := Some w\<rparr>))"

lemma mem_fetches: "mem_opened s \<Longrightarrow> fetches (mem_fetch s) (mem_contents s)"
  unfolding fetches_def mem_fetch_def using mem_iterate_scan [of s] by (metis sum.sel(2))

text \<open>
  C16. Over any backend that answers a bounded range read with the first entries of the range,
  the paged scan ends without an error and yields exactly the entries a direct scan of the
  backend's contents yields: none twice, none skipped, in order, forward or reverse, cut at
  the limit, whatever the batch size.
\<close>

theorem pagedIterate_correct:
  assumes "fetches fetch m" "single_bounds opts" "1 \<le> bs"
  shows "\<exists>xs. pagedIterate opts fetch bs = Some (xs, None) \<and> scan_of opts m xs"
proof -
  obtain ys where ys: "key_sorted ys" "map_of ys = m"
    using assms(1) unfolding fetches_def scan_of_def by (metis iterate_options.select_convs(6))
  have "paged_loop fetch bs (reverse opts) (fst (edgesOf opts)) (snd (edgesOf opts)) (limit opts) None
    = Some (take_limit (limit opts) (window opts ys), None)"
    by (rule paged_loop_correct) (use assms ys in \<open>simp_all add: window_edgesOf\<close>)
  then show ?thesis
    using ys assms(3) by (auto simp: pagedIterate_def scan_of_def scan_list_def split: prod.splits)
qed

theorem pagedIterate_correct_witness:
  "\<exists>s. s = \<lparr>mem_data = [(bytesToHex [2], [2], [20]), (bytesToHex [1], [1], [10])], mem_closed = False\<rparr> \<and>
     (\<exists>xs. pagedIterate \<lparr>gte = Some [1], gt = None, lte = None, lt = None, reverse = True, limit = Some 5\<rparr> (mem_fetch s) 1
        = Some (xs, None) \<and>
      scan_of \<lparr>gte = Some [1], gt = None, lte = None, lt = None, reverse = True, limit = Some 5\<rparr> (mem_contents s) xs)"
  by (rule exI, rule conjI, rule refl, rule pagedIterate_correct, rule mem_fetches)
    (simp_all add: mem_opened_def hex_keyed_def single_bounds_def)

end
