(* ===== verification/Cached_Store.thy ===== *)
theory Cached_Store
  imports Kv_Store
begin

text \<open>
  The read-through LRU cache of quereus-store/src/common/cached-kv-store.ts over any store that
  meets the key-value contract. The recency list is the doubly linked list of the source: each
  node of the map carries the keys of its neighbours, since a node is determined by its key.
  A pointer always names a node of the map; the branch for one that does not is never taken.
\<close>

record lru_node =
  node_value :: "val option"
  node_size :: int
  node_prev :: "js_string option"
  node_next :: "js_string option"

record 's cached_store =
  cs_store :: 's
  cs_maxEntries :: int
  cs_maxBytes :: "int option"
  cs_enabled :: bool
  cs_head :: "js_string option"
  cs_tail :: "js_string option"
  cs_map :: "(js_string \<times> lru_node) list"
  cs_totalBytes :: int

record cache_options =
  maxEntries :: "int option"
  maxBytes :: "int option"
  enabled :: "bool option"

definition new_cached_store :: "'s \<Rightarrow> cache_options \<Rightarrow> 's cached_store" where
  "new_cached_store s options = \<lparr>cs_store = s,
     cs_maxEntries = (case maxEntries options of Some n \<Rightarrow> n | None \<Rightarrow> 1000),
     cs_maxBytes = maxBytes options,
     cs_enabled = (case enabled options of Some b \<Rightarrow> b | None \<Rightarrow> True),
     cs_head = None, cs_tail = None, cs_map = [], cs_totalBytes = 0\<rparr>"

definition getUnderlying :: "'s cached_store \<Rightarrow> 's" where
  "getUnderlying c = cs_store c"

section \<open>The recency list\<close>

definition upd_node :: "js_string \<Rightarrow> (lru_node \<Rightarrow> lru_node) \<Rightarrow> 's cached_store \<Rightarrow> 's cached_store" where
  "upd_node h f c = c\<lparr>cs_map := map (\<lambda>(k, n). (k, if k = h then f n else n)) (cs_map c)\<rparr>"

definition prependNode :: "js_string \<Rightarrow> 's cached_store \<Rightarrow> 's cached_store" where
  "prependNode h c =
     (let c1 = upd_node h (\<lambda>n. n\<lparr>node_prev := None, node_next := cs_head c\<rparr>) c;
        c2 = (case cs_head c of Some h' \<Rightarrow> upd_node h' (\<lambda>n. n\<lparr>node_prev := Some h\<rparr>) c1 | None \<Rightarrow> c1);
        c3 = c2\<lparr>cs_head := Some h\<rparr>
      in if cs_tail c3 = None then c3\<lparr>cs_tail := Some h\<rparr> else c3)"

definition unlinkNode :: "js_string \<Rightarrow> 's cached_store \<Rightarrow> 's cached_store" where
  "unlinkNode h c = (case map_of (cs_map c) h of
     None \<Rightarrow> c
   | Some node \<Rightarrow>
       (let c1 = (case node_prev node of
                Some p \<Rightarrow> upd_node p (\<lambda>n. n\<lparr>node_next := node_next node\<rparr>) c
              | None \<Rightarrow> c\<lparr>cs_head := node_next node\<rparr>);
          c2 = (case node_next node of
                Some q \<Rightarrow> upd_node q (\<lambda>n. n\<lparr>node_prev := node_prev node\<rparr>) c1
              | None \<Rightarrow> c1\<lparr>cs_tail := node_prev node\<rparr>)
        in upd_node h (\<lambda>n. n\<lparr>node_prev := None, node_next := None\<rparr>) c2))"

definition moveToHead :: "js_string \<Rightarrow> 's cached_store \<Rightarrow> 's cached_store" where
  "moveToHead h c = (if cs_head c = Some h then c else prependNode h (unlinkNode h c))"

definition over_limit :: "'s cached_store \<Rightarrow> bool" where
  "over_limit c \<longleftrightarrow> int (length (cs_map c)) > cs_maxEntries c \<or>
     (case cs_maxBytes c of Some b \<Rightarrow> cs_totalBytes c > b | None \<Rightarrow> False)"

definition drop_node :: "js_string \<Rightarrow> lru_node \<Rightarrow> 's cached_store \<Rightarrow> 's cached_store" where
  "drop_node h node c = (let c' = unlinkNode h c
     in c'\<lparr>cs_map := AList.delete h (cs_map c'), cs_totalBytes := cs_totalBytes c' - node_size node\<rparr>)"

lemma upd_node_simps [simp]:
  "cs_store (upd_node h f c) = cs_store c" "cs_maxEntries (upd_node h f c) = cs_maxEntries c"
  "cs_maxBytes (upd_node h f c) = cs_maxBytes c" "cs_enabled (upd_node h f c) = cs_enabled c"
  "cs_head (upd_node h f c) = cs_head c" "cs_tail (upd_node h f c) = cs_tail c"
  "cs_totalBytes (upd_node h f c) = cs_totalBytes c" "length (cs_map (upd_node h f c)) = length (cs_map c)"
  "map fst (cs_map (upd_node h f c)) = map fst (cs_map c)"
  by (simp_all add: upd_node_def case_prod_beta comp_def)

lemma unlinkNode_simps [simp]:
  "cs_store (unlinkNode h c) = cs_store c" "cs_maxEntries (unlinkNode h c) = cs_maxEntries c"
  "cs_maxBytes (unlinkNode h c) = cs_maxBytes c" "cs_enabled (unlinkNode h c) = cs_enabled c"
  "cs_totalBytes (unlinkNode h c) = cs_totalBytes c" "map fst (cs_map (unlinkNode h c)) = map fst (cs_map c)"
  by (simp_all add: unlinkNode_def Let_def split: option.splits)

lemma prependNode_simps [simp]:
  "cs_store (prependNode h c) = cs_store c" "cs_maxEntries (prependNode h c) = cs_maxEntries c"
  "cs_maxBytes (prependNode h c) = cs_maxBytes c" "cs_enabled (prependNode h c) = cs_enabled c"
  "cs_totalBytes (prependNode h c) = cs_totalBytes c" "map fst (cs_map (prependNode h c)) = map fst (cs_map c)"
  by (simp_all add: prependNode_def Let_def split: option.splits)

lemma length_cs_map_unlink [simp]: "length (cs_map (unlinkNode h c)) = length (cs_map c)"
  using unlinkNode_simps(6) [of h c] by (metis length_map)

lemma length_delete_less: "map_of xs k = Some n \<Longrightarrow> length (AList.delete k xs) < length xs"
  by (induction xs) (auto simp: AList.delete_eq intro: le_imp_less_Suc split: if_splits)

function evict :: "'s cached_store \<Rightarrow> 's cached_store" where
  "evict c = (if over_limit c then
      (case cs_tail c of
         None \<Rightarrow> c
       | Some t \<Rightarrow> (case map_of (cs_map c) t of None \<Rightarrow> c | Some node \<Rightarrow> evict (drop_node t node c)))
     else c)"
  by pat_completeness auto
termination
proof (relation "measure (\<lambda>c. length (cs_map c))")
  fix c :: "'s cached_store" and t node
  assume "map_of (cs_map c) t = Some node"
  then have "t \<in> set (map fst (cs_map (unlinkNode t c)))" by (simp add: map_of_SomeD rev_image_eqI) (metis domI dom_map_of_conv_image_fst)
  then obtain n where "map_of (cs_map (unlinkNode t c)) t = Some n"
    by (metis list.set_map map_of_eq_None_iff not_None_eq)
  from length_delete_less [OF this]
  show "(drop_node t node c, c) \<in> measure (\<lambda>c. length (cs_map c))" by (simp add: drop_node_def Let_def)
qed simp

declare evict.simps [simp del]

definition addEntry :: "js_string \<Rightarrow> val option \<Rightarrow> int \<Rightarrow> 's cached_store \<Rightarrow> 's cached_store" where
  "addEntry hex v sz c = (case map_of (cs_map c) hex of
     Some existing \<Rightarrow>
       (let c1 = c\<lparr>cs_totalBytes := cs_totalBytes c - node_size existing\<rparr>;
          c2 = upd_node hex (\<lambda>n. n\<lparr>node_value := v, node_size := sz\<rparr>) c1;
          c3 = c2\<lparr>cs_totalBytes := cs_totalBytes c2 + sz\<rparr>
        in moveToHead hex c3)
   | None \<Rightarrow>
       (let c1 = c\<lparr>cs_map := AList.update hex
              \<lparr>node_value = v, node_size = sz, node_prev = None, node_next = None\<rparr> (cs_map c)\<rparr>;
          c2 = c1\<lparr>cs_totalBytes := cs_totalBytes c1 + sz\<rparr>
        in evict (prependNode hex c2)))"

definition removeEntry :: "js_string \<Rightarrow> 's cached_store \<Rightarrow> 's cached_store" where
  "removeEntry hex c = (case map_of (cs_map c) hex of
     None \<Rightarrow> c
   | Some node \<Rightarrow> drop_node hex node c)"

definition invalidate :: "key \<Rightarrow> 's cached_store \<Rightarrow> 's cached_store" where
  "invalidate k c = removeEntry (bytesToHex k) c"

definition invalidateAll :: "'s cached_store \<Rightarrow> 's cached_store" where
  "invalidateAll c = c\<lparr>cs_map := [], cs_head := None, cs_tail := None, cs_totalBytes := 0\<rparr>"

section \<open>Operations\<close>

definition with_store :: "'s cached_store \<Rightarrow> kv_error + 'a \<times> 's \<Rightarrow> kv_error + 'a \<times> 's cached_store" where
  "with_store c r = (case r of Inl e \<Rightarrow> Inl e | Inr (v, s) \<Rightarrow> Inr (v, c\<lparr>cs_store := s\<rparr>))"

definition entry_size :: "key \<Rightarrow> val option \<Rightarrow> int" where
  "entry_size k v = int (length k) + (case v of Some b \<Rightarrow> int (length b) | None \<Rightarrow> 0)"

text \<open>
  A miss is two steps with an \<open>await\<close> between them: the read of the underlying store, and the
  insertion of what it returned.
\<close>

definition get_miss_read :: "('s, 'x) kv_ops_scheme \<Rightarrow> 's cached_store \<Rightarrow> key \<Rightarrow> kv_error + val option \<times> 's cached_store" where
  "get_miss_read K c k = with_store c (op_get K (cs_store c) k)"

definition get_miss_fill :: "key \<Rightarrow> val option \<Rightarrow> 's cached_store \<Rightarrow> 's cached_store" where
  "get_miss_fill k v c = addEntry (bytesToHex k) v (entry_size k v) c"

definition cached_get :: "('s, 'x) kv_ops_scheme \<Rightarrow> 's cached_store \<Rightarrow> key \<Rightarrow> kv_error + val option \<times> 's cached_store" where
  "cached_get K c k =
     (if \<not> cs_enabled c then with_store c (op_get K (cs_store c) k)
      else case map_of (cs_map c) (bytesToHex k) of
        Some node \<Rightarrow> Inr (node_value node, moveToHead (bytesToHex k) c)
      | None \<Rightarrow> (case get_miss_read K c k of
          Inl e \<Rightarrow> Inl e
        | Inr (v, c') \<Rightarrow> Inr (v, get_miss_fill k v c')))"

definition cached_has :: "('s, 'x) kv_ops_scheme \<Rightarrow> 's cached_store \<Rightarrow> key \<Rightarrow> kv_error + bool \<times> 's cached_store" where
  "cached_has K c k =
     (if \<not> cs_enabled c then with_store c (op_has K (cs_store c) k)
      else case map_of (cs_map c) (bytesToHex k) of
        Some node \<Rightarrow> Inr (node_value node \<noteq> None, moveToHead (bytesToHex k) c)
      | None \<Rightarrow> (case get_miss_read K c k of
          Inl e \<Rightarrow> Inl e
        | Inr (v, c') \<Rightarrow> Inr (v \<noteq> None, get_miss_fill k v c')))"

fun getMany_scan :: "nat \<Rightarrow> key list \<Rightarrow> 's cached_store \<Rightarrow> val option option list \<times> nat list \<times> key list \<times> 's cached_store" where
  "getMany_scan i [] c = ([], [], [], c)"
| "getMany_scan i (k # ks) c = (case map_of (cs_map c) (bytesToHex k) of
     Some node \<Rightarrow> (case getMany_scan (Suc i) ks (moveToHead (bytesToHex k) c) of
       (out, ps, ms, c') \<Rightarrow> (Some (node_value node) # out, ps, ms, c'))
   | None \<Rightarrow> (case getMany_scan (Suc i) ks c of
       (out, ps, ms, c') \<Rightarrow> (None # out, i # ps, k # ms, c')))"

fun getMany_fill :: "nat list \<Rightarrow> key list \<Rightarrow> val option list \<Rightarrow> val option option list \<Rightarrow> 's cached_store \<Rightarrow> val option option list \<times> 's cached_store" where
  "getMany_fill (p # ps) (k # ks) (v # vs) out c = getMany_fill ps ks vs (out[p := Some v]) (get_miss_fill k v c)"
| "getMany_fill ps ks vs out c = (out, c)"

definition cached_getMany :: "('s, 'x) kv_ops_scheme \<Rightarrow> 's cached_store \<Rightarrow> key list \<Rightarrow> kv_error + val option list \<times> 's cached_store" where
  "cached_getMany K c ks =
     (if \<not> cs_enabled c then with_store c (op_getMany K (cs_store c) ks)
      else case getMany_scan 0 ks c of (out, ps, ms, c1) \<Rightarrow>
        if ms = [] then Inr (map the out, c1)
        else case with_store c1 (op_getMany K (cs_store c1) ms) of
          Inl e \<Rightarrow> Inl e
        | Inr (vs, c2) \<Rightarrow> (case getMany_fill ps ms vs out c2 of (out', c3) \<Rightarrow> Inr (map the out', c3)))"

definition cache_set :: "key \<Rightarrow> val option \<Rightarrow> 's cached_store \<Rightarrow> 's cached_store" where
  "cache_set k v c = (case map_of (cs_map c) (bytesToHex k) of
     Some existing \<Rightarrow>
       (let c1 = c\<lparr>cs_totalBytes := cs_totalBytes c - node_size existing\<rparr>;
          c2 = upd_node (bytesToHex k) (\<lambda>n. n\<lparr>node_value := v, node_size := entry_size k v\<rparr>) c1;
          c3 = c2\<lparr>cs_totalBytes := cs_totalBytes c2 + entry_size k v\<rparr>
        in moveToHead (bytesToHex k) c3)
   | None \<Rightarrow> addEntry (bytesToHex k) v (entry_size k v) c)"

definition cached_put :: "('s, 'x) kv_ops_scheme \<Rightarrow> 's cached_store \<Rightarrow> key \<Rightarrow> val \<Rightarrow> kv_error + 's cached_store" where
  "cached_put K c k v = (case op_put K (cs_store c) k v of
     Inl e \<Rightarrow> Inl e
   | Inr s \<Rightarrow> (let c' = c\<lparr>cs_store := s\<rparr> in
       if \<not> cs_enabled c then Inr c' else Inr (cache_set k (Some v) c')))"

definition cached_delete :: "('s, 'x) kv_ops_scheme \<Rightarrow> 's cached_store \<Rightarrow> key \<Rightarrow> kv_error + 's cached_store" where
  "cached_delete K c k = (case op_delete K (cs_store c) k of
     Inl e \<Rightarrow> Inl e
   | Inr s \<Rightarrow> (let c' = c\<lparr>cs_store := s\<rparr> in
       if \<not> cs_enabled c then Inr c' else Inr (cache_set k None c')))"

definition cached_iterate :: "('s, 'x) kv_ops_scheme \<Rightarrow> 's cached_store \<Rightarrow> iterate_options \<Rightarrow> kv_error + kv_entry list" where
  "cached_iterate K c opts = op_iterate K (cs_store c) opts"

definition cached_write :: "('s, 'x) kv_ops_scheme \<Rightarrow> 's cached_store \<Rightarrow> batch_op list \<Rightarrow> kv_error + 's cached_store" where
  "cached_write K c ops = (case op_write K (cs_store c) ops of
     Inl e \<Rightarrow> Inl e
   | Inr s \<Rightarrow> Inr (fold (\<lambda>op. invalidate (op_key op)) ops (c\<lparr>cs_store := s\<rparr>)))"

definition cached_close :: "('s, 'x) kv_ops_scheme \<Rightarrow> 's cached_store \<Rightarrow> 's cached_store" where
  "cached_close K c = (invalidateAll c)\<lparr>cs_store := op_close K (cs_store c)\<rparr>"

definition cached_approximateCount :: "('s, 'x) kv_ops_scheme \<Rightarrow> 's cached_store \<Rightarrow> iterate_options option \<Rightarrow> kv_error + nat" where
  "cached_approximateCount K c options = op_approximateCount K (cs_store c) options"

definition cached_ops :: "('s, 'x) kv_ops_scheme \<Rightarrow> 's cached_store kv_ops" where
  "cached_ops K = \<lparr>op_get = cached_get K, op_getMany = cached_getMany K, op_put = cached_put K,
     op_delete = cached_delete K, op_has = cached_has K, op_iterate = cached_iterate K,
     op_write = cached_write K, op_close = cached_close K, op_approximateCount = cached_approximateCount K\<rparr>"

section \<open>The list as a sequence of keys\<close>

text \<open>
  \<open>dseg m p ks q\<close>: the nodes \<open>ks\<close> form a doubly linked segment of \<open>m\<close> entered from \<open>p\<close> and
  left to \<open>q\<close>.
\<close>

fun first_of :: "'a list \<Rightarrow> 'a option \<Rightarrow> 'a option" where
  "first_of [] q = q"
| "first_of (x # xs) q = Some x"

definition last_of :: "'a list \<Rightarrow> 'a option \<Rightarrow> 'a option" where
  "last_of xs p = first_of (rev xs) p"

lemma last_of_simps [simp]: "last_of [] p = p" "last_of (xs @ [x]) p = Some x" "last_of (x # xs) p = last_of xs (Some x)"
proof -
  show "last_of (x # xs) p = last_of xs (Some x)" by (cases "rev xs") (simp_all add: last_of_def)
qed (simp_all add: last_of_def)

lemma last_of_append: "last_of (xs @ ys) p = last_of ys (last_of xs p)"
  by (induction xs arbitrary: p) simp_all

lemma first_of_append: "first_of (xs @ ys) q = first_of xs (first_of ys q)"
  by (cases xs) simp_all

fun dseg :: "(js_string \<rightharpoonup> lru_node) \<Rightarrow> js_string option \<Rightarrow> js_string list \<Rightarrow> js_string option \<Rightarrow> bool" where
  "dseg m p [] q = True"
| "dseg m p (k # ks) q = (case m k of None \<Rightarrow> False
     | Some n \<Rightarrow> node_prev n = p \<and> node_next n = first_of ks q \<and> dseg m (Some k) ks q)"

lemma dseg_append: "dseg m p (xs @ ys) q \<longleftrightarrow> dseg m p xs (first_of ys q) \<and> dseg m (last_of xs p) ys q"
  by (induction xs arbitrary: p) (auto simp: first_of_append split: option.splits)

lemma dseg_frame: "(\<And>k. k \<in> set ks \<Longrightarrow> m k = m' k) \<Longrightarrow> dseg m p ks q = dseg m' p ks q"
  by (induction ks arbitrary: p) (auto split: option.splits)

lemma dseg_in: "dseg m p ks q \<Longrightarrow> k \<in> set ks \<Longrightarrow> m k \<noteq> None"
  by (induction ks arbitrary: p) (auto split: option.splits)

definition upd :: "js_string \<Rightarrow> (lru_node \<Rightarrow> lru_node) \<Rightarrow> (js_string \<rightharpoonup> lru_node) \<Rightarrow> (js_string \<rightharpoonup> lru_node)" where
  "upd h f m = m(h := map_option f (m h))"

lemma upd_simps: "upd h f m h = map_option f (m h)" "k \<noteq> h \<Longrightarrow> upd h f m k = m k" "(upd h f m k = None) = (m k = None)"
  by (simp_all add: upd_def)

lemma map_of_upd_node: "map_of (cs_map (upd_node h f c)) = upd h f (map_of (cs_map c))"
proof
  fix k
  have "map_of (map (\<lambda>(k, n). (k, if k = h then f n else n)) xs) k = upd h f (map_of xs) k" for xs
    by (induction xs) (auto simp: upd_def)
  then show "map_of (cs_map (upd_node h f c)) k = upd h f (map_of (cs_map c)) k" by (simp add: upd_node_def)
qed

lemma dseg_upd_other: "h \<notin> set ks \<Longrightarrow> dseg (upd h f m) p ks q = dseg m p ks q"
  by (rule dseg_frame) (auto simp: upd_def)

lemma dseg_set_prev:
  "dseg m p (x # xs) q \<Longrightarrow> x \<notin> set xs \<Longrightarrow> dseg (upd x (\<lambda>n. n\<lparr>node_prev := p'\<rparr>) m) p' (x # xs) q"
  by (auto simp: dseg_upd_other upd_simps split: option.splits)

lemma dseg_set_next:
  "dseg m p (xs @ [x]) q \<Longrightarrow> x \<notin> set xs \<Longrightarrow> dseg (upd x (\<lambda>n. n\<lparr>node_next := q'\<rparr>) m) p (xs @ [x]) q'"
  by (auto simp: dseg_append dseg_upd_other upd_simps split: option.splits)

definition linked :: "'s cached_store \<Rightarrow> js_string list \<Rightarrow> bool" where
  "linked c ks \<longleftrightarrow> distinct ks \<and> cs_head c = first_of ks None \<and> cs_tail c = last_of ks None \<and>
     dseg (map_of (cs_map c)) None ks None"

lemma unlink_linked:
  assumes "linked c (xs @ k # ys)"
  shows "linked (unlinkNode k c) (xs @ ys)"
proof -
  define m where "m = map_of (cs_map c)"
  have dist: "distinct (xs @ k # ys)" and seg: "dseg m None xs (Some k)" "dseg m (last_of xs None) (k # ys) None"
    and ends: "cs_head c = first_of (xs @ k # ys) None" "cs_tail c = last_of (xs @ k # ys) None"
    using assms by (auto simp: linked_def m_def dseg_append)
  then obtain n where n: "m k = Some n" "node_prev n = last_of xs None" "node_next n = first_of ys None"
    and seg': "dseg m (Some k) ys None" by (auto split: option.splits)
  define m1 where "m1 = (case node_prev n of Some p \<Rightarrow> upd p (\<lambda>x. x\<lparr>node_next := node_next n\<rparr>) m | None \<Rightarrow> m)"
  define m2 where "m2 = (case node_next n of Some q \<Rightarrow> upd q (\<lambda>x. x\<lparr>node_prev := node_prev n\<rparr>) m1 | None \<Rightarrow> m1)"
  have left: "dseg m1 None xs (first_of ys None)" and keep: "dseg m1 (Some k) ys None"
  proof -
    have "dseg m1 None xs (first_of ys None) \<and> dseg m1 (Some k) ys None"
    proof (cases xs rule: rev_cases)
      case Nil
      then show ?thesis using n seg' by (simp add: m1_def)
    next
      case (snoc zs p)
      then have "m1 = upd p (\<lambda>x. x\<lparr>node_next := first_of ys None\<rparr>) m" using n by (simp add: m1_def)
      then show ?thesis
        using dseg_set_next [of m None zs p] seg(1) seg' snoc dist by (simp add: dseg_upd_other)
    qed
    then show "dseg m1 None xs (first_of ys None)" "dseg m1 (Some k) ys None" by simp_all
  qed
  have "dseg m2 None xs (first_of ys None) \<and> dseg m2 (last_of xs None) ys None"
  proof (cases ys)
    case Nil
    then show ?thesis using n left by (simp add: m2_def)
  next
    case (Cons q zs)
    then have "m2 = upd q (\<lambda>x. x\<lparr>node_prev := last_of xs None\<rparr>) m1" using n by (simp add: m2_def)
    then show ?thesis
      using dseg_set_prev [of m1 "Some k" q zs None] left keep Cons dist by (simp add: dseg_upd_other)
  qed
  then have seg2: "dseg (upd k f m2) None (xs @ ys) None" for f
    using dist by (simp add: dseg_append dseg_upd_other)
  have "map_of (cs_map (unlinkNode k c)) = upd k (\<lambda>n. n\<lparr>node_prev := None, node_next := None\<rparr>) m2"
    using n(1) unfolding unlinkNode_def m_def
    by (simp add: Let_def m2_def m1_def map_of_upd_node m_def split: option.splits)
  moreover have "cs_head (unlinkNode k c) = first_of (xs @ ys) None" "cs_tail (unlinkNode k c) = last_of (xs @ ys) None"
    using n ends unfolding unlinkNode_def m_def
    by (cases xs rule: rev_cases; cases ys; simp add: Let_def first_of_append last_of_append)+
  ultimately show ?thesis using dist seg2 by (simp add: linked_def)
qed

lemma prepend_linked:
  assumes "linked c ks" "k \<notin> set ks" "map_of (cs_map c) k \<noteq> None"
  shows "linked (prependNode k c) (k # ks)"
proof (cases ks)
  case Nil
  then show ?thesis using assms
    by (auto simp: linked_def prependNode_def Let_def map_of_upd_node upd_simps split: option.splits)
next
  case (Cons h zs)
  have "map_of (cs_map (prependNode k c)) = upd h (\<lambda>n. n\<lparr>node_prev := Some k\<rparr>)
      (upd k (\<lambda>n. n\<lparr>node_prev := None, node_next := Some h\<rparr>) (map_of (cs_map c)))"
    using assms(1) Cons by (simp add: linked_def prependNode_def Let_def map_of_upd_node)
  moreover have "dseg (upd k (\<lambda>n. n\<lparr>node_prev := None, node_next := Some h\<rparr>) (map_of (cs_map c))) None (h # zs) None"
    using assms Cons by (subst dseg_upd_other) (auto simp: linked_def)
  then have "dseg (upd h (\<lambda>n. n\<lparr>node_prev := Some k\<rparr>)
      (upd k (\<lambda>n. n\<lparr>node_prev := None, node_next := Some h\<rparr>) (map_of (cs_map c)))) (Some k) (h # zs) None"
    using assms(1) Cons by (intro dseg_set_prev) (auto simp: linked_def)
  moreover have "last_of zs (Some h) \<noteq> None" by (induction zs arbitrary: h) simp_all
  then have "cs_head (prependNode k c) = Some k" "cs_tail (prependNode k c) = cs_tail c"
    using assms(1) Cons by (auto simp: prependNode_def Let_def linked_def split: option.splits)
  ultimately show ?thesis
    using assms Cons by (auto simp: linked_def upd_simps)
qed

text \<open>What the cache holds, apart from the links.\<close>

definition cached_data :: "'s cached_store \<Rightarrow> (js_string \<times> val option \<times> int) list" where
  "cached_data c = map (\<lambda>(k, n). (k, node_value n, node_size n)) (cs_map c)"

lemma cached_data_upd: "(\<And>n. node_value (f n) = node_value n \<and> node_size (f n) = node_size n) \<Longrightarrow> cached_data (upd_node h f c) = cached_data c"
  by (auto simp: cached_data_def upd_node_def)

lemma cached_data_links [simp]:
  "cached_data (prependNode h c) = cached_data c" "cached_data (unlinkNode h c) = cached_data c"
  "cached_data (moveToHead h c) = cached_data c"
proof -
  have fields: "cached_data (c\<lparr>cs_head := a\<rparr>) = cached_data c" "cached_data (c\<lparr>cs_tail := a\<rparr>) = cached_data c" for a and c :: "'a cached_store"
    by (simp_all add: cached_data_def)
  show 1: "cached_data (prependNode h c) = cached_data c" for c :: "'a cached_store"
    by (simp add: prependNode_def Let_def fields cached_data_upd split: option.splits)
  show 2: "cached_data (unlinkNode h c) = cached_data c" for c :: "'a cached_store"
    by (simp add: unlinkNode_def Let_def fields cached_data_upd split: option.splits)
  show "cached_data (moveToHead h c) = cached_data c" by (simp add: moveToHead_def 1 2)
qed

definition lru_repr :: "'s cached_store \<Rightarrow> js_string list \<Rightarrow> bool" where
  "lru_repr c ks \<longleftrightarrow> linked c ks \<and> distinct (map fst (cached_data c)) \<and> set ks = fst ` set (cached_data c) \<and>
     cs_totalBytes c = sum_list (map (snd \<circ> snd) (cached_data c))"

definition same_config :: "'s cached_store \<Rightarrow> 's cached_store \<Rightarrow> bool" where
  "same_config c c' \<longleftrightarrow> cs_store c' = cs_store c \<and> cs_maxEntries c' = cs_maxEntries c \<and>
     cs_maxBytes c' = cs_maxBytes c \<and> cs_enabled c' = cs_enabled c"

lemma same_config_links [simp]: "same_config c (moveToHead h c)" "same_config c (unlinkNode h c)" "same_config c c"
  by (simp_all add: same_config_def moveToHead_def)

lemma same_config_trans: "same_config a b \<Longrightarrow> same_config b c \<Longrightarrow> same_config a c"
  by (simp add: same_config_def)

lemma length_cached_data [simp]: "length (cached_data c) = length (cs_map c)"
  by (simp add: cached_data_def)

lemma keys_cached_data: "map fst (cached_data c) = map fst (cs_map c)"
  by (simp add: cached_data_def case_prod_beta comp_def)

lemma repr_lookup: "lru_repr c ks \<Longrightarrow> map_of (cs_map c) h \<noteq> None \<longleftrightarrow> h \<in> set ks"
  by (metis lru_repr_def keys_cached_data list.set_map map_of_eq_None_iff)

lemma lookup_data: "map_of (cs_map c) h = Some n \<Longrightarrow> (h, node_value n, node_size n) \<in> set (cached_data c)"
  unfolding cached_data_def by (force dest: map_of_SomeD)

lemma data_lookup: "(h, v, z) \<in> set (cached_data c) \<Longrightarrow> \<exists>n. map_of (cs_map c) h = Some n"
  by (auto simp: cached_data_def) (metis map_of_eq_None_iff not_None_eq fst_conv image_eqI)

lemma totalBytes_links [simp]: "cs_totalBytes (moveToHead h c) = cs_totalBytes c"
  by (simp add: moveToHead_def)

lemma moveToHead_repr:
  assumes "lru_repr c ks" "h \<in> set ks"
  shows "lru_repr (moveToHead h c) (h # remove1 h ks)"
proof -
  obtain xs ys where ks: "ks = xs @ h # ys" "h \<notin> set xs" using assms(2) by (metis split_list_first)
  have lk: "linked c ks" and dist: "distinct ks" using assms(1) by (auto simp: lru_repr_def linked_def)
  have "linked (moveToHead h c) (h # remove1 h ks)"
  proof (cases "cs_head c = Some h")
    case True
    then have "xs = []" using lk ks by (cases xs) (auto simp: linked_def)
    with True ks lk show ?thesis by (simp add: moveToHead_def)
  next
    case False
    have "map_of (cs_map (unlinkNode h c)) h \<noteq> None"
      using repr_lookup [OF assms(1), of h] assms(2) unlinkNode_simps(6) [of h c]
      by (metis list.set_map map_of_eq_None_iff)
    then show ?thesis
      using prepend_linked [OF unlink_linked [of c xs h ys]] lk ks dist False
      by (simp add: moveToHead_def remove1_append)
  qed
  then show ?thesis using assms by (auto simp: lru_repr_def set_remove1_eq [OF dist])
qed

lemma sum_delete:
  "distinct (map fst xs) \<Longrightarrow> (h, v, z) \<in> set xs \<Longrightarrow>
   sum_list (map (snd \<circ> snd) (AList.delete h xs)) = sum_list (map (snd \<circ> snd) xs) - (z :: int)"
proof (induction xs)
  case (Cons x xs)
  show ?case
  proof (cases "fst x = h")
    case True
    then have "AList.delete h xs = xs" using Cons.prems(1)
      unfolding AList.delete_eq by (intro filter_True) (auto simp: image_iff)
    moreover have "x = (h, v, z)" using Cons.prems True by (auto simp: rev_image_eqI)
    ultimately show ?thesis by simp
  next
    case False
    then show ?thesis using Cons by (cases x) auto
  qed
qed simp

lemma cached_data_delete: "cached_data (c\<lparr>cs_map := AList.delete h (cs_map c), cs_totalBytes := t\<rparr>) = AList.delete h (cached_data c)"
  by (simp add: cached_data_def AList.delete_eq filter_map comp_def case_prod_unfold)

lemma drop_node_repr:
  assumes "lru_repr c ks" "map_of (cs_map c) h = Some n"
  shows "lru_repr (drop_node h n c) (remove1 h ks)" "cached_data (drop_node h n c) = AList.delete h (cached_data c)"
    "same_config c (drop_node h n c)"
proof -
  show data: "cached_data (drop_node h n c) = AList.delete h (cached_data c)"
    by (simp add: drop_node_def Let_def cached_data_delete)
  show "same_config c (drop_node h n c)" by (simp add: drop_node_def Let_def same_config_def)
  have h: "h \<in> set ks" using repr_lookup [OF assms(1)] assms(2) by force
  then obtain xs ys where ks: "ks = xs @ h # ys" "h \<notin> set xs" by (metis split_list_first)
  have lk: "linked c ks" and dist: "distinct ks" and dd: "distinct (map fst (cached_data c))"
    using assms(1) by (auto simp: lru_repr_def linked_def)
  have "linked (unlinkNode h c) (xs @ ys)" using lk ks unlink_linked by auto
  moreover have "dseg (map_of (AList.delete h (cs_map (unlinkNode h c)))) None (xs @ ys) None =
      dseg (map_of (cs_map (unlinkNode h c))) None (xs @ ys) None"
    by (rule dseg_frame) (use dist ks in \<open>auto simp: AList.delete_conv'\<close>)
  ultimately have "linked (drop_node h n c) (remove1 h ks)"
    using ks by (simp add: drop_node_def Let_def linked_def remove1_append)
  moreover have "cs_totalBytes (drop_node h n c) = sum_list (map (snd \<circ> snd) (AList.delete h (cached_data c)))"
    using sum_delete [OF dd lookup_data [OF assms(2)]] assms(1) by (simp add: drop_node_def Let_def lru_repr_def)
  moreover have "distinct (map fst (AList.delete h (cached_data c)))"
    using dd by (simp add: AList.delete_eq distinct_map_filter)
  moreover have "set (remove1 h ks) = fst ` set (AList.delete h (cached_data c))"
    using assms(1) by (force simp: set_remove1_eq [OF dist] lru_repr_def AList.delete_eq)
  ultimately show "lru_repr (drop_node h n c) (remove1 h ks)" by (simp add: lru_repr_def data)
qed

lemma remove1_last: "distinct (xs @ [x]) \<Longrightarrow> remove1 x (xs @ [x]) = xs"
  by (simp add: remove1_append)

text \<open>Eviction removes a suffix of the recency list, the least recently used entries.\<close>

lemma evict_repr:
  "lru_repr c ks \<Longrightarrow> \<exists>n. lru_repr (evict c) (take n ks) \<and>
     set (cached_data (evict c)) = {x \<in> set (cached_data c). fst x \<in> set (take n ks)} \<and>
     same_config c (evict c) \<and> (over_limit (evict c) \<longrightarrow> cs_map (evict c) = [])"
proof (induction c arbitrary: ks rule: evict.induct)
  case (1 c)
  have stay: "\<exists>n. lru_repr c (take n ks) \<and> set (cached_data c) = {x \<in> set (cached_data c). fst x \<in> set (take n ks)} \<and> same_config c c"
    using 1(2) by (intro exI [of _ "length ks"]) (auto simp: lru_repr_def)
  show ?case
  proof (cases "over_limit c")
    case False
    then have "evict c = c" by (subst evict.simps) simp
    with False stay show ?thesis by simp
  next
    case over: True
    show ?thesis
    proof (cases ks rule: rev_cases)
      case Nil
      then have "cs_tail c = None" "cs_map c = []" using 1(2) by (auto simp: lru_repr_def linked_def cached_data_def)
      moreover then have "evict c = c" by (subst evict.simps) simp
      ultimately show ?thesis using stay by simp
    next
      case (snoc xs t)
      then have tail: "cs_tail c = Some t" and dist: "distinct ks" using 1(2) by (auto simp: lru_repr_def linked_def)
      obtain n where n: "map_of (cs_map c) t = Some n" using repr_lookup [OF 1(2), of t] snoc by auto
      have step: "evict c = evict (drop_node t n c)" using over tail n by (subst evict.simps) simp
      note d = drop_node_repr [OF 1(2) n]
      have xs: "remove1 t ks = xs" using snoc dist by (simp add: remove1_last)
      obtain j where j: "lru_repr (evict (drop_node t n c)) (take j xs)"
        "set (cached_data (evict (drop_node t n c))) = {x \<in> set (cached_data (drop_node t n c)). fst x \<in> set (take j xs)}"
        "same_config (drop_node t n c) (evict (drop_node t n c))"
        "over_limit (evict (drop_node t n c)) \<longrightarrow> cs_map (evict (drop_node t n c)) = []"
        using 1(1) [OF over tail n, of xs] d(1) xs by auto
      have "take (min j (length xs)) ks = take j xs" using snoc by (simp add: min_def)
      moreover have "t \<notin> set (take j xs)" using dist snoc by (auto dest: in_set_takeD)
      then have "{x \<in> set (cached_data (drop_node t n c)). fst x \<in> set (take j xs)} = {x \<in> set (cached_data c). fst x \<in> set (take j xs)}"
        unfolding d(2) by (auto simp: AList.delete_eq)
      ultimately show ?thesis
        unfolding step using j same_config_trans [OF d(3) j(3)] by (intro exI [of _ "min j (length xs)"]) simp
    qed
  qed
qed

definition count_bounded :: "'s cached_store \<Rightarrow> bool" where
  "count_bounded c \<longleftrightarrow> int (length (cs_map c)) \<le> max 0 (cs_maxEntries c)"

lemma cached_data_set:
  "cached_data (upd_node h (\<lambda>n. n\<lparr>node_value := v, node_size := z\<rparr>) c) =
   map (\<lambda>x. if fst x = h then (h, v, z) else x) (cached_data c)"
  by (auto simp: cached_data_def upd_node_def)

lemma sum_set:
  assumes "distinct (map fst xs)" "(h, v0, z0) \<in> set xs"
  shows "sum_list (map (snd \<circ> snd) (map (\<lambda>x. if fst x = h then (h, v, z) else x) xs)) = sum_list (map (snd \<circ> snd) xs) - z0 + (z :: int)"
  using assms
proof (induction xs)
  case (Cons x xs)
  have other: "map (\<lambda>x. if fst x = h then (h, v, z) else x) xs = xs" if "h \<notin> fst ` set xs"
    using that by (intro map_idI) (auto simp: image_iff)
  show ?case
  proof (cases "fst x = h")
    case True
    then have "x = (h, v0, z0)" using Cons.prems by (auto simp: rev_image_eqI)
    then show ?thesis using Cons.prems(1) other by simp
  next
    case False
    then show ?thesis using Cons by (auto simp: comp_def)
  qed
qed simp

lemma addEntry_existing:
  assumes "lru_repr c ks" "map_of (cs_map c) h = Some n"
  shows "lru_repr (addEntry h v z c) (h # remove1 h ks)"
    "cached_data (addEntry h v z c) = map (\<lambda>x. if fst x = h then (h, v, z) else x) (cached_data c)"
    "same_config c (addEntry h v z c)" "length (cs_map (addEntry h v z c)) = length (cs_map c)"
proof -
  define c1 where "c1 = (upd_node h (\<lambda>n. n\<lparr>node_value := v, node_size := z\<rparr>) c)\<lparr>cs_totalBytes := cs_totalBytes c - node_size n + z\<rparr>"
  have eq: "addEntry h v z c = moveToHead h c1"
    using assms(2) by (simp add: addEntry_def c1_def Let_def upd_node_def)
  have data: "cached_data c1 = map (\<lambda>x. if fst x = h then (h, v, z) else x) (cached_data c)"
    unfolding cached_data_set [symmetric] by (simp add: c1_def cached_data_def)
  have h: "h \<in> set ks" using repr_lookup [OF assms(1)] assms(2) by force
  have keys: "map fst (cached_data c1) = map fst (cached_data c)"
    unfolding data map_map by (rule map_cong) auto
  have "dseg (map_of (cs_map c1)) None ks None = dseg (map_of (cs_map c)) None ks None"
  proof -
    have "dseg (upd h (\<lambda>n. n\<lparr>node_value := v, node_size := z\<rparr>) m) p xs q = dseg m p xs q" for m p xs q
    proof (induction xs arbitrary: p)
      case (Cons a xs)
      then show ?case by (cases "m a"; cases "a = h") (simp_all add: upd_simps)
    qed simp
    then show ?thesis by (simp add: c1_def map_of_upd_node)
  qed
  moreover have "cs_totalBytes c1 = sum_list (map (snd \<circ> snd) (cached_data c1))"
    using assms(1) sum_set [OF _ lookup_data [OF assms(2)], of v z] unfolding data
    by (simp add: c1_def lru_repr_def)
  ultimately have "lru_repr c1 ks"
    using assms(1) keys unfolding lru_repr_def linked_def
    by (simp add: image_set del: set_map) (simp add: c1_def)
  then show "lru_repr (addEntry h v z c) (h # remove1 h ks)" unfolding eq using h by (rule moveToHead_repr)
  show "cached_data (addEntry h v z c) = map (\<lambda>x. if fst x = h then (h, v, z) else x) (cached_data c)"
    by (simp add: eq data)
  show "same_config c (addEntry h v z c)" unfolding eq
    by (rule same_config_trans [of _ c1, OF _ same_config_links(1)]) (simp add: c1_def same_config_def)
  show "length (cs_map (addEntry h v z c)) = length (cs_map c)"
    unfolding eq length_cached_data [symmetric] by (simp add: data)
qed

lemma addEntry_hit:
  assumes "lru_repr c ks" "map_of (cs_map c) h = Some n"
  shows "\<exists>n'. map_of (cs_map (addEntry h v z c)) h = Some n' \<and> node_value n' = v"
proof -
  note e = addEntry_existing [OF assms, of v z]
  obtain n' where n': "map_of (cs_map (addEntry h v z c)) h = Some n'"
    using repr_lookup [OF e(1), of h] by auto
  then have "(h, node_value n', node_size n') \<in> set (cached_data (addEntry h v z c))" by (rule lookup_data)
  then show ?thesis using n' by (auto simp: e(2) split: if_splits)
qed

lemma update_absent: "map_of xs h = None \<Longrightarrow> AList.update h x xs = xs @ [(h, x)]"
  by (induction xs) (auto split: if_splits)

text \<open>The state in which the entry of a new key is linked in, before eviction.\<close>

definition with_entry :: "js_string \<Rightarrow> val option \<Rightarrow> int \<Rightarrow> 's cached_store \<Rightarrow> 's cached_store" where
  "with_entry h v z c = prependNode h (c\<lparr>cs_map :=
       cs_map c @ [(h, \<lparr>node_value = v, node_size = z, node_prev = None, node_next = None\<rparr>)],
     cs_totalBytes := cs_totalBytes c + z\<rparr>)"

lemma addEntry_evict: "map_of (cs_map c) h = None \<Longrightarrow> addEntry h v z c = evict (with_entry h v z c)"
  by (simp add: addEntry_def Let_def update_absent with_entry_def)

lemma with_entry_repr:
  assumes "lru_repr c ks" "map_of (cs_map c) h = None"
  shows "lru_repr (with_entry h v z c) (h # ks)" "cached_data (with_entry h v z c) = cached_data c @ [(h, v, z)]"
    "same_config c (with_entry h v z c)"
proof -
  define c1 where "c1 = c\<lparr>cs_map := cs_map c @ [(h, \<lparr>node_value = v, node_size = z, node_prev = None, node_next = None\<rparr>)],
    cs_totalBytes := cs_totalBytes c + z\<rparr>"
  have eq: "with_entry h v z c = prependNode h c1" by (simp add: with_entry_def c1_def)
  have h: "h \<notin> set ks" using repr_lookup [OF assms(1), of h] assms(2) by simp
  have data: "cached_data c1 = cached_data c @ [(h, v, z)]" by (simp add: c1_def cached_data_def)
  then show "cached_data (with_entry h v z c) = cached_data c @ [(h, v, z)]" by (simp add: eq)
  show "same_config c (with_entry h v z c)" by (simp add: eq same_config_def c1_def)
  have "dseg (map_of (cs_map c1)) None ks None = dseg (map_of (cs_map c)) None ks None"
    by (rule dseg_frame) (use h in \<open>auto simp: c1_def map_add_def split: option.splits\<close>)
  then have "linked c1 ks" using assms(1) by (simp add: lru_repr_def linked_def c1_def)
  then have "linked (prependNode h c1) (h # ks)"
    using h by (rule prepend_linked) (simp add: c1_def map_add_def split: option.splits)
  then show "lru_repr (with_entry h v z c) (h # ks)"
    unfolding eq using assms(1) h by (auto simp: lru_repr_def data) (simp add: c1_def)
qed

lemma addEntry_new:
  assumes "lru_repr c ks" "map_of (cs_map c) h = None"
  shows "\<exists>n. lru_repr (addEntry h v z c) (take n (h # ks)) \<and>
     set (cached_data (addEntry h v z c)) = {x \<in> insert (h, v, z) (set (cached_data c)). fst x \<in> set (take n (h # ks))} \<and>
     same_config c (addEntry h v z c) \<and> (over_limit (addEntry h v z c) \<longrightarrow> cs_map (addEntry h v z c) = [])"
proof -
  note w = with_entry_repr [OF assms, of v z]
  from evict_repr [OF w(1)] obtain n where n: "lru_repr (evict (with_entry h v z c)) (take n (h # ks))"
    "set (cached_data (evict (with_entry h v z c))) = {x \<in> set (cached_data (with_entry h v z c)). fst x \<in> set (take n (h # ks))}"
    "same_config (with_entry h v z c) (evict (with_entry h v z c))"
    "over_limit (evict (with_entry h v z c)) \<longrightarrow> cs_map (evict (with_entry h v z c)) = []" by blast
  then show ?thesis
    unfolding addEntry_evict [OF assms(2)] using same_config_trans [OF w(3)] by (intro exI [of _ n]) (auto simp: w(2))
qed

text \<open>An entry that fits on its own survives the eviction its insertion causes.\<close>

lemma evict_keeps_first:
  "lru_repr c (h # ks) \<Longrightarrow> (h, v, z) \<in> set (cached_data c) \<Longrightarrow> 1 \<le> cs_maxEntries c \<Longrightarrow>
   (\<And>b. cs_maxBytes c = Some b \<Longrightarrow> z \<le> b) \<Longrightarrow> (h, v, z) \<in> set (cached_data (evict c))"
proof (induction c arbitrary: ks rule: evict.induct)
  case (1 c)
  show ?case
  proof (cases "over_limit c")
    case False
    then have "evict c = c" by (subst evict.simps) simp
    then show ?thesis using 1(3) by simp
  next
    case over: True
    have dist: "distinct (h # ks)" "distinct (map fst (cached_data c))" and keys: "set (h # ks) = fst ` set (cached_data c)"
      and bytes: "cs_totalBytes c = sum_list (map (snd \<circ> snd) (cached_data c))"
      using 1(2) unfolding lru_repr_def linked_def by auto
    have "ks \<noteq> []"
    proof
      assume "ks = []"
      then have "fst ` set (cached_data c) = {h}" using keys by simp
      then have "length (cached_data c) = 1"
        using distinct_card [OF dist(2)] by simp
      then have "cached_data c = [(h, v, z)]" using 1(3) by (cases "cached_data c") auto
      then have "\<not> over_limit c"
        using 1(4,5) bytes length_cached_data [of c] by (auto simp: over_limit_def split: option.splits)
      then show False using over by simp
    qed
    then obtain xs t where ks: "ks = xs @ [t]" by (metis rev_exhaust)
    then have tail: "cs_tail c = Some t" and ht: "h \<noteq> t" using 1(2) dist(1) by (auto simp: lru_repr_def linked_def last_of_append)
    obtain n where n: "map_of (cs_map c) t = Some n" using repr_lookup [OF 1(2), of t] ks by auto
    have step: "evict c = evict (drop_node t n c)" using over tail n by (subst evict.simps) simp
    note d = drop_node_repr [OF 1(2) n]
    have "remove1 t (h # ks) = h # xs" using ks dist(1) by (auto simp: remove1_append)
    then show ?thesis unfolding step
      using 1(1) [OF over tail n, of xs] d 1(3-5) ht by (auto simp: AList.delete_eq same_config_def)
  qed
qed

section \<open>The cache meets the contract of the store it wraps\<close>

definition coherent :: "kv_map \<Rightarrow> 's cached_store \<Rightarrow> bool" where
  "coherent m c \<longleftrightarrow> (\<forall>k v z. (bytesToHex k, v, z) \<in> set (cached_data c) \<longrightarrow> v = m k)"

definition cache_inv :: "'s cached_store \<Rightarrow> bool" where
  "cache_inv c \<longleftrightarrow> (\<exists>ks. lru_repr c ks) \<and> count_bounded c"

lemma addEntry_inv:
  assumes "cache_inv c"
  shows "cache_inv (addEntry h v z c)" "same_config c (addEntry h v z c)"
    "set (cached_data (addEntry h v z c)) \<subseteq> insert (h, v, z) {x \<in> set (cached_data c). fst x \<noteq> h}"
proof -
  obtain ks where ks: "lru_repr c ks" using assms by (auto simp: cache_inv_def)
  have "cache_inv (addEntry h v z c) \<and> same_config c (addEntry h v z c) \<and>
    set (cached_data (addEntry h v z c)) \<subseteq> insert (h, v, z) {x \<in> set (cached_data c). fst x \<noteq> h}"
  proof (cases "map_of (cs_map c) h")
    case (Some n)
    note e = addEntry_existing [OF ks Some, of v z]
    then have "count_bounded (addEntry h v z c)" using assms by (simp add: cache_inv_def count_bounded_def same_config_def)
    then show ?thesis using e by (auto simp: cache_inv_def)
  next
    case None
    from addEntry_new [OF ks this, of v z] obtain n where
      e: "lru_repr (addEntry h v z c) (take n (h # ks))"
        "set (cached_data (addEntry h v z c)) \<subseteq> insert (h, v, z) (set (cached_data c))"
        "same_config c (addEntry h v z c)" "over_limit (addEntry h v z c) \<longrightarrow> cs_map (addEntry h v z c) = []"
      by blast
    have "h \<notin> fst ` set (cached_data c)" using repr_lookup [OF ks, of h] None ks by (simp add: lru_repr_def)
    moreover have "count_bounded (addEntry h v z c)" using e(4) by (auto simp: count_bounded_def over_limit_def)
    ultimately show ?thesis using e by (auto simp: cache_inv_def image_iff)
  qed
  then show "cache_inv (addEntry h v z c)" "same_config c (addEntry h v z c)"
    "set (cached_data (addEntry h v z c)) \<subseteq> insert (h, v, z) {x \<in> set (cached_data c). fst x \<noteq> h}" by blast+
qed

lemma moveToHead_inv:
  assumes "cache_inv c" "map_of (cs_map c) h \<noteq> None"
  shows "cache_inv (moveToHead h c)"
proof -
  obtain ks where ks: "lru_repr c ks" using assms by (auto simp: cache_inv_def)
  have "lru_repr (moveToHead h c) (h # remove1 h ks)"
    using moveToHead_repr [OF ks] repr_lookup [OF ks, of h] assms(2) by simp
  moreover have "count_bounded (moveToHead h c)"
    using assms(1) same_config_links(1) [of c h] unfolding cache_inv_def count_bounded_def length_cached_data [symmetric]
    by (simp add: same_config_def)
  ultimately show ?thesis by (auto simp: cache_inv_def)
qed

lemma invalidate_inv:
  assumes "cache_inv c"
  shows "cache_inv (invalidate k c)" "same_config c (invalidate k c)"
    "set (cached_data (invalidate k c)) = {x \<in> set (cached_data c). fst x \<noteq> bytesToHex k}"
proof -
  obtain ks where ks: "lru_repr c ks" using assms by (auto simp: cache_inv_def)
  let ?h = "bytesToHex k"
  have "cache_inv (invalidate k c) \<and> same_config c (invalidate k c) \<and>
    set (cached_data (invalidate k c)) = {x \<in> set (cached_data c). fst x \<noteq> ?h}"
  proof (cases "map_of (cs_map c) ?h")
    case None
    then have "?h \<notin> fst ` set (cached_data c)" using repr_lookup [OF ks, of ?h] ks by (simp add: lru_repr_def)
    with None assms show ?thesis by (auto simp: invalidate_def removeEntry_def image_iff)
  next
    case (Some n)
    note d = drop_node_repr [OF ks Some]
    have "length (cs_map (drop_node ?h n c)) \<le> length (cs_map c)"
      unfolding length_cached_data [symmetric] d(2) AList.delete_eq by (rule length_filter_le)
    then have "count_bounded (drop_node ?h n c)"
      using assms d(3) by (simp add: cache_inv_def count_bounded_def same_config_def)
    then show ?thesis using Some d by (auto simp: invalidate_def removeEntry_def cache_inv_def AList.delete_eq)
  qed
  then show "cache_inv (invalidate k c)" "same_config c (invalidate k c)"
    "set (cached_data (invalidate k c)) = {x \<in> set (cached_data c). fst x \<noteq> ?h}" by blast+
qed

lemma cache_set_addEntry: "cache_set k v c = addEntry (bytesToHex k) v (entry_size k v) c"
  by (simp add: cache_set_def addEntry_def split: option.splits)

lemma coherent_addEntry:
  assumes "cache_inv c" "coherent m c"
  shows "coherent (m(k := v)) (addEntry (bytesToHex k) v z c)"
  unfolding coherent_def
proof (intro allI impI)
  fix k' v' z'
  assume "(bytesToHex k', v', z') \<in> set (cached_data (addEntry (bytesToHex k) v z c))"
  then have "(bytesToHex k', v', z') \<in> insert (bytesToHex k, v, z) {x \<in> set (cached_data c). fst x \<noteq> bytesToHex k}"
    using addEntry_inv(3) [OF assms(1)] by blast
  then show "v' = (m(k := v)) k'" using assms(2) by (auto simp: coherent_def)
qed

lemma cached_hit: "coherent m c \<Longrightarrow> map_of (cs_map c) (bytesToHex k) = Some n \<Longrightarrow> node_value n = m k"
  unfolding coherent_def using lookup_data by blast

lemma cache_store_update [simp]:
  "cached_data (c\<lparr>cs_store := s\<rparr>) = cached_data c" "coherent m (c\<lparr>cs_store := s\<rparr>) = coherent m c"
  "cache_inv (c\<lparr>cs_store := s\<rparr>) = cache_inv c"
  by (simp_all add: coherent_def cache_inv_def lru_repr_def linked_def count_bounded_def cached_data_def)

lemma coherent_cong_data: "cached_data c' = cached_data c \<Longrightarrow> coherent m c' = coherent m c"
  by (simp add: coherent_def)

lemma invalidateAll_inv: "cache_inv (invalidateAll c)" "coherent m (invalidateAll c)" "cs_map (invalidateAll c) = []"
  by (auto simp: cache_inv_def lru_repr_def linked_def invalidateAll_def cached_data_def count_bounded_def coherent_def
      intro!: exI [of _ "[]"])

definition cached_opened :: "('s \<Rightarrow> bool) \<Rightarrow> ('s \<Rightarrow> kv_map) \<Rightarrow> 's cached_store \<Rightarrow> bool" where
  "cached_opened opened contents c \<longleftrightarrow>
     opened (cs_store c) \<and> (cs_enabled c \<longrightarrow> cache_inv c \<and> coherent (contents (cs_store c)) c)"

definition cached_closed :: "('s \<Rightarrow> bool) \<Rightarrow> 's cached_store \<Rightarrow> bool" where
  "cached_closed is_closed c \<longleftrightarrow> is_closed (cs_store c) \<and> cs_map c = []"

abbreviation cached_contents :: "('s \<Rightarrow> kv_map) \<Rightarrow> 's cached_store \<Rightarrow> kv_map" where
  "cached_contents contents c \<equiv> contents (cs_store c)"

context kv_contract
begin

abbreviation c_opened :: "'s cached_store \<Rightarrow> bool" where
  "c_opened \<equiv> cached_opened opened contents"

lemma fill_opened:
  assumes "c_opened c" "cs_enabled c" "contents (cs_store c) k = v"
  shows "c_opened (get_miss_fill k v c)" "cs_store (get_miss_fill k v c) = cs_store c" "cs_enabled (get_miss_fill k v c)"
proof -
  have inv: "cache_inv c" and coh: "coherent (contents (cs_store c)) c" using assms by (auto simp: cached_opened_def)
  note a = addEntry_inv [OF inv, of "bytesToHex k" v "entry_size k v"]
  have "coherent (contents (cs_store c)) (get_miss_fill k v c)"
    using coherent_addEntry [OF inv coh, of k v "entry_size k v"] assms(3) by (simp add: get_miss_fill_def fun_upd_idem)
  with a(1,2) assms show "c_opened (get_miss_fill k v c)" "cs_store (get_miss_fill k v c) = cs_store c"
    "cs_enabled (get_miss_fill k v c)"
    by (simp_all add: cached_opened_def get_miss_fill_def same_config_def)
qed

lemma hit_opened:
  assumes "c_opened c" "cs_enabled c" "map_of (cs_map c) (bytesToHex k) = Some n"
  shows "c_opened (moveToHead (bytesToHex k) c)" "node_value n = contents (cs_store c) k"
    "cs_store (moveToHead (bytesToHex k) c) = cs_store c" "cs_enabled (moveToHead (bytesToHex k) c)"
proof -
  have inv: "cache_inv c" and coh: "coherent (contents (cs_store c)) c" using assms by (auto simp: cached_opened_def)
  show "node_value n = contents (cs_store c) k" using cached_hit [OF coh assms(3)] .
  have same: "same_config c (moveToHead (bytesToHex k) c)" by simp
  then show "cs_store (moveToHead (bytesToHex k) c) = cs_store c" "cs_enabled (moveToHead (bytesToHex k) c)"
    using assms(2) unfolding same_config_def by simp_all
  with assms(1,3) moveToHead_inv [OF inv, of "bytesToHex k"] coh
  show "c_opened (moveToHead (bytesToHex k) c)"
    by (simp add: cached_opened_def coherent_cong_data [OF cached_data_links(3)])
qed

lemma store_opened:
  "c_opened c \<Longrightarrow> opened s \<Longrightarrow> contents s = contents (cs_store c) \<Longrightarrow> c_opened (c\<lparr>cs_store := s\<rparr>)"
  by (simp add: cached_opened_def)

lemma miss_read:
  assumes "c_opened c"
  shows "\<exists>s. get_miss_read K c k = Inr (contents (cs_store c) k, c\<lparr>cs_store := s\<rparr>) \<and> opened s \<and> contents s = contents (cs_store c)"
  using get_law [of "cs_store c" k] assms by (auto simp: get_miss_read_def with_store_def cached_opened_def)

lemma cached_get_law:
  assumes "c_opened c"
  shows "\<exists>c'. cached_get K c k = Inr (contents (cs_store c) k, c') \<and> c_opened c' \<and> contents (cs_store c') = contents (cs_store c)"
proof (cases "cs_enabled c")
  case False
  then show ?thesis using get_law [of "cs_store c" k] assms
    by (auto simp: cached_get_def with_store_def cached_opened_def)
next
  case True
  show ?thesis
  proof (cases "map_of (cs_map c) (bytesToHex k)")
    case None
    obtain s where s: "get_miss_read K c k = Inr (contents (cs_store c) k, c\<lparr>cs_store := s\<rparr>)" "opened s"
      "contents s = contents (cs_store c)" using miss_read [OF assms] by blast
    note o = store_opened [OF assms s(2,3)]
    show ?thesis using fill_opened [OF o, of k "contents (cs_store c) k"] s True None by (simp add: cached_get_def)
  next
    case (Some n)
    then show ?thesis using hit_opened [OF assms True Some] True by (simp add: cached_get_def)
  qed
qed

lemma cached_has_get:
  assumes "c_opened c" "cs_enabled c" "cached_get K c k = Inr (v, c')"
  shows "cached_has K c k = Inr (v \<noteq> None, c')"
  using assms by (auto simp: cached_has_def cached_get_def split: option.splits sum.splits)

lemma cached_has_law:
  assumes "c_opened c"
  shows "\<exists>c'. cached_has K c k = Inr (contents (cs_store c) k \<noteq> None, c') \<and> c_opened c' \<and> contents (cs_store c') = contents (cs_store c)"
proof (cases "cs_enabled c")
  case False
  then show ?thesis using has_law [of "cs_store c" k] assms
    by (auto simp: cached_has_def with_store_def cached_opened_def)
next
  case True
  then show ?thesis using cached_get_law [OF assms, of k] cached_has_get [OF assms True, of k] by blast
qed

lemma cache_set_opened:
  assumes "c_opened c" "opened s" "contents s = (contents (cs_store c))(k := v)" "cs_enabled c"
  shows "c_opened (cache_set k v (c\<lparr>cs_store := s\<rparr>))" "cs_store (cache_set k v (c\<lparr>cs_store := s\<rparr>)) = s"
proof -
  let ?c = "c\<lparr>cs_store := s\<rparr>"
  have inv: "cache_inv ?c" and coh: "coherent (contents (cs_store c)) ?c" using assms(1,4) by (auto simp: cached_opened_def)
  have same: "same_config ?c (cache_set k v ?c)" "cache_inv (cache_set k v ?c)"
    using addEntry_inv [OF inv] by (simp_all add: cache_set_addEntry)
  then show "cs_store (cache_set k v ?c) = s" by (simp add: same_config_def)
  then show "c_opened (cache_set k v ?c)"
    using same(2) assms(2,3) coherent_addEntry [OF inv coh, of k v] by (simp add: cached_opened_def cache_set_addEntry)
qed

lemma cached_put_law:
  assumes "c_opened c"
  shows "\<exists>c'. cached_put K c k v = Inr c' \<and> c_opened c' \<and> contents (cs_store c') = (contents (cs_store c))(k \<mapsto> v)"
proof -
  obtain s where s: "op_put K (cs_store c) k v = Inr s" "opened s" "contents s = (contents (cs_store c))(k \<mapsto> v)"
    using put_law [of "cs_store c" k v] assms by (auto simp: cached_opened_def)
  then show ?thesis using cache_set_opened [OF assms s(2,3)] assms
    by (cases "cs_enabled c") (simp_all add: cached_put_def cached_opened_def Let_def)
qed

lemma cached_delete_law:
  assumes "c_opened c"
  shows "\<exists>c'. cached_delete K c k = Inr c' \<and> c_opened c' \<and> contents (cs_store c') = (contents (cs_store c))(k := None)"
proof -
  obtain s where s: "op_delete K (cs_store c) k = Inr s" "opened s" "contents s = (contents (cs_store c))(k := None)"
    using delete_law [of "cs_store c" k] assms by (auto simp: cached_opened_def)
  then show ?thesis using cache_set_opened [OF assms s(2,3)] assms
    by (cases "cs_enabled c") (simp_all add: cached_delete_def cached_opened_def Let_def)
qed


lemma scan_spec:
  assumes "getMany_scan i ks c = (out, ps, ms, c')" "c_opened c" "cs_enabled c"
  shows "c_opened c' \<and> cs_enabled c' \<and> cs_store c' = cs_store c \<and> length out = length ks \<and>
    list_all2 (\<lambda>p k. i \<le> p \<and> p < i + length ks \<and> k = ks ! (p - i)) ps ms \<and>
    (\<forall>j < length ks. out ! j = Some (contents (cs_store c) (ks ! j)) \<or> i + j \<in> set ps)"
  using assms
proof (induction ks arbitrary: i c out ps ms)
  case (Cons k ks)
  have shift: "list_all2 (\<lambda>p x. i \<le> p \<and> p < i + length (k # ks) \<and> x = (k # ks) ! (p - i)) qs xs"
    if "list_all2 (\<lambda>p x. Suc i \<le> p \<and> p < Suc i + length ks \<and> x = ks ! (p - Suc i)) qs xs" for qs xs
    by (rule list_all2_mono [OF that]) (auto simp: nth_Cons' Suc_diff_le)
  show ?case
  proof (cases "map_of (cs_map c) (bytesToHex k)")
    case (Some n)
    obtain out1 where r: "getMany_scan (Suc i) ks (moveToHead (bytesToHex k) c) = (out1, ps, ms, c')"
      "out = Some (node_value n) # out1" using Cons.prems(1) Some by (auto split: prod.splits)
    note h = hit_opened [OF Cons.prems(2,3) Some]
    note IH = Cons.IH [OF r(1) h(1,4)]
    have "out ! j = Some (contents (cs_store c) ((k # ks) ! j)) \<or> i + j \<in> set ps" if "j < length (k # ks)" for j
      using that IH r(2) h(2,3) by (cases j) auto
    then show ?thesis using IH h(3) shift [of ps ms] r(2) by simp
  next
    case None
    obtain out1 ps1 ms1 where r: "getMany_scan (Suc i) ks c = (out1, ps1, ms1, c')"
      "out = None # out1" "ps = i # ps1" "ms = k # ms1" using Cons.prems(1) None by (auto split: prod.splits)
    note IH = Cons.IH [OF r(1) Cons.prems(2,3)]
    have "out ! j = Some (contents (cs_store c) ((k # ks) ! j)) \<or> i + j \<in> set ps" if "j < length (k # ks)" for j
      using that IH r(2-) by (cases j) auto
    then show ?thesis using IH shift [of ps1 ms1] r(2-) by simp
  qed
qed auto

lemma fill_spec:
  assumes "list_all2 (\<lambda>p k. p < length ks \<and> k = ks ! p) ps ms" "length out = length ks"
    "\<forall>j < length ks. out ! j = Some (contents (cs_store c) (ks ! j)) \<or> j \<in> set ps" "c_opened c" "cs_enabled c"
  shows "\<exists>c'. getMany_fill ps ms (map (contents (cs_store c)) ms) out c = (map (Some \<circ> contents (cs_store c)) ks, c') \<and>
    c_opened c' \<and> cs_store c' = cs_store c"
  using assms
proof (induction ps ms arbitrary: out c rule: list_all2_induct)
  case Nil
  then have "out = map (Some \<circ> contents (cs_store c)) ks" by (intro nth_equalityI) auto
  with Nil show ?case by auto
next
  case (Cons p ps k ms)
  note f = fill_opened [OF Cons.prems(3,4) refl, of k]
  have "\<forall>j < length ks. out[p := Some (contents (cs_store c) k)] ! j = Some (contents (cs_store c) (ks ! j)) \<or> j \<in> set ps"
    using Cons.prems(1,2) Cons.hyps(1) by (auto simp: nth_list_update)
  with Cons.IH [of "out[p := Some (contents (cs_store c) k)]" "get_miss_fill k (contents (cs_store c) k) c"] f Cons.prems(1)
  show ?case by simp
qed

lemma cached_getMany_law:
  assumes "c_opened c"
  shows "\<exists>c'. cached_getMany K c ks = Inr (map (contents (cs_store c)) ks, c') \<and> c_opened c' \<and> contents (cs_store c') = contents (cs_store c)"
proof (cases "cs_enabled c")
  case False
  then show ?thesis using getMany_law [of "cs_store c" ks] assms
    by (auto simp: cached_getMany_def with_store_def cached_opened_def)
next
  case True
  obtain out ps ms c1 where r: "getMany_scan 0 ks c = (out, ps, ms, c1)" by (metis prod_cases4)
  note s = scan_spec [OF r assms True]
  have the_map: "map the (map (Some \<circ> f) xs) = map f xs" for f and xs :: "key list" by simp
  show ?thesis
  proof (cases "ms = []")
    case ms: True
    then have "out = map (Some \<circ> contents (cs_store c)) ks" using s by (intro nth_equalityI) auto
    with ms s r True show ?thesis by (simp add: cached_getMany_def comp_def)
  next
    case False
    obtain t where t: "op_getMany K (cs_store c1) ms = Inr (map (contents (cs_store c)) ms, t)" "opened t"
      "contents t = contents (cs_store c)" using getMany_law [of "cs_store c1" ms] s by (auto simp: cached_opened_def)
    have "c_opened (c1\<lparr>cs_store := t\<rparr>)" using s t by (intro store_opened) auto
    then obtain c2 where "getMany_fill ps ms (map (contents (cs_store c)) ms) out (c1\<lparr>cs_store := t\<rparr>) =
        (map (Some \<circ> contents (cs_store c)) ks, c2)" "c_opened c2" "cs_store c2 = t"
      using fill_spec [of ks ps ms out "c1\<lparr>cs_store := t\<rparr>"] s t(3) by auto
    then show ?thesis using r t False True by (simp add: cached_getMany_def with_store_def comp_def)
  qed
qed

lemma cached_write_law:
  assumes "c_opened c"
  shows "\<exists>c'. cached_write K c ops = Inr c' \<and> c_opened c' \<and> contents (cs_store c') = apply_ops ops (contents (cs_store c))"
proof -
  obtain s where s: "op_write K (cs_store c) ops = Inr s" "opened s" "contents s = apply_ops ops (contents (cs_store c))"
    using write_law [of "cs_store c" ops] assms by (auto simp: cached_opened_def)
  have untouched: "apply_ops xs m k = m k" if "k \<notin> op_key ` set xs" for xs k and m :: kv_map
    using that
  proof (induction xs arbitrary: m)
    case (Cons x xs)
    then show ?case by (cases x) auto
  qed simp
  have fold: "same_config d (fold (\<lambda>op. invalidate (op_key op)) xs d) \<and> (cache_inv d \<longrightarrow> cache_inv (fold (\<lambda>op. invalidate (op_key op)) xs d) \<and>
      set (cached_data (fold (\<lambda>op. invalidate (op_key op)) xs d)) = {x \<in> set (cached_data d). fst x \<notin> bytesToHex ` op_key ` set xs})"
    if "cache_inv d" for xs d
    using that
  proof (induction xs arbitrary: d)
    case (Cons x xs)
    note i = invalidate_inv [OF Cons.prems, of "op_key x"]
    then show ?case using Cons.IH [OF i(1)] same_config_trans [OF i(2)] by auto
  qed simp
  let ?d = "c\<lparr>cs_store := s\<rparr>"
  let ?c = "fold (\<lambda>op. invalidate (op_key op)) ops ?d"
  have "c_opened ?c \<and> cs_store ?c = s"
  proof (cases "cs_enabled c")
    case True
    then have inv: "cache_inv ?d" and coh: "coherent (contents (cs_store c)) c" using assms by (auto simp: cached_opened_def)
    note f = fold [OF inv, of ops]
    then have "coherent (contents s) ?c" using coh inv s(3) by (auto simp: coherent_def untouched image_iff)
    with f inv s(2) True show ?thesis by (simp add: cached_opened_def same_config_def)
  next
    case False
    have "same_config d (invalidate k d)" for d :: "'s cached_store" and k
      by (simp add: invalidate_def removeEntry_def drop_node_def Let_def same_config_def split: option.splits)
    then have "same_config d (fold (\<lambda>op. invalidate (op_key op)) xs d)" for xs and d :: "'s cached_store"
      by (induction xs arbitrary: d) (auto intro: same_config_trans)
    from this [of ?d ops] show ?thesis using s(2) False by (simp add: cached_opened_def same_config_def)
  qed
  then show ?thesis using s by (simp add: cached_write_def)
qed

text \<open>The wrapped store is again a store: every law of the contract holds for the cache.\<close>

lemma cached_contract: "kv_contract (cached_ops K) c_opened (cached_closed closed) (cached_contents contents)"
proof (unfold_locales, goal_cases)
  case (3 c k)
  then show ?case using cached_has_law [of c k] by (simp add: cached_ops_def)
next
  case (6 c opts)
  then show ?case using iterate_law [of "cs_store c" opts] by (simp add: cached_ops_def cached_iterate_def cached_opened_def)
next
  case (8 c)
  then show ?case using close_law [of "cs_store c"]
    by (simp add: cached_ops_def cached_close_def cached_closed_def cached_opened_def invalidateAll_def)
next
  case (9 c k v opts)
  then show ?case using closed_law [of "cs_store c" k v opts]
    by (simp add: cached_ops_def cached_closed_def cached_get_def cached_has_def cached_put_def cached_delete_def
        cached_iterate_def get_miss_read_def with_store_def)
qed (simp_all add: cached_ops_def cached_get_law cached_getMany_law cached_has_law cached_put_law cached_delete_law cached_write_law)

end

interpretation cached_mem: kv_contract "cached_ops mem_ops" "cached_opened mem_opened mem_contents"
  "cached_closed mem_closed" "cached_contents mem_contents"
  by (rule mem.cached_contract)

section \<open>Properties\<close>

lemma new_cached_opened: "opened s \<Longrightarrow> cached_opened opened contents (new_cached_store s options)"
  by (auto simp: cached_opened_def cache_inv_def lru_repr_def linked_def new_cached_store_def cached_data_def
      count_bounded_def coherent_def intro!: exI [of _ "[]"])

text \<open>
  C17. The cache is transparent: wrapped around any store that keeps the key-value contract, it
  keeps the same contract over the same contents, so reads, batched reads, existence checks,
  writes, batches, scans and closing answer as the store itself would, hit or miss, whatever
  the size limits; and a fresh cache over an open store starts in such a state.
\<close>

theorem cached_store_transparent:
  assumes "kv_contract K opened is_closed contents"
  shows "kv_contract (cached_ops K) (cached_opened opened contents) (cached_closed is_closed) (cached_contents contents) \<and>
    (opened s \<longrightarrow> cached_opened opened contents (new_cached_store s options))"
  using kv_contract.cached_contract [OF assms] new_cached_opened [of opened s] by simp

theorem cached_store_transparent_witness:
  "kv_contract (cached_ops mem_ops) (cached_opened mem_opened mem_contents) (cached_closed mem_closed) (cached_contents mem_contents) \<and>
   cached_opened mem_opened mem_contents (new_cached_store new_mem_store \<lparr>maxEntries = Some 2, maxBytes = None, enabled = None\<rparr>)"
proof -
  have "mem_opened new_mem_store" by (simp add: mem_opened_def new_mem_store_def hex_keyed_def)
  then show ?thesis using cached_store_transparent [OF mem.kv_contract_axioms] by blast
qed

text \<open>
  C18. The linked list is the recency order and the entry limit holds: touching an entry, new or
  known, moves it to the front and keeps the others in order, and what eviction removes is a
  suffix of that order, the entries unused the longest.
\<close>

theorem lru_order_and_bound:
  assumes "lru_repr c ks" "count_bounded c"
  shows "\<exists>n. lru_repr (addEntry h v z c) (take n (h # remove1 h ks)) \<and> count_bounded (addEntry h v z c)"
proof (cases "map_of (cs_map c) h")
  case None
  then have "remove1 h ks = ks" using repr_lookup [OF assms(1), of h] by (simp add: remove1_idem)
  with addEntry_new [OF assms(1) None, of v z] show ?thesis
    using addEntry_inv(1) [of c h v z] assms by (auto simp: cache_inv_def)
next
  case (Some n)
  have "take (length (h # remove1 h ks)) (h # remove1 h ks) = h # remove1 h ks" by simp
  then show ?thesis
    using addEntry_existing(1) [OF assms(1) Some, of v z] addEntry_inv(1) [of c h v z] assms by (metis cache_inv_def)
qed

theorem lru_order_and_bound_witness:
  "\<exists>c. c = new_cached_store new_mem_store \<lparr>maxEntries = Some 1, maxBytes = None, enabled = None\<rparr> \<and> lru_repr c [] \<and> count_bounded c \<and>
    (\<exists>n. lru_repr (addEntry [48, 49] None 1 c) (take n ([48, 49] # remove1 [48, 49] [])) \<and> count_bounded (addEntry [48, 49] None 1 c))"
  by (rule exI, rule conjI, rule refl, intro conjI lru_order_and_bound)
    (simp_all add: lru_repr_def linked_def new_cached_store_def cached_data_def count_bounded_def)

lemma put_entry:
  assumes "kv_contract K opened is_closed contents" "cached_opened opened contents c" "cs_enabled c"
  obtains s where "op_put K (cs_store c) k v = Inr s" "contents s = (contents (cs_store c))(k \<mapsto> v)" "opened s"
    "cached_put K c k v = Inr (addEntry (bytesToHex k) (Some v) (entry_size k (Some v)) (c\<lparr>cs_store := s\<rparr>))"
proof -
  obtain s where "op_put K (cs_store c) k v = Inr s" "opened s" "contents s = (contents (cs_store c))(k \<mapsto> v)"
    using kv_contract.put_law [OF assms(1), of "cs_store c" k v] assms(2) by (auto simp: cached_opened_def)
  then show thesis using assms(3) by (intro that) (simp_all add: cached_put_def Let_def cache_set_addEntry)
qed

lemma repr_store [simp]: "lru_repr (c\<lparr>cs_store := s\<rparr>) ks = lru_repr c ks"
  by (simp add: lru_repr_def linked_def cached_data_def)

text \<open>
  C19. The byte limit of the cache holds after the insertion of a new key and need not hold
  after a write to a cached one. For every store that keeps the key-value contract, every
  state of the cache over it, and every key and value: a put of a key that is not cached leaves
  the cached bytes within a limit that is not negative. A put of a cached key
  evicts nothing: the cached keys stay, the byte count moves by exactly the difference of the
  two entry sizes, and the limit is exceeded whenever that sum exceeds it.
\<close>

theorem cache_byte_limit:
  assumes "kv_contract K opened is_closed contents" "cached_opened opened contents c" "cs_enabled c"
  shows "\<exists>c'. cached_put K c k v = Inr c' \<and> cs_maxBytes c' = cs_maxBytes c \<and>
    (case map_of (cs_map c) (bytesToHex k) of
       None \<Rightarrow> \<forall>b. cs_maxBytes c = Some b \<and> 0 \<le> b \<longrightarrow> cs_totalBytes c' \<le> b
     | Some n \<Rightarrow> map fst (cs_map c') = map fst (cs_map c) \<and>
         cs_totalBytes c' = cs_totalBytes c - node_size n + entry_size k (Some v) \<and>
         (\<forall>b. cs_maxBytes c = Some b \<and> b < cs_totalBytes c - node_size n + entry_size k (Some v) \<longrightarrow> over_limit c'))"
proof -
  obtain s where put: "cached_put K c k v = Inr (addEntry (bytesToHex k) (Some v) (entry_size k (Some v)) (c\<lparr>cs_store := s\<rparr>))"
    using assms by (rule put_entry)
  define d z where "d = c\<lparr>cs_store := s\<rparr>" and "z = entry_size k (Some v)"
  let ?c' = "addEntry (bytesToHex k) (Some v) z d"
  obtain ks where ks: "lru_repr d ks" using assms(2,3) by (auto simp: cached_opened_def cache_inv_def d_def)
  have d: "cs_map d = cs_map c" "cs_maxBytes d = cs_maxBytes c" "cs_totalBytes d = cs_totalBytes c" by (simp_all add: d_def)
  have "cache_inv d" using assms(2,3) by (simp add: cached_opened_def d_def)
  from addEntry_inv(2) [OF this] have bytes: "cs_maxBytes ?c' = cs_maxBytes c" by (simp add: same_config_def d)
  show ?thesis
  proof (cases "map_of (cs_map c) (bytesToHex k)")
    case None
    with d have "map_of (cs_map d) (bytesToHex k) = None" by simp
    from addEntry_new [OF ks this, of "Some v" z]
    have new: "over_limit ?c' \<longrightarrow> cs_map ?c' = []" and "\<exists>ks'. lru_repr ?c' ks'" by auto
    then have "cs_map ?c' = [] \<longrightarrow> cs_totalBytes ?c' = 0" by (auto simp: lru_repr_def cached_data_def)
    with new have "cs_totalBytes ?c' \<le> b" if "cs_maxBytes c = Some b" "0 \<le> b" for b
      using that bytes by (fastforce simp: over_limit_def)
    with None put bytes show ?thesis by (simp add: d_def z_def)
  next
    case (Some n)
    with d have at: "map_of (cs_map d) (bytesToHex k) = Some n" by simp
    note e = addEntry_existing [OF ks at, of "Some v" z]
    have "map fst (cs_map ?c') = map fst (cs_map c)"
      unfolding keys_cached_data [symmetric] e(2) using d by (simp add: cached_data_def comp_def case_prod_beta)
    moreover have "cs_totalBytes ?c' = cs_totalBytes c - node_size n + z"
      using at d by (simp add: addEntry_def Let_def)
    ultimately show ?thesis using Some put bytes by (auto simp: d_def z_def over_limit_def)
  qed
qed

text \<open>A cache of four bytes over a store that holds one key, and the same cache after reading the key.\<close>

definition demo_store :: mem_store where
  "demo_store = \<lparr>mem_data = [(bytesToHex [1], [1], [10])], mem_closed = False\<rparr>"

definition demo_cold :: "mem_store cached_store" where
  "demo_cold = new_cached_store demo_store \<lparr>maxEntries = None, maxBytes = Some 4, enabled = None\<rparr>"

definition demo_warm :: "mem_store cached_store" where
  "demo_warm = get_miss_fill [1] (Some [10]) demo_cold"

lemma demo_cold_opened: "cached_opened mem_opened mem_contents demo_cold"
proof -
  have "mem_opened demo_store" by (simp add: mem_opened_def demo_store_def hex_keyed_def)
  then show ?thesis by (simp add: demo_cold_def new_cached_opened)
qed

lemma demo_warm_opened: "cached_opened mem_opened mem_contents demo_warm" "cs_enabled demo_warm"
proof -
  have "mem_contents (cs_store demo_cold) [1] = Some [10]" "cs_enabled demo_cold"
    by (code_simp, code_simp)
  then show "cached_opened mem_opened mem_contents demo_warm" "cs_enabled demo_warm"
    unfolding demo_warm_def using mem.fill_opened [OF demo_cold_opened] by blast+
qed

lemma demo_warm_node:
  "map_of (cs_map demo_warm) (bytesToHex [1]) =
     Some \<lparr>node_value = Some [10], node_size = 2, node_prev = None, node_next = None\<rparr>"
  "cs_totalBytes demo_warm = 2" "cs_maxBytes demo_warm = Some 4"
  by (code_simp, code_simp, code_simp)

theorem cache_byte_limit_witness:
  "\<exists>c'. cached_put mem_ops demo_warm [1] [0, 0, 0, 0, 0, 0, 0, 0, 0, 0] = Inr c' \<and>
     cs_maxBytes c' = Some 4 \<and> cs_totalBytes c' = 11 \<and> over_limit c'"
  using cache_byte_limit [OF mem.kv_contract_axioms demo_warm_opened, of "[1]" "[0, 0, 0, 0, 0, 0, 0, 0, 0, 0]"]
  unfolding demo_warm_node option.case by (auto simp: entry_size_def)

text \<open>
  C20. A read that misses and a write of the same key can interleave so that the cache keeps the
  value from before the write. For every store that keeps the key-value contract, every state
  of an enabled cache over it in which the key is not cached, and every value whose entry fits the
  limits on its own: the read fetches the old value, the write completes, then the read inserts
  what it fetched over the entry of the write. The next read returns the old value although the
  store holds the new one.
\<close>

theorem cached_get_put_race:
  assumes K: "kv_contract K opened is_closed contents" and c: "cached_opened opened contents c" "cs_enabled c"
    and miss: "map_of (cs_map c) (bytesToHex k) = None"
    and fits: "1 \<le> cs_maxEntries c" "\<And>b. cs_maxBytes c = Some b \<Longrightarrow> entry_size k (Some v) \<le> b"
  shows "\<exists>c1 c2 c3. get_miss_read K c k = Inr (contents (cs_store c) k, c1) \<and>
    cached_put K c1 k v = Inr c2 \<and>
    cached_get K (get_miss_fill k (contents (cs_store c) k) c2) k = Inr (contents (cs_store c) k, c3) \<and>
    contents (cs_store c3) k = Some v"
proof -
  let ?old = "contents (cs_store c) k" and ?h = "bytesToHex k"
  obtain s where s: "get_miss_read K c k = Inr (?old, c\<lparr>cs_store := s\<rparr>)" "opened s" "contents s = contents (cs_store c)"
    using kv_contract.miss_read [OF K c(1), of k] by blast
  define c1 where "c1 = c\<lparr>cs_store := s\<rparr>"
  have c1: "cached_opened opened contents c1" "cs_enabled c1"
    using kv_contract.store_opened [OF K c(1) s(2,3)] c(2) by (simp_all add: c1_def)
  obtain t where t: "contents t = (contents (cs_store c1))(k \<mapsto> v)"
    and put: "cached_put K c1 k v = Inr (addEntry ?h (Some v) (entry_size k (Some v)) (c1\<lparr>cs_store := t\<rparr>))"
    using K c1 by (rule put_entry)
  define d where "d = c1\<lparr>cs_store := t\<rparr>"
  define c2 where "c2 = addEntry ?h (Some v) (entry_size k (Some v)) d"
  have inv: "cache_inv d" using c by (simp add: d_def c1_def cached_opened_def)
  then obtain ks where ks: "lru_repr d ks" by (auto simp: cache_inv_def)
  have none: "map_of (cs_map d) ?h = None" using miss by (simp add: d_def c1_def)
  note w = with_entry_repr [OF ks none, of "Some v" "entry_size k (Some v)"]
  have "(?h, Some v, entry_size k (Some v)) \<in> set (cached_data c2)"
    unfolding c2_def addEntry_evict [OF none]
    by (rule evict_keeps_first [OF w(1)]) (use w fits in \<open>auto simp: same_config_def d_def c1_def\<close>)
  then obtain n where n: "map_of (cs_map c2) ?h = Some n"
    using data_lookup by blast
  obtain ks' where ks': "lru_repr c2 ks'" using addEntry_inv(1) [OF inv] unfolding cache_inv_def c2_def by blast
  define c3 where "c3 = get_miss_fill k ?old c2"
  note e = addEntry_existing [OF ks' n, of ?old "entry_size k ?old"]
  have same: "same_config d c3"
    using same_config_trans [OF addEntry_inv(2) [OF inv] e(3) [unfolded c2_def]] by (simp add: c3_def get_miss_fill_def c2_def)
  obtain n' where n': "map_of (cs_map c3) ?h = Some n'" "node_value n' = ?old"
    using addEntry_hit [OF ks' n] by (auto simp: c3_def get_miss_fill_def)
  have "cached_get K c3 k = Inr (?old, moveToHead ?h c3)"
    using n' same c(2) by (simp add: cached_get_def same_config_def d_def c1_def)
  moreover have "contents (cs_store (moveToHead ?h c3)) k = Some v"
    using same same_config_links(1) [of c3 ?h] t by (simp add: same_config_def d_def)
  ultimately show ?thesis using s(1) put by (auto simp: c1_def [symmetric] d_def [symmetric] c2_def [symmetric] c3_def [symmetric])
qed

theorem cached_get_put_race_witness:
  "\<exists>c1 c2 c3. get_miss_read mem_ops demo_cold [1] = Inr (Some [10], c1) \<and>
    cached_put mem_ops c1 [1] [20] = Inr c2 \<and>
    cached_get mem_ops (get_miss_fill [1] (Some [10]) c2) [1] = Inr (Some [10], c3) \<and>
    mem_contents (cs_store c3) [1] = Some [20]"
proof -
  have cold: "mem_contents (cs_store demo_cold) [1] = Some [10]" "cs_enabled demo_cold" "cs_maxEntries demo_cold = 1000"
    "cs_maxBytes demo_cold = Some 4" "map_of (cs_map demo_cold) (bytesToHex [1]) = None"
    by (code_simp, code_simp, code_simp, code_simp, code_simp)
  show ?thesis
    using cached_get_put_race [OF mem.kv_contract_axioms demo_cold_opened cold(2,5), of "[20]"]
    by (simp add: cold entry_size_def)
qed

end
