(* ===== verification/Transaction.thy ===== *)
theory Transaction
  imports Kv_Store
begin

text \<open>
  The transaction coordinator of quereus-store/src/common/transaction.ts: the buffered operation
  oplog of a storage module, its per-store index, savepoints, commit and rollback. Stores are
  named by handles. What commit acts on outside the coordinator (the batches of the stores, the
  event emitter, the lifecycle callbacks) is the parameter \<open>env\<close> over a world \<open>'w\<close>; an effect
  that may throw returns whether it did.
\<close>

record 'h pending_op =
  po_store :: 'h
  po_op :: batch_op

record pending_bucket =
  puts :: "(js_string \<times> kv_entry) list"
  deletes :: "js_string list"

record ordered_pending =
  ord_puts :: "kv_entry list"
  ord_deletes :: "js_string list"

record savepoint =
  opIndex :: nat
  eventIndex :: nat

record ('h, 'ev) coordinator =
  inTransaction :: bool
  pendingOps :: "'h pending_op list"
  pendingEvents :: "'ev list"
  savepointStack :: "savepoint list"
  callbacks :: "nat list"
  pendingIndex :: "('h \<times> pending_bucket) list"

datatype txn_error = Misuse

definition EMPTY_PENDING :: pending_bucket where
  "EMPTY_PENDING = \<lparr>puts = [], deletes = []\<rparr>"

definition EMPTY_ORDERED :: ordered_pending where
  "EMPTY_ORDERED = \<lparr>ord_puts = [], ord_deletes = []\<rparr>"

definition new_coordinator :: "('h, 'ev) coordinator" where
  "new_coordinator = \<lparr>inTransaction = False, pendingOps = [], pendingEvents = [], savepointStack = [],
     callbacks = [], pendingIndex = []\<rparr>"

section \<open>The index\<close>

definition bucketIn :: "('h \<times> pending_bucket) list \<Rightarrow> 'h \<Rightarrow> pending_bucket" where
  "bucketIn index store = (case map_of index store of Some b \<Rightarrow> b | None \<Rightarrow> \<lparr>puts = [], deletes = []\<rparr>)"

definition orderedView :: "pending_bucket option \<Rightarrow> ordered_pending" where
  "orderedView bucket = (case bucket of
     None \<Rightarrow> EMPTY_ORDERED
   | Some b \<Rightarrow> if puts b = [] \<and> deletes b = [] then EMPTY_ORDERED
       else \<lparr>ord_puts = sort_cmp (\<lambda>x y. compareBytes (fst x) (fst y)) (map snd (puts b)), ord_deletes = deletes b\<rparr>)"

fun bucket_op :: "batch_op \<Rightarrow> pending_bucket \<Rightarrow> pending_bucket" where
  "bucket_op (Put k v) b = \<lparr>puts = AList.update (bytesToHex k) (k, v) (puts b), deletes = removeAll (bytesToHex k) (deletes b)\<rparr>"
| "bucket_op (Delete k) b = \<lparr>puts = AList.delete (bytesToHex k) (puts b), deletes = List.insert (bytesToHex k) (deletes b)\<rparr>"

definition index_op :: "'h pending_op \<Rightarrow> ('h \<times> pending_bucket) list \<Rightarrow> ('h \<times> pending_bucket) list" where
  "index_op op index = AList.update (po_store op) (bucket_op (po_op op) (bucketIn index (po_store op))) index"

definition replayOps :: "'h pending_op list \<Rightarrow> nat \<Rightarrow> ('h \<times> pending_bucket) list" where
  "replayOps oplog opCount = fold index_op (take opCount oplog) []"

definition rebuildPendingIndex :: "('h, 'ev) coordinator \<Rightarrow> ('h, 'ev) coordinator" where
  "rebuildPendingIndex c = c\<lparr>pendingIndex := replayOps (pendingOps c) (length (pendingOps c))\<rparr>"

section \<open>Operations\<close>

definition registerCallbacks :: "nat \<Rightarrow> ('h, 'ev) coordinator \<Rightarrow> ('h, 'ev) coordinator" where
  "registerCallbacks cb c = c\<lparr>callbacks := callbacks c @ [cb]\<rparr>"

text \<open>The disposer \<open>registerCallbacks\<close> returns.\<close>

definition disposeCallbacks :: "nat \<Rightarrow> ('h, 'ev) coordinator \<Rightarrow> ('h, 'ev) coordinator" where
  "disposeCallbacks cb c = c\<lparr>callbacks := remove1 cb (callbacks c)\<rparr>"

definition begin_txn :: "('h, 'ev) coordinator \<Rightarrow> ('h, 'ev) coordinator" where
  "begin_txn c = (if inTransaction c then c
     else c\<lparr>inTransaction := True, pendingOps := [], pendingEvents := [], savepointStack := [], pendingIndex := []\<rparr>)"

definition queue_op :: "'h pending_op \<Rightarrow> ('h, 'ev) coordinator \<Rightarrow> txn_error + ('h, 'ev) coordinator" where
  "queue_op op c = (if \<not> inTransaction c then Inl Misuse
     else Inr (c\<lparr>pendingOps := pendingOps c @ [op], pendingIndex := index_op op (pendingIndex c)\<rparr>))"

definition put_op :: "key \<Rightarrow> val \<Rightarrow> 'h \<Rightarrow> ('h, 'ev) coordinator \<Rightarrow> txn_error + ('h, 'ev) coordinator" where
  "put_op k v store c = queue_op \<lparr>po_store = store, po_op = Put k v\<rparr> c"

definition delete_op :: "key \<Rightarrow> 'h \<Rightarrow> ('h, 'ev) coordinator \<Rightarrow> txn_error + ('h, 'ev) coordinator" where
  "delete_op k store c = queue_op \<lparr>po_store = store, po_op = Delete k\<rparr> c"

definition clearTransaction :: "('h, 'ev) coordinator \<Rightarrow> ('h, 'ev) coordinator" where
  "clearTransaction c = c\<lparr>inTransaction := False, pendingOps := [], pendingEvents := [], savepointStack := [], pendingIndex := []\<rparr>"

definition createSavepoint :: "nat \<Rightarrow> ('h, 'ev) coordinator \<Rightarrow> ('h, 'ev) coordinator" where
  "createSavepoint depth c = (let c1 = (if \<not> inTransaction c then begin_txn c else c) in
     if length (savepointStack c1) \<noteq> depth then c1
     else c1\<lparr>savepointStack := savepointStack c1 @
       [\<lparr>opIndex = length (pendingOps c1), eventIndex = length (pendingEvents c1)\<rparr>]\<rparr>)"

definition releaseSavepoint :: "nat \<Rightarrow> ('h, 'ev) coordinator \<Rightarrow> ('h, 'ev) coordinator" where
  "releaseSavepoint targetDepth c =
     (if targetDepth > length (savepointStack c) then c
      else c\<lparr>savepointStack := take targetDepth (savepointStack c)\<rparr>)"

definition rollbackToSavepoint :: "nat \<Rightarrow> ('h, 'ev) coordinator \<Rightarrow> ('h, 'ev) coordinator" where
  "rollbackToSavepoint targetDepth c =
     (if targetDepth \<ge> length (savepointStack c) then c
      else let snapshot = savepointStack c ! targetDepth;
         c1 = c\<lparr>pendingOps := take (opIndex snapshot) (pendingOps c),
                pendingEvents := take (eventIndex snapshot) (pendingEvents c)\<rparr>;
         c2 = rebuildPendingIndex c1
       in c2\<lparr>savepointStack := take (Suc targetDepth) (savepointStack c2)\<rparr>)"

text \<open>
  \<open>expand\<close> sees an operation by its position as well: the source tells operations apart by
  object identity.
\<close>

fun shift_savepoints :: "nat \<Rightarrow> nat \<Rightarrow> savepoint list \<Rightarrow> savepoint list \<Rightarrow> savepoint list \<times> savepoint list" where
  "shift_savepoints i len moved [] = (moved, [])"
| "shift_savepoints i len moved (sp # sps) =
     (if opIndex sp = i then shift_savepoints i len (moved @ [sp\<lparr>opIndex := len\<rparr>]) sps else (moved, sp # sps))"

fun rewrite_loop :: "(nat \<Rightarrow> 'h pending_op \<Rightarrow> 'h pending_op list) \<Rightarrow> nat \<Rightarrow> 'h pending_op list \<Rightarrow> 'h pending_op list \<Rightarrow>
    savepoint list \<Rightarrow> savepoint list \<Rightarrow> 'h pending_op list \<times> savepoint list" where
  "rewrite_loop expand i [] oplog moved sps =
     (case shift_savepoints i (length oplog) moved sps of (moved', sps') \<Rightarrow> (oplog, moved' @ sps'))"
| "rewrite_loop expand i (op # ops) oplog moved sps =
     (case shift_savepoints i (length oplog) moved sps of (moved', sps') \<Rightarrow>
        rewrite_loop expand (Suc i) ops (oplog @ expand i op) moved' sps')"

definition rewriteLog :: "(nat \<Rightarrow> 'h pending_op \<Rightarrow> 'h pending_op list) \<Rightarrow> ('h, 'ev) coordinator \<Rightarrow> ('h, 'ev) coordinator" where
  "rewriteLog expand c = (case rewrite_loop expand 0 (pendingOps c) [] [] (savepointStack c) of
     (oplog, sps) \<Rightarrow> rebuildPendingIndex (c\<lparr>pendingOps := oplog, savepointStack := sps\<rparr>))"

type_synonym derive_ops = "val option \<Rightarrow> val option \<Rightarrow> (key \<times> val option) list"

fun op_value :: "batch_op \<Rightarrow> val option" where
  "op_value (Put k v) = Some v"
| "op_value (Delete k) = None"

definition derived_op :: "'h \<Rightarrow> key \<times> val option \<Rightarrow> 'h pending_op" where
  "derived_op target d = (case d of
     (k, None) \<Rightarrow> \<lparr>po_store = target, po_op = Delete k\<rparr>
   | (k, Some v) \<Rightarrow> \<lparr>po_store = target, po_op = Put k v\<rparr>)"

text \<open>The scan of \<open>queueDerivedOps\<close>: for each operation, the derived ones (\<open>None\<close> off the source store).\<close>

fun derive_loop :: "(key \<Rightarrow> val option) \<Rightarrow> 'h \<Rightarrow> 'h \<Rightarrow> derive_ops \<Rightarrow> (js_string \<times> val option) list \<Rightarrow>
    'h pending_op list \<Rightarrow> 'h pending_op list option list" where
  "derive_loop get source target derive latest [] = []"
| "derive_loop get source target derive latest (op # ops) =
     (if po_store op \<noteq> source then None # derive_loop get source target derive latest ops
      else let hex = bytesToHex (op_key (po_op op));
        before = (case map_of latest hex of Some v \<Rightarrow> v | None \<Rightarrow> get (op_key (po_op op)));
        after = op_value (po_op op)
      in Some (map (derived_op target) (derive before after)) #
         derive_loop get source target derive (AList.update hex after latest) ops)"

text \<open>
  \<open>get\<close> stands for the reads of the source store, which succeed. The log is rewritten after the
  last of them, so a call whose read rejects throws with the coordinator as it was.
\<close>

definition queueDerivedOps :: "(key \<Rightarrow> val option) \<Rightarrow> 'h \<Rightarrow> 'h \<Rightarrow> derive_ops \<Rightarrow> ('h, 'ev) coordinator \<Rightarrow> ('h, 'ev) coordinator" where
  "queueDerivedOps get source target derive c =
     (let derived = derive_loop get source target derive [] (pendingOps c) in
      if list_ex (\<lambda>d. d \<noteq> None) derived
      then rewriteLog (\<lambda>i op. op # (case derived ! i of Some ds \<Rightarrow> ds | None \<Rightarrow> [])) c
      else c)"

definition discardOpsFor :: "'h \<Rightarrow> ('h, 'ev) coordinator \<Rightarrow> ('h, 'ev) coordinator" where
  "discardOpsFor store c = (if map_of (pendingIndex c) store \<noteq> None
     then rewriteLog (\<lambda>i op. if po_store op = store then [] else [op]) c else c)"

definition getPendingOpsForStore :: "('h, 'ev) coordinator \<Rightarrow> 'h \<Rightarrow> pending_bucket" where
  "getPendingOpsForStore c store = (case map_of (pendingIndex c) store of Some b \<Rightarrow> b | None \<Rightarrow> EMPTY_PENDING)"

definition getOrderedPendingOps :: "('h, 'ev) coordinator \<Rightarrow> 'h \<Rightarrow> ordered_pending" where
  "getOrderedPendingOps c store = orderedView (map_of (pendingIndex c) store)"

definition getOrderedPendingOpsAtSavepoints :: "('h, 'ev) coordinator \<Rightarrow> 'h \<Rightarrow> ordered_pending list" where
  "getOrderedPendingOpsAtSavepoints c store =
     map (\<lambda>sp. orderedView (map_of (replayOps (pendingOps c) (opIndex sp)) store)) (savepointStack c)"

section \<open>Commit and rollback\<close>

text \<open>
  The effects outside the coordinator, over a world. A store write, an atomic batch and an
  \<open>onCommit\<close> callback may throw (the flag \<^const>\<open>True\<close>). \<open>onRollback\<close> returns: the one callback that
  is registered (store-table-base.ts) drops pending counters. A callback that threw would skip the
  callbacks after it, in \<open>commit\<close> and in \<open>rollback\<close>; this is outside the model.
\<close>

record ('h, 'ev, 'w) txn_env =
  write_store :: "'h \<Rightarrow> batch_op list \<Rightarrow> 'w \<Rightarrow> 'w \<times> bool"
  atomicBatchFactory :: "'w \<Rightarrow> (('h \<times> batch_op) list \<Rightarrow> 'w \<Rightarrow> 'w \<times> bool) option"
  emitDataChange :: "('ev \<Rightarrow> 'w \<Rightarrow> 'w) option"
  onCommit :: "nat \<Rightarrow> 'w \<Rightarrow> 'w \<times> bool"
  onRollback :: "nat \<Rightarrow> 'w \<Rightarrow> 'w"

definition queueEvent :: "('h, 'ev, 'w) txn_env \<Rightarrow> 'ev \<Rightarrow> ('h, 'ev) coordinator \<times> 'w \<Rightarrow> ('h, 'ev) coordinator \<times> 'w" where
  "queueEvent env ev cw = (case cw of (c, w) \<Rightarrow>
     if \<not> inTransaction c then (c, case emitDataChange env of Some f \<Rightarrow> f ev w | None \<Rightarrow> w)
     else (c\<lparr>pendingEvents := pendingEvents c @ [ev]\<rparr>, w))"

definition group_ops :: "'h pending_op list \<Rightarrow> ('h \<times> batch_op list) list" where
  "group_ops oplog = fold (\<lambda>op m. AList.update (po_store op)
     ((case map_of m (po_store op) of Some ops \<Rightarrow> ops | None \<Rightarrow> []) @ [po_op op]) m) oplog []"

fun write_batches :: "('h, 'ev, 'w) txn_env \<Rightarrow> ('h \<times> batch_op list) list \<Rightarrow> 'w \<Rightarrow> 'w \<times> bool" where
  "write_batches env [] w = (w, False)"
| "write_batches env ((store, ops) # rest) w = (case write_store env store ops w of
     (w', True) \<Rightarrow> (w', True)
   | (w', False) \<Rightarrow> write_batches env rest w')"

definition flush_ops :: "('h, 'ev, 'w) txn_env \<Rightarrow> 'h pending_op list \<Rightarrow> 'w \<Rightarrow> 'w \<times> bool" where
  "flush_ops env oplog w = (if oplog = [] then (w, False)
     else let opsByStore = group_ops oplog in
       case atomicBatchFactory env w of
         Some write \<Rightarrow> write (concat (map (\<lambda>(store, ops). map (Pair store) ops) opsByStore)) w
       | None \<Rightarrow> write_batches env opsByStore w)"

fun notify_commit :: "('h, 'ev, 'w) txn_env \<Rightarrow> nat list \<Rightarrow> 'w \<Rightarrow> 'w \<times> bool" where
  "notify_commit env [] w = (w, False)"
| "notify_commit env (cb # cbs) w = (case onCommit env cb w of
     (w', True) \<Rightarrow> (w', True)
   | (w', False) \<Rightarrow> notify_commit env cbs w')"

definition emit_all :: "('h, 'ev, 'w) txn_env \<Rightarrow> 'ev list \<Rightarrow> 'w \<Rightarrow> 'w" where
  "emit_all env evs w = (case emitDataChange env of Some f \<Rightarrow> fold f evs w | None \<Rightarrow> w)"

definition commit_body :: "('h, 'ev, 'w) txn_env \<Rightarrow> ('h, 'ev) coordinator \<Rightarrow> 'w \<Rightarrow> 'w \<times> bool" where
  "commit_body env c w = (case flush_ops env (pendingOps c) w of
     (w1, True) \<Rightarrow> (w1, True)
   | (w1, False) \<Rightarrow> notify_commit env (callbacks c) (emit_all env (pendingEvents c) w1))"

text \<open>The last component tells whether the call throws.\<close>

definition commit :: "('h, 'ev, 'w) txn_env \<Rightarrow> ('h, 'ev) coordinator \<times> 'w \<Rightarrow> (('h, 'ev) coordinator \<times> 'w) \<times> bool" where
  "commit env cw = (case cw of (c, w) \<Rightarrow>
     if \<not> inTransaction c then ((c, w), False)
     else case commit_body env c w of
       (w1, threw) \<Rightarrow>
         ((clearTransaction c, if threw then fold (onRollback env) (callbacks c) w1 else w1), threw))"

definition rollback :: "('h, 'ev, 'w) txn_env \<Rightarrow> ('h, 'ev) coordinator \<times> 'w \<Rightarrow> ('h, 'ev) coordinator \<times> 'w" where
  "rollback env cw = (case cw of (c, w) \<Rightarrow>
     if \<not> inTransaction c then (c, w)
     else (clearTransaction c, fold (onRollback env) (callbacks c) w))"

section \<open>What the index says\<close>

definition ops_for :: "'h \<Rightarrow> 'h pending_op list \<Rightarrow> batch_op list" where
  "ops_for h oplog = map po_op (filter (\<lambda>op. po_store op = h) oplog)"

lemma ops_for_simps [simp]:
  "ops_for h [] = []" "ops_for h (xs @ ys) = ops_for h xs @ ops_for h ys"
  "ops_for h (x # xs) = (if po_store x = h then po_op x # ops_for h xs else ops_for h xs)"
  by (simp_all add: ops_for_def)

definition bucket_of :: "batch_op list \<Rightarrow> pending_bucket" where
  "bucket_of ops = fold bucket_op ops EMPTY_PENDING"

lemma index_op_lookup:
  "map_of (index_op x idx) h = (if po_store x = h then Some (bucket_op (po_op x) (bucketIn idx h)) else map_of idx h)"
  by (simp add: index_op_def AList.update_conv')

lemma replay_lookup:
  "map_of (fold index_op oplog []) h = (if ops_for h oplog = [] then None else Some (bucket_of (ops_for h oplog)))"
proof (induction oplog rule: rev_induct)
  case (snoc x xs)
  show ?case
  proof (cases "po_store x = h")
    case True
    then have "bucketIn (fold index_op xs []) h = bucket_of (ops_for h xs)"
      using snoc by (simp add: bucketIn_def bucket_of_def EMPTY_PENDING_def)
    with True show ?thesis by (simp add: index_op_lookup bucket_of_def)
  next
    case False
    then show ?thesis using snoc by (simp add: index_op_lookup)
  qed
qed simp

definition bucket_ok :: "pending_bucket \<Rightarrow> bool" where
  "bucket_ok b \<longleftrightarrow> distinct (map fst (puts b)) \<and> hex_keyed (puts b) \<and> (\<forall>h \<in> set (deletes b). map_of (puts b) h = None)"

text \<open>What a reader sees at a key: the buffered decision, else the committed value.\<close>

definition bucket_view :: "pending_bucket \<Rightarrow> kv_map \<Rightarrow> kv_map" where
  "bucket_view b m k = (if bytesToHex k \<in> set (deletes b) then None
     else case map_of (puts b) (bytesToHex k) of Some e \<Rightarrow> Some (snd e) | None \<Rightarrow> m k)"

lemma hex_keyed_update: "hex_keyed xs \<Longrightarrow> hex_keyed (AList.update (bytesToHex k) (k, v) xs)"
  by (induction xs) (auto simp: hex_keyed_def)

lemma hex_keyed_delete: "hex_keyed xs \<Longrightarrow> hex_keyed (AList.delete h xs)"
  by (auto simp: hex_keyed_def list_all_iff AList.delete_eq)

lemma distinct_keys_delete: "distinct (map fst xs) \<Longrightarrow> distinct (map fst (AList.delete h xs))"
  by (simp add: AList.delete_eq distinct_map_filter)

lemma bucket_op_ok: "bucket_ok b \<Longrightarrow> bucket_ok (bucket_op x b)"
  by (cases x) (auto simp: bucket_ok_def AList.distinct_update distinct_keys_delete hex_keyed_update hex_keyed_delete
      AList.update_conv' AList.delete_conv')

lemma bucket_op_view: "bucket_ok b \<Longrightarrow> bucket_view (bucket_op x b) m = apply_op x (bucket_view b m)"
  by (cases x; intro ext) (auto simp: bucket_ok_def bucket_view_def AList.update_conv' AList.delete_conv')

lemma bucket_of_ok: "bucket_ok (bucket_of ops)"
  unfolding bucket_of_def
  by (induction ops rule: rev_induct) (auto simp: bucket_op_ok, simp add: bucket_ok_def EMPTY_PENDING_def hex_keyed_def)

lemma bucket_of_view: "bucket_view (bucket_of ops) m = apply_ops ops m"
proof (induction ops rule: rev_induct)
  case Nil
  then show ?case by (intro ext) (simp add: bucket_of_def bucket_view_def EMPTY_PENDING_def)
next
  case (snoc x xs)
  have "bucket_of (xs @ [x]) = bucket_op x (bucket_of xs)" by (simp add: bucket_of_def)
  with snoc show ?case by (simp add: bucket_op_view [OF bucket_of_ok])
qed

section \<open>The invariant\<close>

definition savepoints_ok :: "('h, 'ev) coordinator \<Rightarrow> bool" where
  "savepoints_ok c \<longleftrightarrow> sorted_wrt (\<lambda>a b. opIndex a \<le> opIndex b \<and> eventIndex a \<le> eventIndex b) (savepointStack c) \<and>
     (\<forall>sp \<in> set (savepointStack c). opIndex sp \<le> length (pendingOps c) \<and> eventIndex sp \<le> length (pendingEvents c))"

definition txn_inv :: "('h, 'ev) coordinator \<Rightarrow> bool" where
  "txn_inv c \<longleftrightarrow> pendingIndex c = fold index_op (pendingOps c) [] \<and> savepoints_ok c \<and>
     (\<not> inTransaction c \<longrightarrow> pendingOps c = [] \<and> pendingEvents c = [] \<and> savepointStack c = [])"

fun expand_all :: "(nat \<Rightarrow> 'a \<Rightarrow> 'b list) \<Rightarrow> nat \<Rightarrow> 'a list \<Rightarrow> 'b list" where
  "expand_all e i [] = []"
| "expand_all e i (x # xs) = e i x @ expand_all e (Suc i) xs"

lemma expand_all_append: "expand_all e i (xs @ ys) = expand_all e i xs @ expand_all e (i + length xs) ys"
  by (induction xs arbitrary: i) simp_all

lemma expand_all_prefix: "take (length (expand_all e i (take n xs))) (expand_all e i xs) = expand_all e i (take n xs)"
  using expand_all_append [of e i "take n xs" "drop n xs"] by simp

lemma expand_all_mono: "m \<le> n \<Longrightarrow> length (expand_all e i (take m xs)) \<le> length (expand_all e i (take n xs))"
  using take_add [of m "n - m" xs] by (simp add: expand_all_append)

lemma shift_savepoints_eq:
  "shift_savepoints i len moved sps =
    (moved @ map (opIndex_update (\<lambda>_. len)) (takeWhile (\<lambda>sp. opIndex sp = i) sps), dropWhile (\<lambda>sp. opIndex sp = i) sps)"
  by (induction sps arbitrary: moved) auto

lemma rewrite_loop_eq:
  assumes "sorted (map opIndex sps)" "\<forall>sp \<in> set sps. i \<le> opIndex sp \<and> opIndex sp \<le> i + length ops"
  shows "rewrite_loop e i ops oplog moved sps = (oplog @ expand_all e i ops,
    moved @ map (\<lambda>sp. sp\<lparr>opIndex := length oplog + length (expand_all e i (take (opIndex sp - i) ops))\<rparr>) sps)"
  using assms
proof (induction ops arbitrary: i oplog moved sps)
  case Nil
  then have all: "takeWhile (\<lambda>sp. opIndex sp = i) sps = sps" "dropWhile (\<lambda>sp. opIndex sp = i) sps = []"
    by (auto simp: takeWhile_eq_all_conv dropWhile_eq_Nil_conv)
  show ?case unfolding rewrite_loop.simps shift_savepoints_eq all by simp
next
  case (Cons op ops)
  define tw where "tw = takeWhile (\<lambda>sp. opIndex sp = i) sps"
  define dw where "dw = dropWhile (\<lambda>sp. opIndex sp = i) sps"
  have sps: "sps = tw @ dw" by (simp add: tw_def dw_def)
  have tw: "opIndex sp = i" if "sp \<in> set tw" for sp using that by (auto simp: tw_def dest: set_takeWhileD)
  have sdw: "sorted (map opIndex dw)" using Cons.prems(1) sps by (auto simp: sorted_append)
  have dw: "Suc i \<le> opIndex sp \<and> opIndex sp \<le> Suc i + length ops" if mem: "sp \<in> set dw" for sp
  proof -
    obtain d ds where d: "dw = d # ds" using mem by (cases dw) auto
    have "opIndex d \<noteq> i"
      using hd_dropWhile [of "\<lambda>sp. opIndex sp = i" sps] d unfolding dw_def by simp
    then have "Suc i \<le> opIndex d" using Cons.prems(2) sps d by (auto simp: Suc_le_eq le_neq_implies_less)
    moreover have "opIndex d \<le> opIndex sp" using mem sdw d by auto
    ultimately show ?thesis using Cons.prems(2) sps mem by auto
  qed
  have new: "take (opIndex sp - i) (op # ops) = op # take (opIndex sp - Suc i) ops" if "sp \<in> set dw" for sp
  proof -
    have "opIndex sp - i = Suc (opIndex sp - Suc i)" using dw [OF that] by linarith
    then show ?thesis by simp
  qed
  have "rewrite_loop e i (op # ops) oplog moved sps =
      rewrite_loop e (Suc i) ops (oplog @ e i op) (moved @ map (opIndex_update (\<lambda>_. length oplog)) tw) dw"
    by (simp add: shift_savepoints_eq tw_def dw_def)
  also have "\<dots> = (oplog @ expand_all e i (op # ops), moved @ map (opIndex_update (\<lambda>_. length oplog)) tw @
      map (\<lambda>sp. sp\<lparr>opIndex := length (oplog @ e i op) + length (expand_all e (Suc i) (take (opIndex sp - Suc i) ops))\<rparr>) dw)"
    using Cons.IH [OF sdw, of "Suc i"] dw by simp
  also have "map (\<lambda>sp. sp\<lparr>opIndex := length (oplog @ e i op) + length (expand_all e (Suc i) (take (opIndex sp - Suc i) ops))\<rparr>) dw =
      map (\<lambda>sp. sp\<lparr>opIndex := length oplog + length (expand_all e i (take (opIndex sp - i) (op # ops)))\<rparr>) dw"
    using new by (intro map_cong refl) simp
  also have "map (opIndex_update (\<lambda>_. length oplog)) tw =
      map (\<lambda>sp. sp\<lparr>opIndex := length oplog + length (expand_all e i (take (opIndex sp - i) (op # ops)))\<rparr>) tw"
    using tw by (intro map_cong refl) simp
  finally show ?case by (simp add: sps)
qed

lemma savepoints_sorted: "savepoints_ok c \<Longrightarrow> sorted (map opIndex (savepointStack c))"
  by (auto simp: savepoints_ok_def sorted_wrt_map elim: sorted_wrt_mono_rel [rotated])

lemma rewriteLog_eq:
  assumes "savepoints_ok c"
  shows "rewriteLog e c = c\<lparr>pendingOps := expand_all e 0 (pendingOps c),
    savepointStack := map (\<lambda>sp. sp\<lparr>opIndex := length (expand_all e 0 (take (opIndex sp) (pendingOps c)))\<rparr>) (savepointStack c),
    pendingIndex := fold index_op (expand_all e 0 (pendingOps c)) []\<rparr>"
  using rewrite_loop_eq [OF savepoints_sorted [OF assms], of 0 "pendingOps c" e "[]" "[]"] assms
  by (simp add: rewriteLog_def rebuildPendingIndex_def replayOps_def savepoints_ok_def)

text \<open>Everything a module can do with its coordinator, one call at a time.\<close>

inductive txn_step :: "('h, 'ev, 'w) txn_env \<Rightarrow> ('h, 'ev) coordinator \<times> 'w \<Rightarrow> ('h, 'ev) coordinator \<times> 'w \<Rightarrow> bool"
  for env :: "('h, 'ev, 'w) txn_env" where
  step_begin: "txn_step env (c, w) (begin_txn c, w)"
| step_put: "put_op k v h c = Inr c' \<Longrightarrow> txn_step env (c, w) (c', w)"
| step_delete: "delete_op k h c = Inr c' \<Longrightarrow> txn_step env (c, w) (c', w)"
| step_event: "txn_step env cw (queueEvent env ev cw)"
| step_create: "txn_step env (c, w) (createSavepoint d c, w)"
| step_release: "txn_step env (c, w) (releaseSavepoint d c, w)"
| step_rollback_to: "txn_step env (c, w) (rollbackToSavepoint d c, w)"
| step_derive: "txn_step env (c, w) (queueDerivedOps get source target derive c, w)"
| step_discard: "txn_step env (c, w) (discardOpsFor h c, w)"
| step_register: "txn_step env (c, w) (registerCallbacks cb c, w)"
| step_dispose: "txn_step env (c, w) (disposeCallbacks cb c, w)"
| step_commit: "commit env cw = (cw', threw) \<Longrightarrow> txn_step env cw cw'"
| step_rollback: "txn_step env cw (rollback env cw)"

inductive_cases txn_stepE: "txn_step env cw cw'"

lemma inv_new: "txn_inv new_coordinator"
  by (simp add: txn_inv_def new_coordinator_def savepoints_ok_def)

lemma inv_clear: "txn_inv (clearTransaction c)"
  by (simp add: txn_inv_def clearTransaction_def savepoints_ok_def)

lemma inv_begin: "txn_inv c \<Longrightarrow> txn_inv (begin_txn c)"
  by (simp add: txn_inv_def begin_txn_def savepoints_ok_def)

lemma inv_queue: "txn_inv c \<Longrightarrow> queue_op op c = Inr c' \<Longrightarrow> txn_inv c'"
  by (force simp: txn_inv_def queue_op_def savepoints_ok_def split: if_splits)

lemma inv_event: "txn_inv c \<Longrightarrow> txn_inv (fst (queueEvent env ev (c, w)))"
  by (force simp: txn_inv_def queueEvent_def savepoints_ok_def)

lemma inv_create: "txn_inv c \<Longrightarrow> txn_inv (createSavepoint d c)"
  using inv_begin [of c]
  by (auto simp: createSavepoint_def Let_def txn_inv_def savepoints_ok_def begin_txn_def sorted_wrt_append)

lemma savepoints_ok_take: "savepoints_ok c \<Longrightarrow> savepoints_ok (c\<lparr>savepointStack := take n (savepointStack c)\<rparr>)"
  by (auto simp: savepoints_ok_def sorted_wrt_take dest: in_set_takeD)

lemma inv_release: "txn_inv c \<Longrightarrow> txn_inv (releaseSavepoint d c)"
  by (simp add: releaseSavepoint_def txn_inv_def savepoints_ok_take)

text \<open>A savepoint below another one in the stack points no further into the log.\<close>

lemma savepoint_mono:
  assumes "savepoints_ok c" "d < length (savepointStack c)" "sp \<in> set (take (Suc d) (savepointStack c))"
  shows "opIndex sp \<le> opIndex (savepointStack c ! d)" "eventIndex sp \<le> eventIndex (savepointStack c ! d)"
proof -
  obtain j where "j < length (take (Suc d) (savepointStack c))" "take (Suc d) (savepointStack c) ! j = sp"
    using assms(3) by (metis in_set_conv_nth)
  then have j: "j \<le> d" "savepointStack c ! j = sp" by auto
  have "opIndex sp \<le> opIndex (savepointStack c ! d) \<and> eventIndex sp \<le> eventIndex (savepointStack c ! d)"
  proof (cases "j = d")
    case False
    then show ?thesis using assms(1,2) j unfolding savepoints_ok_def sorted_wrt_iff_nth_less by (metis le_neq_implies_less)
  qed (use j in simp)
  then show "opIndex sp \<le> opIndex (savepointStack c ! d)" "eventIndex sp \<le> eventIndex (savepointStack c ! d)" by auto
qed

lemma rollbackTo_eq:
  assumes "d < length (savepointStack c)"
  shows "rollbackToSavepoint d c = c\<lparr>pendingOps := take (opIndex (savepointStack c ! d)) (pendingOps c),
    pendingEvents := take (eventIndex (savepointStack c ! d)) (pendingEvents c),
    pendingIndex := fold index_op (take (opIndex (savepointStack c ! d)) (pendingOps c)) [],
    savepointStack := take (Suc d) (savepointStack c)\<rparr>"
  using assms by (simp add: rollbackToSavepoint_def Let_def rebuildPendingIndex_def replayOps_def)

lemma inv_rollback_to:
  assumes "txn_inv c"
  shows "txn_inv (rollbackToSavepoint d c)"
proof (cases "d < length (savepointStack c)")
  case True
  have ok: "savepoints_ok c" and act: "inTransaction c" using assms True by (auto simp: txn_inv_def)
  have "savepoints_ok (rollbackToSavepoint d c)"
    using savepoint_mono [OF ok True] savepoints_ok_take [OF ok, of "Suc d"]
    by (auto simp: rollbackTo_eq [OF True] savepoints_ok_def)
  with act show ?thesis by (simp add: txn_inv_def rollbackTo_eq [OF True])
next
  case False
  with assms show ?thesis by (simp add: rollbackToSavepoint_def)
qed

lemma inv_rewrite:
  assumes "txn_inv c"
  shows "txn_inv (rewriteLog e c)"
proof -
  have ok: "savepoints_ok c" using assms by (simp add: txn_inv_def)
  have "savepoints_ok (rewriteLog e c)"
    unfolding savepoints_ok_def
  proof (intro conjI ballI)
    have "sorted_wrt (\<lambda>a b. opIndex a \<le> opIndex b \<and> eventIndex a \<le> eventIndex b) (savepointStack c)"
      using ok by (simp add: savepoints_ok_def)
    then show "sorted_wrt (\<lambda>a b. opIndex a \<le> opIndex b \<and> eventIndex a \<le> eventIndex b) (savepointStack (rewriteLog e c))"
      unfolding rewriteLog_eq [OF ok] by (auto simp: sorted_wrt_map expand_all_mono elim: sorted_wrt_mono_rel [rotated])
    fix sp assume "sp \<in> set (savepointStack (rewriteLog e c))"
    then obtain sp0 where sp0: "sp0 \<in> set (savepointStack c)"
      "sp = sp0\<lparr>opIndex := length (expand_all e 0 (take (opIndex sp0) (pendingOps c)))\<rparr>"
      unfolding rewriteLog_eq [OF ok] by auto
    then show "opIndex sp \<le> length (pendingOps (rewriteLog e c))" "eventIndex sp \<le> length (pendingEvents (rewriteLog e c))"
      using ok expand_all_mono [of "opIndex sp0" "length (pendingOps c)" e 0 "pendingOps c"]
      by (auto simp: rewriteLog_eq [OF ok] savepoints_ok_def)
  qed
  with assms show ?thesis by (simp add: txn_inv_def rewriteLog_eq [OF ok])
qed

lemma inv_step: "txn_step env cw cw' \<Longrightarrow> txn_inv (fst cw) \<Longrightarrow> txn_inv (fst cw')"
proof (induction rule: txn_step.induct)
  case (step_event cw ev)
  then show ?case using inv_event [of "fst cw" env ev "snd cw"] by simp
next
  case (step_commit cw cw' threw)
  then show ?case by (auto simp: commit_def inv_clear split: prod.splits if_splits)
next
  case (step_rollback cw)
  then show ?case by (auto simp: rollback_def inv_clear split: prod.splits if_splits)
qed (auto simp: inv_begin inv_create inv_release inv_rollback_to inv_rewrite put_op_def delete_op_def queueDerivedOps_def
      discardOpsFor_def Let_def intro: inv_queue, simp_all add: registerCallbacks_def disposeCallbacks_def txn_inv_def savepoints_ok_def)

lemma inv_reachable: "(txn_step env)\<^sup>*\<^sup>* (new_coordinator, w) cw \<Longrightarrow> txn_inv (fst cw)"
  by (induction rule: rtranclp_induct) (auto simp: inv_new inv_step)

section \<open>Savepoints\<close>

text \<open>What may happen while a savepoint of depth \<open>d\<close> is open, without closing it.\<close>

inductive inner_step :: "nat \<Rightarrow> ('h, 'ev) coordinator \<Rightarrow> ('h, 'ev) coordinator \<Rightarrow> bool" for d :: nat where
  inner_op: "queue_op op c = Inr c' \<Longrightarrow> inner_step d c c'"
| inner_event: "queueEvent env ev (c, ()) = (c', ()) \<Longrightarrow> inner_step d c c'"
| inner_create: "inner_step d c (createSavepoint n c)"
| inner_release: "d < t \<Longrightarrow> inner_step d c (releaseSavepoint t c)"
| inner_rollback_to: "d \<le> t \<Longrightarrow> inner_step d c (rollbackToSavepoint t c)"

inductive_cases inner_stepE: "inner_step d c c'"

definition extends :: "nat \<Rightarrow> ('h, 'ev) coordinator \<Rightarrow> ('h, 'ev) coordinator \<Rightarrow> bool" where
  "extends d c1 c2 \<longleftrightarrow> inTransaction c2 \<and> txn_inv c2 \<and> callbacks c2 = callbacks c1 \<and>
     take (Suc d) (savepointStack c2) = savepointStack c1 \<and>
     take (length (pendingOps c1)) (pendingOps c2) = pendingOps c1 \<and>
     take (length (pendingEvents c1)) (pendingEvents c2) = pendingEvents c1"

lemma take_append_prefix: "take n xs = ys \<Longrightarrow> n = length ys \<Longrightarrow> take n (xs @ zs) = ys"
  by (metis append_take_drop_id length_take min.absorb_iff2 nat_le_linear take_all take_append take_take append.assoc append_eq_conv_conj)

lemma inner_extends:
  assumes "length (savepointStack c1) = Suc d"
    "savepointStack c1 ! d = \<lparr>opIndex = length (pendingOps c1), eventIndex = length (pendingEvents c1)\<rparr>"
  shows "inner_step d c2 c3 \<Longrightarrow> extends d c1 c2 \<Longrightarrow> extends d c1 c3"
proof (induction rule: inner_step.induct)
  case (inner_op op c c')
  then have "txn_inv c'" using inv_queue by (auto simp: extends_def)
  then show ?case using inner_op take_append_prefix [of "length (pendingOps c1)" "pendingOps c" "pendingOps c1" "[op]"]
    by (auto simp: extends_def queue_op_def split: if_splits)
next
  case (inner_event env ev c c')
  then have "txn_inv c'" using inv_event [of c env ev "()"] by (auto simp: extends_def)
  then show ?case
    using inner_event take_append_prefix [of "length (pendingEvents c1)" "pendingEvents c" "pendingEvents c1" "[ev]"]
    by (auto simp: extends_def queueEvent_def split: if_splits)
next
  case (inner_create c n)
  have "take (Suc d) (savepointStack c @ [x]) = savepointStack c1" for x
    using inner_create assms(1) by (intro take_append_prefix) (auto simp: extends_def)
  with inner_create inv_create [of c n] show ?case by (auto simp: extends_def createSavepoint_def Let_def)
next
  case (inner_release t c)
  then show ?case using inv_release [of c t] by (auto simp: extends_def releaseSavepoint_def min_def)
next
  case (inner_rollback_to t c)
  show ?case
  proof (cases "t < length (savepointStack c)")
    case True
    have ok: "savepoints_ok c" using inner_rollback_to by (auto simp: extends_def txn_inv_def)
    have d: "d < length (savepointStack c)" using inner_rollback_to(1) True by simp
    have pre: "take (Suc d) (savepointStack c) = savepointStack c1" using inner_rollback_to(2) by (simp add: extends_def)
    have sp: "savepointStack c ! d = \<lparr>opIndex = length (pendingOps c1), eventIndex = length (pendingEvents c1)\<rparr>"
      using nth_take [of d "Suc d" "savepointStack c"] unfolding pre assms(2) by simp
    have "savepointStack c ! d \<in> set (take (Suc t) (savepointStack c))"
      using inner_rollback_to(1) d by (auto simp: in_set_conv_nth intro!: exI [of _ d])
    from savepoint_mono [OF ok True this] sp
    have le: "length (pendingOps c1) \<le> opIndex (savepointStack c ! t)" "length (pendingEvents c1) \<le> eventIndex (savepointStack c ! t)"
      by simp_all
    show ?thesis
      using inner_rollback_to inv_rollback_to [of c t] le unfolding extends_def rollbackTo_eq [OF True]
      by (auto simp: min_def)
  next
    case False
    then show ?thesis using inner_rollback_to by (simp add: rollbackToSavepoint_def)
  qed
qed

lemma inner_extends_star:
  assumes "length (savepointStack c1) = Suc d"
    "savepointStack c1 ! d = \<lparr>opIndex = length (pendingOps c1), eventIndex = length (pendingEvents c1)\<rparr>"
    "(inner_step d)\<^sup>*\<^sup>* c1 c2" "extends d c1 c1"
  shows "extends d c1 c2"
  using assms(3,4) by (induction rule: rtranclp_induct) (auto intro: inner_extends [OF assms(1,2)])

lemma rollback_to_restores:
  assumes "txn_inv c" "inTransaction c"
    "(inner_step (length (savepointStack c)))\<^sup>*\<^sup>* (createSavepoint (length (savepointStack c)) c) c2"
  shows "rollbackToSavepoint (length (savepointStack c)) c2 = createSavepoint (length (savepointStack c)) c"
proof -
  define d where "d = length (savepointStack c)"
  define c1 where "c1 = createSavepoint d c"
  have c1: "length (savepointStack c1) = Suc d"
    "savepointStack c1 ! d = \<lparr>opIndex = length (pendingOps c1), eventIndex = length (pendingEvents c1)\<rparr>"
    "inTransaction c1" using assms(2) by (simp_all add: c1_def createSavepoint_def Let_def d_def)
  have inv: "txn_inv c1" using inv_create [OF assms(1)] by (simp add: c1_def)
  have "extends d c1 c1" using c1 inv by (simp add: extends_def)
  then have ext: "extends d c1 c2"
    using inner_extends_star [OF c1(1,2)] assms(3) by (simp add: c1_def d_def)
  have len: "d < length (savepointStack c2)" and pre: "take (Suc d) (savepointStack c2) = savepointStack c1"
    using ext c1(1) by (auto simp: extends_def) (metis length_take min_less_iff_conj lessI)
  then have sp: "savepointStack c2 ! d = \<lparr>opIndex = length (pendingOps c1), eventIndex = length (pendingEvents c1)\<rparr>"
    using nth_take [of d "Suc d" "savepointStack c2"] c1(2) by simp
  have "rollbackToSavepoint d c2 = c1"
    unfolding rollbackTo_eq [OF len] sp
    using ext inv c1(3) by (intro coordinator.equality) (simp_all add: extends_def txn_inv_def)
  then show ?thesis by (simp add: c1_def d_def)
qed

section \<open>Rewriting the log\<close>

lemma expand_all_cong: "(\<And>j. j < length xs \<Longrightarrow> e (i + j) (xs ! j) = e' (i + j) (xs ! j)) \<Longrightarrow> expand_all e i xs = expand_all e' i xs"
proof (induction xs arbitrary: i)
  case (Cons x xs)
  have "e i x = e' i x" using Cons.prems [of 0] by simp
  moreover have "expand_all e (Suc i) xs = expand_all e' (Suc i) xs"
    by (rule Cons.IH) (use Cons.prems [of "Suc _"] in simp)
  ultimately show ?case by simp
qed simp

lemma expand_all_single: "expand_all (\<lambda>i x. [x]) i xs = xs"
  by (induction xs arbitrary: i) simp_all

lemma rewriteLog_cong:
  assumes "savepoints_ok c" "\<And>j. j < length (pendingOps c) \<Longrightarrow> e j (pendingOps c ! j) = e' j (pendingOps c ! j)"
  shows "rewriteLog e c = rewriteLog e' c"
proof -
  have "expand_all e 0 (take n (pendingOps c)) = expand_all e' 0 (take n (pendingOps c))" for n
    by (rule expand_all_cong) (simp add: assms(2))
  from this this [of "length (pendingOps c)"] show ?thesis by (simp add: rewriteLog_eq [OF assms(1)])
qed

lemma rewriteLog_single:
  assumes "txn_inv c"
  shows "rewriteLog (\<lambda>i op. [op]) c = c"
proof -
  have ok: "savepoints_ok c" using assms by (simp add: txn_inv_def)
  have "map (\<lambda>sp. sp\<lparr>opIndex := length (take (opIndex sp) (pendingOps c))\<rparr>) (savepointStack c) = savepointStack c"
    using ok by (intro map_idI) (auto simp: savepoints_ok_def min_def)
  then show ?thesis using assms
    by (intro coordinator.equality) (simp_all add: rewriteLog_eq [OF ok] expand_all_single txn_inv_def)
qed

lemma rollback_to_rewrite:
  assumes "txn_inv c"
  shows "rollbackToSavepoint d (rewriteLog e c) = rewriteLog e (rollbackToSavepoint d c)"
proof (cases "d < length (savepointStack c)")
  case True
  have ok: "savepoints_ok c" using assms by (simp add: txn_inv_def)
  have ok': "savepoints_ok (rollbackToSavepoint d c)" using inv_rollback_to [OF assms, of d] by (simp add: txn_inv_def)
  have len: "d < length (savepointStack (rewriteLog e c))" using True by (simp add: rewriteLog_eq [OF ok])
  have "take (opIndex sp) (take (opIndex (savepointStack c ! d)) (pendingOps c)) = take (opIndex sp) (pendingOps c)"
    if "sp \<in> set (take (Suc d) (savepointStack c))" for sp
    using savepoint_mono(1) [OF ok True that] by (simp add: min_def)
  then show ?thesis
    using True by (subst rollbackTo_eq [OF len], subst rewriteLog_eq [OF ok'], intro coordinator.equality)
      (simp_all add: rollbackTo_eq [OF True] rewriteLog_eq [OF ok] expand_all_prefix take_map)
next
  case False
  have ok: "savepoints_ok c" using assms by (simp add: txn_inv_def)
  show ?thesis using False by (simp add: rollbackToSavepoint_def rewriteLog_eq [OF ok])
qed

lemma discard_rewrite:
  assumes "txn_inv c"
  shows "discardOpsFor h c = rewriteLog (\<lambda>i op. if po_store op = h then [] else [op]) c"
proof (cases "map_of (pendingIndex c) h")
  case None
  have ok: "savepoints_ok c" using assms by (simp add: txn_inv_def)
  have "ops_for h (pendingOps c) = []" using None assms replay_lookup [of "pendingOps c" h] by (auto simp: txn_inv_def split: if_splits)
  then have "po_store op \<noteq> h" if "op \<in> set (pendingOps c)" for op using that by (auto simp: ops_for_def filter_empty_conv)
  then have "rewriteLog (\<lambda>i op. if po_store op = h then [] else [op]) c = rewriteLog (\<lambda>i op. [op]) c"
    by (intro rewriteLog_cong [OF ok]) simp
  then show ?thesis using None rewriteLog_single [OF assms] by (simp add: discardOpsFor_def)
qed (simp add: discardOpsFor_def)

lemma length_derive_loop [simp]: "length (derive_loop get s t dv latest ops) = length ops"
  by (induction ops arbitrary: latest) (simp_all add: Let_def)

lemma derive_loop_prefix: "derive_loop get s t dv latest (take n ops) = take n (derive_loop get s t dv latest ops)"
proof (induction ops arbitrary: latest n)
  case (Cons op ops)
  then show ?case by (cases n) (simp_all add: Let_def)
qed simp

definition derive_expand :: "'h pending_op list option list \<Rightarrow> nat \<Rightarrow> 'h pending_op \<Rightarrow> 'h pending_op list" where
  "derive_expand D i op = op # (case D ! i of Some ds \<Rightarrow> ds | None \<Rightarrow> [])"

lemma derive_rewrite:
  assumes "txn_inv c"
  shows "queueDerivedOps get s t dv c = rewriteLog (derive_expand (derive_loop get s t dv [] (pendingOps c))) c"
proof (cases "list_ex (\<lambda>d. d \<noteq> None) (derive_loop get s t dv [] (pendingOps c))")
  case True
  then show ?thesis by (simp add: queueDerivedOps_def derive_expand_def [abs_def])
next
  case False
  have ok: "savepoints_ok c" using assms by (simp add: txn_inv_def)
  have "derive_loop get s t dv [] (pendingOps c) ! j = None" if "j < length (pendingOps c)" for j
    using False that by (auto simp: list_ex_length)
  then have "rewriteLog (derive_expand (derive_loop get s t dv [] (pendingOps c))) c = rewriteLog (\<lambda>i op. [op]) c"
    by (intro rewriteLog_cong [OF ok]) (simp add: derive_expand_def)
  then show ?thesis using False rewriteLog_single [OF assms] by (simp add: queueDerivedOps_def)
qed

lemma rollback_to_derive:
  assumes "txn_inv c"
  shows "rollbackToSavepoint d (queueDerivedOps get s t dv c) = queueDerivedOps get s t dv (rollbackToSavepoint d c)"
proof -
  let ?D = "derive_loop get s t dv [] (pendingOps c)" and ?D' = "derive_loop get s t dv [] (pendingOps (rollbackToSavepoint d c))"
  have inv: "txn_inv (rollbackToSavepoint d c)" by (rule inv_rollback_to [OF assms])
  obtain n where n: "pendingOps (rollbackToSavepoint d c) = take n (pendingOps c)"
  proof (cases "d < length (savepointStack c)")
    case True
    then show ?thesis using that rollbackTo_eq [OF True] by simp
  next
    case False
    then show ?thesis using that [of "length (pendingOps c)"] by (simp add: rollbackToSavepoint_def)
  qed
  have "rewriteLog (derive_expand ?D) (rollbackToSavepoint d c) = rewriteLog (derive_expand ?D') (rollbackToSavepoint d c)"
    by (rule rewriteLog_cong) (use inv n in \<open>auto simp: txn_inv_def derive_expand_def derive_loop_prefix\<close>)
  then show ?thesis by (simp add: derive_rewrite [OF assms] derive_rewrite [OF inv] rollback_to_rewrite [OF assms])
qed

subsection \<open>Operations derived for an index built mid-transaction\<close>

fun derived_batch_op :: "key \<times> val option \<Rightarrow> batch_op" where
  "derived_batch_op (k, None) = Delete k"
| "derived_batch_op (k, Some v) = Put k v"

text \<open>The operations the derived structure would have queued, had it been told of each write as it happened.\<close>

fun derive_seq :: "derive_ops \<Rightarrow> kv_map \<Rightarrow> batch_op list \<Rightarrow> batch_op list" where
  "derive_seq dv m [] = []"
| "derive_seq dv m (x # xs) =
     map derived_batch_op (dv (m (op_key x)) (apply_op x m (op_key x))) @ derive_seq dv (apply_op x m) xs"

lemma apply_op_at: "apply_op x m (op_key x) = op_value x" "k \<noteq> op_key x \<Longrightarrow> apply_op x m k = m k"
  by (cases x; simp)+

lemma ops_for_derived: "ops_for h (map (derived_op t) ds) = (if h = t then map derived_batch_op ds else [])"
proof (induction ds)
  case (Cons d ds)
  obtain k v where d: "d = (k, v)" by (cases d)
  show ?case using Cons by (cases v) (auto simp: derived_op_def d)
qed simp

lemma derive_expand_ops:
  assumes "\<And>j. j < length ops \<Longrightarrow> D ! (i + j) = derive_loop get s t dv latest ops ! j"
    and "\<And>k. (case map_of latest (bytesToHex k) of Some v \<Rightarrow> v | None \<Rightarrow> get k) = m k"
    and "s \<noteq> t" "ops_for t ops = []"
  shows "ops_for t (expand_all (derive_expand D) i ops) = derive_seq dv m (ops_for s ops) \<and>
    (h \<noteq> t \<longrightarrow> ops_for h (expand_all (derive_expand D) i ops) = ops_for h ops)"
  using assms
proof (induction ops arbitrary: i latest m)
  case (Cons op ops)
  have nt: "po_store op \<noteq> t" "ops_for t ops = []" using Cons.prems(4) by (auto split: if_splits)
  show ?case
  proof (cases "po_store op = s")
    case False
    have D: "D ! i = None" using Cons.prems(1) [of 0] False by simp
    have "D ! (Suc i + j) = derive_loop get s t dv latest ops ! j" if "j < length ops" for j
      using Cons.prems(1) [of "Suc j"] that False by simp
    from Cons.IH [OF this Cons.prems(2,3) nt(2)] show ?thesis using D False nt(1) by (simp add: derive_expand_def)
  next
    case True
    let ?x = "po_op op" and ?l = "AList.update (bytesToHex (op_key (po_op op))) (op_value (po_op op)) latest"
    have D: "D ! i = Some (map (derived_op t) (dv (m (op_key ?x)) (op_value ?x)))"
      using Cons.prems(1) [of 0] Cons.prems(2) [of "op_key ?x"] True by (simp add: Let_def)
    have tail: "D ! (Suc i + j) = derive_loop get s t dv ?l ops ! j" if "j < length ops" for j
      using Cons.prems(1) [of "Suc j"] that True by (simp add: Let_def)
    have l: "(case map_of ?l (bytesToHex k) of Some v \<Rightarrow> v | None \<Rightarrow> get k) = apply_op ?x m k" for k
      using Cons.prems(2) [of k] by (cases "k = op_key ?x") (simp_all add: AList.update_conv' apply_op_at)
    from Cons.IH [OF tail l Cons.prems(3) nt(2)] show ?thesis
      using D True nt(1) Cons.prems(3) by (simp add: derive_expand_def ops_for_derived apply_op_at)
  qed
qed simp

section \<open>Commit\<close>

locale txn_world =
  fixes env :: "('h, 'ev, 'w) txn_env" and good :: "'w \<Rightarrow> bool" and view :: "'w \<Rightarrow> 'h \<Rightarrow> kv_map"
  assumes write_store_law: "good w \<Longrightarrow> write_store env h ops w = (w', threw) \<Longrightarrow>
      good w' \<and> view w' = (if threw then view w else (view w)(h := apply_ops ops (view w h)))"
    and atomic_law: "good w \<Longrightarrow> atomicBatchFactory env w = Some wr \<Longrightarrow> wr hops w = (w', threw) \<Longrightarrow>
      good w' \<and> view w' = (if threw then view w else (\<lambda>h. apply_ops (map snd (filter (\<lambda>x. fst x = h) hops)) (view w h)))"
    and emit_law: "good w \<Longrightarrow> emitDataChange env = Some f \<Longrightarrow> good (f ev w) \<and> view (f ev w) = view w"
    and onCommit_law: "good w \<Longrightarrow> onCommit env cb w = (w', threw) \<Longrightarrow> good w' \<and> view w' = view w"
    and onRollback_law: "good w \<Longrightarrow> good (onRollback env cb w) \<and> view (onRollback env cb w) = view w"

lemma group_ops_snoc: "group_ops (xs @ [x]) = AList.update (po_store x)
    ((case map_of (group_ops xs) (po_store x) of Some ops \<Rightarrow> ops | None \<Rightarrow> []) @ [po_op x]) (group_ops xs)"
  by (simp add: group_ops_def)

lemma group_ops_lookup: "map_of (group_ops oplog) h = (if ops_for h oplog = [] then None else Some (ops_for h oplog))"
proof (induction oplog rule: rev_induct)
  case Nil
  then show ?case by (simp add: group_ops_def)
next
  case (snoc x xs)
  then show ?case by (cases "po_store x = h") (auto simp: group_ops_snoc AList.update_conv')
qed

lemma group_ops_distinct: "distinct (map fst (group_ops oplog))"
proof (induction oplog rule: rev_induct)
  case Nil
  then show ?case by (simp add: group_ops_def)
next
  case (snoc x xs)
  then show ?case by (simp add: group_ops_snoc AList.distinct_update)
qed

lemma flatten_groups:
  "distinct (map fst gs) \<Longrightarrow> map snd (filter (\<lambda>x. fst x = h) (concat (map (\<lambda>(s, ops). map (Pair s) ops) gs))) =
    (case map_of gs h of Some ops \<Rightarrow> ops | None \<Rightarrow> [])"
proof (induction gs)
  case (Cons g gs)
  obtain s ops where g: "g = (s, ops)" by (cases g)
  have "h \<notin> fst ` set gs" if "s = h" using Cons.prems that g by simp
  then have "map_of gs h = None" if "s = h" using that by (simp add: map_of_eq_None_iff)
  with Cons g show ?case by (auto simp: filter_map comp_def split: option.splits)
qed simp

context txn_world
begin

lemma write_batches_law:
  assumes "write_batches env gs w = (w', threw)" "good w" "distinct (map fst gs)"
  shows "good w' \<and> (\<forall>h. view w' h = view w h \<or> view w' h = (case map_of gs h of Some ops \<Rightarrow> apply_ops ops (view w h) | None \<Rightarrow> view w h)) \<and>
    (\<not> threw \<longrightarrow> (\<forall>h. view w' h = (case map_of gs h of Some ops \<Rightarrow> apply_ops ops (view w h) | None \<Rightarrow> view w h)))"
  using assms
proof (induction gs arbitrary: w)
  case (Cons g gs)
  obtain s ops where g: "g = (s, ops)" by (cases g)
  obtain w1 t where w1: "write_store env s ops w = (w1, t)" by (cases "write_store env s ops w")
  note law = write_store_law [OF Cons.prems(2) w1]
  have s: "map_of gs s = None" using Cons.prems(3) g by (simp add: map_of_eq_None_iff)
  show ?case
  proof (cases t)
    case True
    then show ?thesis using Cons.prems(1) law w1 by (auto simp: g)
  next
    case False
    then have rest: "write_batches env gs w1 = (w', threw)" using Cons.prems(1) w1 by (simp add: g)
    note IH = Cons.IH [OF rest] 
    have w1s: "view w1 s = apply_ops ops (view w s)" and w1h: "h \<noteq> s \<Longrightarrow> view w1 h = view w h" for h
      using law False by simp_all
    have goal: "(case map_of gs h of Some ops \<Rightarrow> apply_ops ops (view w1 h) | None \<Rightarrow> view w1 h) =
      (case map_of (g # gs) h of Some ops \<Rightarrow> apply_ops ops (view w h) | None \<Rightarrow> view w h)" for h
      using s w1s w1h [of h] by (cases "h = s"; cases "map_of gs h") (simp_all add: g)
    have "view w1 h = view w h \<or> view w1 h = (case map_of (g # gs) h of Some ops \<Rightarrow> apply_ops ops (view w h) | None \<Rightarrow> view w h)" for h
      using w1s w1h [of h] by (cases "h = s"; cases "map_of gs h") (simp_all add: g)
    moreover have "good w1" "distinct (map fst gs)" using law Cons.prems(3) by simp_all
    ultimately show ?thesis using IH unfolding goal by metis
  qed
qed auto

lemma flush_law:
  assumes "flush_ops env oplog w = (w', threw)" "good w"
  shows "good w' \<and> (\<forall>h. view w' h = view w h \<or> view w' h = apply_ops (ops_for h oplog) (view w h)) \<and>
    (\<not> threw \<longrightarrow> view w' = (\<lambda>h. apply_ops (ops_for h oplog) (view w h))) \<and>
    (threw \<and> atomicBatchFactory env w \<noteq> None \<longrightarrow> view w' = view w)"
proof (cases "oplog = []")
  case True
  then show ?thesis using assms by (auto simp: flush_ops_def)
next
  case False
  have groups: "(case map_of (group_ops oplog) h of Some ops \<Rightarrow> apply_ops ops m | None \<Rightarrow> m) = apply_ops (ops_for h oplog) m" for h m
    by (simp add: group_ops_lookup)
  show ?thesis
  proof (cases "atomicBatchFactory env w")
    case None
    then have "write_batches env (group_ops oplog) w = (w', threw)" using assms(1) False by (simp add: flush_ops_def)
    from write_batches_law [OF this assms(2) group_ops_distinct] None show ?thesis by (auto simp: groups)
  next
    case (Some wr)
    have ops: "map snd (filter (\<lambda>x. fst x = h) (concat (map (\<lambda>(s, ops). map (Pair s) ops) (group_ops oplog)))) = ops_for h oplog" for h
      by (simp add: flatten_groups [OF group_ops_distinct] group_ops_lookup)
    have "wr (concat (map (\<lambda>(s, ops). map (Pair s) ops) (group_ops oplog))) w = (w', threw)"
      using assms(1) False Some by (simp add: flush_ops_def)
    from atomic_law [OF assms(2) Some this] show ?thesis by (auto simp: ops)
  qed
qed

lemma emit_all_law: "good w \<Longrightarrow> good (emit_all env evs w) \<and> view (emit_all env evs w) = view w"
proof (cases "emitDataChange env")
  case (Some f)
  have "good w \<Longrightarrow> good (fold f evs w) \<and> view (fold f evs w) = view w"
    by (induction evs arbitrary: w) (simp_all add: emit_law [OF _ Some])
  then show "good w \<Longrightarrow> ?thesis" by (simp add: emit_all_def Some)
qed (simp add: emit_all_def)

lemma notify_law: "notify_commit env cbs w = (w', threw) \<Longrightarrow> good w \<Longrightarrow> good w' \<and> view w' = view w"
proof (induction cbs arbitrary: w)
  case (Cons cb cbs)
  obtain w1 t where w1: "onCommit env cb w = (w1, t)" by (cases "onCommit env cb w")
  from onCommit_law [OF Cons.prems(2) w1] Cons w1 show ?case by (cases t) auto
qed simp

lemma rollback_callbacks_law: "good w \<Longrightarrow> good (fold (onRollback env) cbs w) \<and> view (fold (onRollback env) cbs w) = view w"
  by (induction cbs arbitrary: w) (simp_all add: onRollback_law)

lemma commit_law:
  assumes "commit env (c, w) = ((c', w'), threw)" "good w" "inTransaction c"
  shows "c' = clearTransaction c \<and> good w' \<and>
    (\<not> threw \<longrightarrow> view w' = (\<lambda>h. apply_ops (ops_for h (pendingOps c)) (view w h))) \<and>
    (\<forall>h. view w' h = view w h \<or> view w' h = apply_ops (ops_for h (pendingOps c)) (view w h)) \<and>
    (atomicBatchFactory env w \<noteq> None \<longrightarrow>
       view w' = view w \<or> view w' = (\<lambda>h. apply_ops (ops_for h (pendingOps c)) (view w h)))"
proof -
  obtain w1 t1 where w1: "flush_ops env (pendingOps c) w = (w1, t1)" by (cases "flush_ops env (pendingOps c) w")
  obtain w2 t2 where w2: "commit_body env c w = (w2, t2)" by (cases "commit_body env c w")
  have final: "c' = clearTransaction c" "threw = t2" "w' = (if t2 then fold (onRollback env) (callbacks c) w2 else w2)"
    using assms(1,3) w2 by (simp_all add: commit_def split: if_splits)
  note f = flush_law [OF w1 assms(2)]
  have body: "good w2 \<and> view w2 = view w1 \<and> (t1 \<longrightarrow> t2)"
  proof (cases t1)
    case True
    then show ?thesis using w2 w1 f by (auto simp: commit_body_def)
  next
    case False
    then have "notify_commit env (callbacks c) (emit_all env (pendingEvents c) w1) = (w2, t2)"
      using w2 w1 by (simp add: commit_body_def)
    from notify_law [OF this] emit_all_law [of w1 "pendingEvents c"] f False show ?thesis by simp
  qed
  have "good w' \<and> view w' = view w1" using body final(3) rollback_callbacks_law [of w2 "callbacks c"] by simp
  then show ?thesis using f body final(1,2) by (cases t1) auto
qed

end

text \<open>
  The coordinator over in-memory stores, with a commit domain that spans them or without one;
  the callbacks only record that they ran.
\<close>

record 'ev mem_world =
  mw_stores :: "nat \<Rightarrow> mem_store"
  mw_events :: "'ev list"
  mw_calls :: "(bool \<times> nat) list"

definition mem_world_write :: "nat \<Rightarrow> batch_op list \<Rightarrow> 'ev mem_world \<Rightarrow> 'ev mem_world \<times> bool" where
  "mem_world_write h ops w = (case mem_write (mw_stores w h) ops of
     Inr s \<Rightarrow> (w\<lparr>mw_stores := (mw_stores w)(h := s)\<rparr>, False)
   | Inl e \<Rightarrow> (w, True))"

definition mem_world_atomic :: "(nat \<times> batch_op) list \<Rightarrow> 'ev mem_world \<Rightarrow> 'ev mem_world \<times> bool" where
  "mem_world_atomic hops w =
     (w\<lparr>mw_stores := (\<lambda>h. case mem_write (mw_stores w h) (map snd (filter (\<lambda>x. fst x = h) hops)) of
        Inr s \<Rightarrow> s | Inl e \<Rightarrow> mw_stores w h)\<rparr>, False)"

definition mem_env :: "bool \<Rightarrow> (nat, 'ev, 'ev mem_world) txn_env" where
  "mem_env atomic = \<lparr>write_store = mem_world_write,
     atomicBatchFactory = (\<lambda>w. if atomic then Some mem_world_atomic else None),
     emitDataChange = Some (\<lambda>ev w. w\<lparr>mw_events := mw_events w @ [ev]\<rparr>),
     onCommit = (\<lambda>cb w. (w\<lparr>mw_calls := mw_calls w @ [(True, cb)]\<rparr>, False)),
     onRollback = (\<lambda>cb w. w\<lparr>mw_calls := mw_calls w @ [(False, cb)]\<rparr>)\<rparr>"

definition mw_good :: "'ev mem_world \<Rightarrow> bool" where
  "mw_good w \<longleftrightarrow> (\<forall>h. mem_opened (mw_stores w h))"

definition mw_view :: "'ev mem_world \<Rightarrow> nat \<Rightarrow> kv_map" where
  "mw_view w h = mem_contents (mw_stores w h)"

interpretation mem_txn: txn_world "mem_env atomic" mw_good mw_view for atomic
proof (unfold_locales, goal_cases)
  case (1 w h ops w' threw)
  obtain s where s: "mem_write (mw_stores w h) ops = Inr s" "mem_opened s" "mem_contents s = apply_ops ops (mem_contents (mw_stores w h))"
    using mem_write_ok [of "mw_stores w h" ops] 1(1) by (auto simp: mw_good_def)
  then show ?case using 1 by (auto simp: mem_env_def mem_world_write_def mw_good_def mw_view_def)
next
  case (2 w wr hops w' threw)
  have "\<exists>s. mem_write (mw_stores w h) xs = Inr s \<and> mem_opened s \<and> mem_contents s = apply_ops xs (mem_contents (mw_stores w h))" for h xs
    using mem_write_ok [of "mw_stores w h" xs] 2(1) by (simp add: mw_good_def)
  then have s: "mem_opened (case mem_write (mw_stores w h) xs of Inr s \<Rightarrow> s | Inl e \<Rightarrow> mw_stores w h)"
    "mem_contents (case mem_write (mw_stores w h) xs of Inr s \<Rightarrow> s | Inl e \<Rightarrow> mw_stores w h) = apply_ops xs (mem_contents (mw_stores w h))" for h xs
    by (auto split: sum.splits) (metis sum.inject(2) sum.distinct(1))+
  then show ?case using 2 by (auto simp: mem_env_def mem_world_atomic_def mw_good_def mw_view_def split: if_splits)
qed (auto simp: mem_env_def mw_good_def mw_view_def)

text \<open>A concrete transaction for the instances below: one buffered write.\<close>

definition example_coordinator :: "(nat, nat) coordinator" where
  "example_coordinator = \<lparr>inTransaction = True, pendingOps = [\<lparr>po_store = 0, po_op = Put [1] [10]\<rparr>], pendingEvents = [],
     savepointStack = [], callbacks = [],
     pendingIndex = [(0, \<lparr>puts = [(bytesToHex [1], [1], [10])], deletes = []\<rparr>)]\<rparr>"

lemma example_reachable: "(txn_step (mem_env True))\<^sup>*\<^sup>* (new_coordinator, w) (example_coordinator, w)"
proof -
  have "put_op [1] [10] 0 (begin_txn new_coordinator) = Inr example_coordinator"
    by (simp add: put_op_def queue_op_def begin_txn_def new_coordinator_def example_coordinator_def index_op_def bucketIn_def)
  from step_begin [of "mem_env True" new_coordinator w] step_put [OF this, of "mem_env True" w] show ?thesis
    by (meson r_into_rtranclp rtranclp_trans)
qed

section \<open>Properties\<close>

text \<open>
  C21. In every state a coordinator can reach, its index shows a reader exactly the effect of the
  buffered operations of each store, in order, over what is committed; the savepoints are
  nested inside the log; and outside a transaction nothing is buffered.
\<close>

theorem coordinator_invariant:
  assumes "(txn_step env)\<^sup>*\<^sup>* (new_coordinator, w0) (c, w)"
  shows "bucket_view (getPendingOpsForStore c h) m = apply_ops (ops_for h (pendingOps c)) m \<and>
    savepoints_ok c \<and> (\<not> inTransaction c \<longrightarrow> pendingOps c = [] \<and> pendingEvents c = [] \<and> savepointStack c = [])"
proof -
  have inv: "txn_inv c" using inv_reachable [OF assms] by simp
  then have "map_of (pendingIndex c) h = (if ops_for h (pendingOps c) = [] then None else Some (bucket_of (ops_for h (pendingOps c))))"
    using replay_lookup [of "pendingOps c" h] by (simp add: txn_inv_def)
  then have "getPendingOpsForStore c h = bucket_of (ops_for h (pendingOps c))"
    by (simp add: getPendingOpsForStore_def bucket_of_def)
  with inv show ?thesis by (simp add: bucket_of_view txn_inv_def)
qed

theorem coordinator_invariant_witness:
  "bucket_view (getPendingOpsForStore example_coordinator 0) Map.empty = apply_ops [Put [1] [10]] Map.empty \<and>
   savepoints_ok example_coordinator"
proof -
  have "ops_for 0 (pendingOps example_coordinator) = [Put [1] [10]]" by (simp add: example_coordinator_def)
  then show ?thesis using coordinator_invariant [OF example_reachable, of 0 Map.empty] by simp
qed

text \<open>
  C22. Rolling back to a savepoint restores the coordinator to the state it had when the savepoint
  was created, the savepoint still open, whatever writes, events and inner savepoints came
  between.
\<close>

theorem rollback_to_savepoint_restores:
  assumes "(txn_step env)\<^sup>*\<^sup>* (new_coordinator, w0) (c, w)" "inTransaction c"
    "(inner_step (length (savepointStack c)))\<^sup>*\<^sup>* (createSavepoint (length (savepointStack c)) c) c2"
  shows "rollbackToSavepoint (length (savepointStack c)) c2 = createSavepoint (length (savepointStack c)) c"
  using rollback_to_restores [OF _ assms(2,3)] inv_reachable [OF assms(1)] by simp

theorem rollback_to_savepoint_restores_witness:
  "\<exists>c2. put_op [2] [20] 0 (createSavepoint 0 example_coordinator) = Inr c2 \<and> c2 \<noteq> createSavepoint 0 example_coordinator \<and>
    rollbackToSavepoint 0 c2 = createSavepoint 0 example_coordinator"
proof -
  obtain c2 where c2: "put_op [2] [20] 0 (createSavepoint 0 example_coordinator) = Inr c2" "c2 \<noteq> createSavepoint 0 example_coordinator"
    by (simp add: put_op_def queue_op_def createSavepoint_def example_coordinator_def)
  have stack: "savepointStack example_coordinator = []" "inTransaction example_coordinator" by (simp_all add: example_coordinator_def)
  have "(inner_step 0)\<^sup>*\<^sup>* (createSavepoint 0 example_coordinator) c2"
    using c2(1) by (auto simp: put_op_def intro: inner_op)
  with rollback_to_savepoint_restores [OF example_reachable stack(2), of c2] c2 show ?thesis by (auto simp: stack(1))
qed

text \<open>
  C23. Deriving index operations into the log, or discarding those of a store, respects the open
  savepoints: rolling back afterwards gives the same coordinator as rolling back first and
  rewriting the shorter log.
\<close>

theorem rewrite_commutes_with_rollback_to:
  assumes "(txn_step env)\<^sup>*\<^sup>* (new_coordinator, w0) (c, w)"
  shows "rollbackToSavepoint d (queueDerivedOps get source target derive c) =
      queueDerivedOps get source target derive (rollbackToSavepoint d c) \<and>
    rollbackToSavepoint d (discardOpsFor h c) = discardOpsFor h (rollbackToSavepoint d c)"
proof -
  have inv: "txn_inv c" using inv_reachable [OF assms] by simp
  show ?thesis
    using rollback_to_derive [OF inv] rollback_to_rewrite [OF inv]
    by (simp add: discard_rewrite [OF inv] discard_rewrite [OF inv_rollback_to [OF inv]])
qed

theorem rewrite_commutes_with_rollback_to_witness:
  "rollbackToSavepoint 0 (queueDerivedOps (\<lambda>k. None) 0 1 (\<lambda>b a. [([7], a)]) example_coordinator) =
      queueDerivedOps (\<lambda>k. None) 0 1 (\<lambda>b a. [([7], a)]) (rollbackToSavepoint 0 example_coordinator) \<and>
   rollbackToSavepoint 0 (discardOpsFor 0 example_coordinator) = discardOpsFor 0 (rollbackToSavepoint 0 example_coordinator)"
  by (rule rewrite_commutes_with_rollback_to) (rule example_reachable)

text \<open>
  C24. An index built in the middle of a transaction gets the operations it would have queued had
  it existed from the start: for each buffered write to its source, in order, what the write
  owes given the value before it and after it. The operations of other stores stay as they are.
\<close>

theorem queueDerivedOps_correct:
  assumes "(txn_step env)\<^sup>*\<^sup>* (new_coordinator, w0) (c, w)" "source \<noteq> target" "ops_for target (pendingOps c) = []"
  shows "ops_for target (pendingOps (queueDerivedOps get source target derive c)) = derive_seq derive get (ops_for source (pendingOps c)) \<and>
    (h \<noteq> target \<longrightarrow> ops_for h (pendingOps (queueDerivedOps get source target derive c)) = ops_for h (pendingOps c))"
proof -
  have inv: "txn_inv c" and ok: "savepoints_ok c" using inv_reachable [OF assms(1)] by (simp_all add: txn_inv_def)
  show ?thesis
    using derive_expand_ops [of "pendingOps c" "derive_loop get source target derive [] (pendingOps c)" 0 get source target derive "[]" get h] assms(2,3)
    by (simp add: derive_rewrite [OF inv] rewriteLog_eq [OF ok])
qed

theorem queueDerivedOps_correct_witness:
  "ops_for 1 (pendingOps (queueDerivedOps (\<lambda>k. Some [5]) 0 1 (\<lambda>b a. [([7], b), ([8], a)]) example_coordinator)) =
     [Put [7] [5], Put [8] [10]] \<and>
   ops_for 0 (pendingOps (queueDerivedOps (\<lambda>k. Some [5]) 0 1 (\<lambda>b a. [([7], b), ([8], a)]) example_coordinator)) =
     [Put [1] [10]]"
proof -
  have ops: "ops_for 0 (pendingOps example_coordinator) = [Put [1] [10]]" "ops_for 1 (pendingOps example_coordinator) = []"
    by (simp_all add: example_coordinator_def)
  from queueDerivedOps_correct [OF example_reachable zero_neq_one ops(2), of "\<lambda>k. Some [5]" "\<lambda>b a. [([7], b), ([8], a)]" 0] ops
  show ?thesis by simp
qed

text \<open>
  C25. Commit, over any stores whose batches are all-or-nothing: a commit that does not throw has
  applied every buffered operation to its store, in order; one that throws leaves each store
  either untouched or with all its operations, and with a commit domain spanning the stores
  all of them alike. Either way the coordinator leaves the transaction with nothing buffered.
\<close>

theorem commit_correct:
  assumes "txn_world env good view" "good w" "inTransaction c" "commit env (c, w) = ((c', w'), threw)"
  shows "c' = clearTransaction c \<and>
    (\<not> threw \<longrightarrow> view w' = (\<lambda>h. apply_ops (ops_for h (pendingOps c)) (view w h))) \<and>
    (\<forall>h. view w' h = view w h \<or> view w' h = apply_ops (ops_for h (pendingOps c)) (view w h)) \<and>
    (atomicBatchFactory env w \<noteq> None \<longrightarrow>
       view w' = view w \<or> view w' = (\<lambda>h. apply_ops (ops_for h (pendingOps c)) (view w h)))"
  using txn_world.commit_law [OF assms(1,4,2,3)] by blast

theorem commit_correct_witness:
  "\<exists>w'. commit (mem_env False) (example_coordinator, \<lparr>mw_stores = (\<lambda>h. new_mem_store), mw_events = [], mw_calls = []\<rparr>) =
      ((clearTransaction example_coordinator, w'), False) \<and>
    mw_view w' 0 = apply_ops [Put [1] [10]] (mem_contents new_mem_store)"
proof -
  define w :: "nat mem_world" where "w = \<lparr>mw_stores = (\<lambda>h. new_mem_store), mw_events = [], mw_calls = []\<rparr>"
  have g: "mw_good w" by (simp add: mw_good_def w_def mem_opened_def new_mem_store_def hex_keyed_def)
  have act: "inTransaction example_coordinator" "ops_for 0 (pendingOps example_coordinator) = [Put [1] [10]]"
    by (simp_all add: example_coordinator_def)
  obtain c' w' threw where r: "commit (mem_env False) (example_coordinator, w) = ((c', w'), threw)"
    by (cases "commit (mem_env False) (example_coordinator, w)") auto
  then have "\<not> threw"
    by (simp add: commit_def commit_body_def flush_ops_def Let_def group_ops_def mem_env_def mem_world_write_def mem_put_def
        checkOpen_def new_mem_store_def w_def example_coordinator_def split: if_splits)
  with commit_correct [OF mem_txn.txn_world_axioms g act(1) r]
  have "c' = clearTransaction example_coordinator" "mw_view w' = (\<lambda>h. apply_ops (ops_for h (pendingOps example_coordinator)) (mw_view w h))"
    by blast+
  with r act(2) \<open>\<not> threw\<close> show ?thesis by (simp add: w_def mw_view_def [of w, unfolded w_def])
qed

end
