(* ===== verification/Effective_Reads.thy ===== *)
theory Effective_Reads
  imports Transaction
begin

text \<open>
  Reading a table inside a transaction (quereus-store/src/common/store-table-base.ts): the merge
  of the committed entries with the operations the coordinator buffers for the store, point
  reads by key, and the states a rollback could return to. The store is any \<open>K\<close> in state \<open>s\<close>
  behind handle \<open>h\<close>; decoding a row is the parameter \<open>deserializeRow\<close>.
\<close>

section \<open>Operations\<close>

fun merge_loop :: "bool \<Rightarrow> js_string list \<Rightarrow> kv_entry list \<Rightarrow> kv_entry list \<Rightarrow> kv_entry list" where
  "merge_loop rv dels ps [] = ps"
| "merge_loop rv dels [] (e # es) =
     (if bytesToHex (fst e) \<in> set dels then merge_loop rv dels [] es else e # merge_loop rv dels [] es)"
| "merge_loop rv dels (p # ps) (e # es) =
     (if (if rv then -1 else 1) * compareBytes (fst p) (fst e) < 0 then p # merge_loop rv dels ps (e # es)
      else if compareBytes (fst p) (fst e) = 0 then p # merge_loop rv dels ps es
      else if bytesToHex (fst e) \<in> set dels then merge_loop rv dels (p # ps) es
      else e # merge_loop rv dels (p # ps) es)"

definition mergeWithPending :: "('s, 'x) kv_ops_scheme \<Rightarrow> 's \<Rightarrow> ordered_pending option \<Rightarrow> iterate_options \<Rightarrow> bool \<Rightarrow> kv_error + kv_entry list" where
  "mergeWithPending K s pending bounds rv =
     (let iterOptions = (if rv then bounds\<lparr>reverse := True\<rparr> else bounds) in
      case pending of
        None \<Rightarrow> op_iterate K s iterOptions
      | Some p \<Rightarrow>
          if ord_puts p = [] \<and> ord_deletes p = [] then op_iterate K s iterOptions
          else let ps = filter (\<lambda>e. keyWithinBounds (fst e) bounds) (ord_puts p);
                 ps' = (if rv then rev ps else ps)
            in case op_iterate K s iterOptions of
                 Inl e \<Rightarrow> Inl e
               | Inr es \<Rightarrow> Inr (merge_loop rv (ord_deletes p) ps' es))"

definition iterateEffective :: "('s, 'x) kv_ops_scheme \<Rightarrow> ('h, 'ev) coordinator option \<Rightarrow> 'h \<Rightarrow> 's \<Rightarrow> iterate_options \<Rightarrow> bool \<Rightarrow> kv_error + kv_entry list" where
  "iterateEffective K coord h s bounds rv =
     mergeWithPending K s
       (case coord of Some c \<Rightarrow> if inTransaction c then Some (getOrderedPendingOps c h) else None | None \<Rightarrow> None) bounds rv"

definition iterateCommittedEntries :: "('s, 'x) kv_ops_scheme \<Rightarrow> 's \<Rightarrow> iterate_options \<Rightarrow> kv_error + kv_entry list" where
  "iterateCommittedEntries K s bounds = op_iterate K s bounds"

definition pendingRowFor :: "(val \<Rightarrow> 'row) \<Rightarrow> pending_bucket option \<Rightarrow> key \<Rightarrow> 'row option option" where
  "pendingRowFor deserializeRow pending k = (case pending of
     None \<Rightarrow> None
   | Some b \<Rightarrow> if bytesToHex k \<in> set (deletes b) then Some None
       else case map_of (puts b) (bytesToHex k) of Some e \<Rightarrow> Some (Some (deserializeRow (snd e))) | None \<Rightarrow> None)"

definition pendingDataOps :: "('h, 'ev) coordinator option \<Rightarrow> 'h \<Rightarrow> pending_bucket option" where
  "pendingDataOps coord h = (case coord of
     Some c \<Rightarrow> if inTransaction c then Some (getPendingOpsForStore c h) else None | None \<Rightarrow> None)"

definition readEffectiveRowByKey :: "('s, 'x) kv_ops_scheme \<Rightarrow> (val \<Rightarrow> 'row) \<Rightarrow> ('h, 'ev) coordinator option \<Rightarrow> 'h \<Rightarrow> 's \<Rightarrow> key \<Rightarrow>
    kv_error + 'row option \<times> 's" where
  "readEffectiveRowByKey K deserializeRow coord h s k = (case pendingRowFor deserializeRow (pendingDataOps coord h) k of
     Some overlay \<Rightarrow> Inr (overlay, s)
   | None \<Rightarrow> (case op_get K s k of Inl e \<Rightarrow> Inl e | Inr (v, s') \<Rightarrow> Inr (map_option deserializeRow v, s')))"

fun overlay_scan :: "(key \<Rightarrow> 'row option option) \<Rightarrow> nat \<Rightarrow> key list \<Rightarrow> 'row option option list \<times> nat list \<times> key list" where
  "overlay_scan ov i [] = ([], [], [])"
| "overlay_scan ov i (k # ks) = (case overlay_scan ov (Suc i) ks of (rows, ps, ms) \<Rightarrow>
     (case ov k of
        Some r \<Rightarrow> (Some r # rows, ps, ms)
      | None \<Rightarrow> (None # rows, i # ps, k # ms)))"

fun fill_misses :: "(val \<Rightarrow> 'row) \<Rightarrow> nat list \<Rightarrow> val option list \<Rightarrow> 'row option option list \<Rightarrow> 'row option option list" where
  "fill_misses deserializeRow (p # ps) (v # vs) rows = fill_misses deserializeRow ps vs (rows[p := Some (map_option deserializeRow v)])"
| "fill_misses deserializeRow ps vs rows = rows"

definition readEffectiveRowsByKeys :: "('s, 'x) kv_ops_scheme \<Rightarrow> (val \<Rightarrow> 'row) \<Rightarrow> ('h, 'ev) coordinator option \<Rightarrow> 'h \<Rightarrow> 's \<Rightarrow> key list \<Rightarrow>
    kv_error + 'row option list \<times> 's" where
  "readEffectiveRowsByKeys K deserializeRow coord h s ks =
     (if ks = [] then Inr ([], s)
      else case overlay_scan (pendingRowFor deserializeRow (pendingDataOps coord h)) 0 ks of (rows, ps, ms) \<Rightarrow>
        if ms = [] then Inr (map the rows, s)
        else case op_getMany K s ms of
          Inl e \<Rightarrow> Inl e
        | Inr (vs, s') \<Rightarrow> Inr (map the (fill_misses deserializeRow ps vs rows), s'))"

text \<open>Full-scan bounds are a parameter here; key-builder.ts computes them.\<close>

definition bufferedRollbackScans :: "('s, 'x) kv_ops_scheme \<Rightarrow> iterate_options \<Rightarrow> ('h, 'ev) coordinator option \<Rightarrow> 'h \<Rightarrow> 's \<Rightarrow> (kv_error + kv_entry list) list" where
  "bufferedRollbackScans K bounds coord h s = (case coord of
     None \<Rightarrow> []
   | Some c \<Rightarrow>
       if \<not> inTransaction c then []
       else let buffered = getPendingOpsForStore c h in
         if puts buffered = [] \<and> deletes buffered = [] then []
         else op_iterate K s bounds #
           map (\<lambda>v. mergeWithPending K s (Some v) bounds False) (getOrderedPendingOpsAtSavepoints c h))"

section \<open>The merge\<close>

lemma iter_before_trans: "iter_before rv a b \<Longrightarrow> iter_before rv b c \<Longrightarrow> iter_before rv a c"
  using key_bytes.cmp_lt_trans [of "fst a" "fst b" "fst c"] key_bytes.cmp_lt_trans [of "fst c" "fst b" "fst a"]
  by (auto simp: iter_before_def split: if_splits)

lemma iter_cases:
  "(if rv then -1 else 1) * compareBytes (fst p) (fst e) < 0 \<longleftrightarrow> iter_before rv p e"
  "\<not> iter_before rv p e \<Longrightarrow> compareBytes (fst p) (fst e) \<noteq> 0 \<Longrightarrow> iter_before rv e p"
  using key_bytes.cmp_flip [of "fst p" "fst e"] by (auto simp: iter_before_def)

lemma merge_loop_spec:
  assumes "sorted_wrt (iter_before rv) ps" "sorted_wrt (iter_before rv) es"
  shows "sorted_wrt (iter_before rv) (merge_loop rv dels ps es) \<and>
    set (merge_loop rv dels ps es) = set ps \<union> {e \<in> set es. fst e \<notin> fst ` set ps \<and> bytesToHex (fst e) \<notin> set dels}"
  using assms
proof (induction rv dels ps es rule: merge_loop.induct)
  case (3 rv dels p ps e es)
  have irr: "\<not> iter_before rv x y" if "fst x = fst y" for x y
    using that key_bytes.cmp_refl [of "fst y"] by (auto simp: iter_before_def)
  consider "iter_before rv p e" | "compareBytes (fst p) (fst e) = 0" | "iter_before rv e p" "compareBytes (fst p) (fst e) \<noteq> 0"
    using iter_cases(2) [of rv p e] by blast
  then show ?case
  proof cases
    case 1
    have IH: "sorted_wrt (iter_before rv) (merge_loop rv dels ps (e # es)) \<and> set (merge_loop rv dels ps (e # es)) =
        set ps \<union> {x \<in> set (e # es). fst x \<notin> fst ` set ps \<and> bytesToHex (fst x) \<notin> set dels}"
      using 3(1) 1 3(5,6) by (simp add: iter_cases(1))
    have after: "iter_before rv p x" if "x \<in> set (e # es)" for x using that 1 3(6) iter_before_trans by fastforce
    then have "fst x \<noteq> fst p" if "x \<in> set (e # es)" for x using that irr by metis
    then show ?thesis using IH after 3(5) 1 by (auto simp: iter_cases(1))
  next
    case 2
    have same: "fst p = fst e" using 2 key_bytes.cmp_eq_iff [of "fst p" "fst e"] by simp
    have IH: "sorted_wrt (iter_before rv) (merge_loop rv dels ps es) \<and> set (merge_loop rv dels ps es) =
        set ps \<union> {x \<in> set es. fst x \<notin> fst ` set ps \<and> bytesToHex (fst x) \<notin> set dels}"
      using 3(2) 2 3(5,6) irr [OF same] by (simp add: iter_cases(1))
    have after: "iter_before rv p x" if "x \<in> set es" for x using that 3(6) same by (auto simp: iter_before_def)
    then have "fst x \<noteq> fst p" if "x \<in> set es" for x using that irr by metis
    then show ?thesis using IH after 3(5) 2 same irr [OF same] by (auto simp: iter_cases(1))
  next
    case c: 3
    have np: "\<not> iter_before rv p e" using c(1) iter_before_trans irr by blast
    have before: "iter_before rv e x" if "x \<in> set (p # ps)" for x using that c(1) 3(5) iter_before_trans by fastforce
    then have ne: "fst e \<notin> fst ` set (p # ps)" using irr by (metis imageE)
    have IH: "sorted_wrt (iter_before rv) (merge_loop rv dels (p # ps) es) \<and> set (merge_loop rv dels (p # ps) es) =
        set (p # ps) \<union> {x \<in> set es. fst x \<notin> fst ` set (p # ps) \<and> bytesToHex (fst x) \<notin> set dels}"
      using 3(3,4) c np 3(5,6) by (cases "bytesToHex (fst e) \<in> set dels") (simp_all add: iter_cases(1))
    then show ?thesis using before ne 3(6) c np by (auto simp: iter_cases(1))
  qed
qed auto

lemma sort_entries:
  assumes "distinct (map fst xs)"
  shows "key_sorted (sort_cmp (\<lambda>x y. compareBytes (fst x) (fst y)) xs)"
proof -
  have "comparator_on UNIV (\<lambda>x y :: kv_entry. compareBytes (fst x) (fst y))"
    by (rule comparator_on.vimage [OF key_bytes.comparator_on_axioms]) simp
  then have "sorted_cmp (\<lambda>x y. compareBytes (fst x) (fst y)) (sort_cmp (\<lambda>x y. compareBytes (fst x) (fst y)) xs)"
    using comparator_on.sorted_sort_cmp [of UNIV] by blast
  moreover have "distinct (map fst (sort_cmp (\<lambda>x y. compareBytes (fst x) (fst y)) xs))"
    using assms mset_eq_imp_distinct_iff [of "map fst (sort_cmp (\<lambda>x y. compareBytes (fst x) (fst y)) xs)" "map fst xs"] by simp
  ultimately show ?thesis unfolding key_sorted_def using key_bytes.strict_iff by (auto simp: sorted_wrt_map)
qed

lemma bucket_puts:
  assumes "bucket_ok b"
  shows "distinct (map fst (map snd (puts b)))" "map_of (map snd (puts b)) k = map_option snd (map_of (puts b) (bytesToHex k))"
proof -
  have hk: "hex_keyed (puts b)" using assms by (simp add: bucket_ok_def)
  have "map fst (puts b) = map bytesToHex (map fst (map snd (puts b)))" using hex_keyed_member [OF hk] by simp
  then show "distinct (map fst (map snd (puts b)))" using assms by (metis bucket_ok_def distinct_map)
  show "map_of (map snd (puts b)) k = map_option snd (map_of (puts b) (bytesToHex k))" by (rule hex_keyed_map_of [OF hk])
qed

definition pending_view :: "batch_op list \<Rightarrow> ordered_pending" where
  "pending_view ops = orderedView (if ops = [] then None else Some (bucket_of ops))"

lemma pending_view_eq:
  "pending_view ops = \<lparr>ord_puts = sort_cmp (\<lambda>x y. compareBytes (fst x) (fst y)) (map snd (puts (bucket_of ops))),
     ord_deletes = deletes (bucket_of ops)\<rparr>"
  by (auto simp: pending_view_def orderedView_def EMPTY_ORDERED_def bucket_of_def EMPTY_PENDING_def)

lemma merged_map:
  assumes "key_sorted ys" "bucket_ok b"
  defines "zs \<equiv> merge_loop False (deletes b) (sort_cmp (\<lambda>x y. compareBytes (fst x) (fst y)) (map snd (puts b))) ys"
  shows "key_sorted zs" "map_of zs = bucket_view b (map_of ys)"
    "set zs = set (map snd (puts b)) \<union> {e \<in> set ys. fst e \<notin> fst ` set (map snd (puts b)) \<and> bytesToHex (fst e) \<notin> set (deletes b)}"
proof -
  note m = merge_loop_spec [of False "sort_cmp (\<lambda>x y. compareBytes (fst x) (fst y)) (map snd (puts b))" ys "deletes b"]
  have srt: "key_sorted (sort_cmp (\<lambda>x y. compareBytes (fst x) (fst y)) (map snd (puts b)))"
    by (rule sort_entries) (rule bucket_puts(1) [OF assms(2)])
  show ks: "key_sorted zs" and set: "set zs = set (map snd (puts b)) \<union>
      {e \<in> set ys. fst e \<notin> fst ` set (map snd (puts b)) \<and> bytesToHex (fst e) \<notin> set (deletes b)}"
    using m srt assms(1) by (simp_all add: zs_def iter_sorted_False)
  show "map_of zs = bucket_view b (map_of ys)"
  proof
    fix k
    note dz = key_sorted_distinct [OF ks] and dy = key_sorted_distinct [OF assms(1)]
    note dp = bucket_puts(1) [OF assms(2)] and lp = bucket_puts(2) [OF assms(2), of k]
    have disj: "map_of (puts b) (bytesToHex k) = None" if "bytesToHex k \<in> set (deletes b)"
      using assms(2) that by (simp add: bucket_ok_def)
    have inp: "k \<in> fst ` set (map snd (puts b)) \<longleftrightarrow> map_of (puts b) (bytesToHex k) \<noteq> None"
      using lp by (metis map_of_eq_None_iff option.map_disc_iff)
    have "map_of zs k = Some v \<longleftrightarrow> bucket_view b (map_of ys) k = Some v" for v
    proof -
      have "map_of zs k = Some v \<longleftrightarrow> (k, v) \<in> set zs" using dz by (rule map_of_eq_Some_iff)
      also have "\<dots> \<longleftrightarrow> (k, v) \<in> set (map snd (puts b)) \<or> (k, v) \<in> set ys \<and> k \<notin> fst ` set (map snd (puts b)) \<and> bytesToHex k \<notin> set (deletes b)"
        unfolding set by simp
      also have "\<dots> \<longleftrightarrow> bucket_view b (map_of ys) k = Some v"
        unfolding inp using disj lp dy map_of_eq_Some_iff [OF dp, of k v] map_of_eq_Some_iff [OF dy, of k v]
        by (auto simp: bucket_view_def split: option.splits)
      finally show ?thesis .
    qed
    then show "map_of zs k = bucket_view b (map_of ys) k" by (metis not_None_eq)
  qed
qed

context kv_contract
begin

lemma merge_pending_law:
  assumes "opened s" "limit bounds = None" "\<not> reverse bounds"
  shows "\<exists>xs. mergeWithPending K s (Some (pending_view ops)) bounds rv = Inr xs \<and>
    scan_of (bounds\<lparr>reverse := rv\<rparr>) (apply_ops ops (contents s)) xs"
proof -
  define b where "b = bucket_of ops"
  have ok: "bucket_ok b" by (simp add: b_def bucket_of_ok)
  define opts where "opts = bounds\<lparr>reverse := rv\<rparr>"
  have opts: "(if rv then bounds\<lparr>reverse := True\<rparr> else bounds) = opts" using assms(3) by (simp add: opts_def)
  have within: "keyWithinBounds k bounds = keyWithinBounds k opts" for k by (simp add: opts_def keyWithinBounds_def)
  obtain xs where xs: "op_iterate K s opts = Inr xs" "scan_of opts (contents s) xs" using iterate_law [OF assms(1)] by blast
  then obtain ys where ys: "key_sorted ys" "map_of ys = contents s" "xs = window opts ys"
    using assms(2) by (auto simp: scan_of_def scan_list_def opts_def)
  define ps where "ps = sort_cmp (\<lambda>x y. compareBytes (fst x) (fst y)) (map snd (puts b))"
  have view: "pending_view ops = \<lparr>ord_puts = ps, ord_deletes = deletes b\<rparr>" by (simp add: pending_view_eq ps_def b_def)
  have eff: "bucket_view b (contents s) = apply_ops ops (contents s)" by (simp add: b_def bucket_of_view)
  show ?thesis
  proof (cases "ps = [] \<and> deletes b = []")
    case True
    then have "puts b = []" using length_sort_cmp [of "\<lambda>x y. compareBytes (fst x) (fst y)" "map snd (puts b)"] by (simp add: ps_def)
    then have "bucket_view b (contents s) = contents s" using True by (intro ext) (simp add: bucket_view_def)
    then show ?thesis using xs True eff by (simp add: mergeWithPending_def Let_def opts view opts_def [symmetric])
  next
    case False
    define zs where "zs = merge_loop False (deletes b) ps ys"
    note z = merged_map [OF ys(1) ok, folded ps_def, folded zs_def]
    have ps: "key_sorted ps" "set ps = set (map snd (puts b))"
      unfolding ps_def by (rule sort_entries [OF bucket_puts(1) [OF ok]]) simp
    have pw: "(if rv then rev (filter (\<lambda>e. keyWithinBounds (fst e) bounds) ps) else filter (\<lambda>e. keyWithinBounds (fst e) bounds) ps) = window opts ps"
      by (simp add: window_def within rev_filter opts_def)
    have rv: "reverse opts = rv" by (simp add: opts_def)
    have "merge_loop rv (deletes b) (window opts ps) (window opts ys) = window opts zs"
    proof (rule iter_sorted_unique)
      note m = merge_loop_spec [of rv "window opts ps" "window opts ys" "deletes b"]
      have wps: "sorted_wrt (iter_before rv) (window opts ps)" and wys: "sorted_wrt (iter_before rv) (window opts ys)"
        using window_sorted [OF ps(1), of opts] window_sorted [OF ys(1), of opts] by (simp_all add: rv)
      show "sorted_wrt (iter_before rv) (merge_loop rv (deletes b) (window opts ps) (window opts ys))" using m [OF wps wys] by simp
      show "sorted_wrt (iter_before rv) (window opts zs)" using window_sorted [OF z(1), of opts] by (simp add: rv)
      have setw: "set (window opts us) = {e \<in> set us. keyWithinBounds (fst e) opts}" for us by (auto simp: window_def)
      show "set (merge_loop rv (deletes b) (window opts ps) (window opts ys)) = set (window opts zs)"
      proof -
        define S where "S = set (map snd (puts b))"
        have "fst e \<in> fst ` {x \<in> S. keyWithinBounds (fst x) opts} \<longleftrightarrow> fst e \<in> fst ` S" if "keyWithinBounds (fst e) opts" for e :: kv_entry
          using that by force
        then show ?thesis
          unfolding setw z(3) ps(2) m [OF wps wys, THEN conjunct2] S_def [symmetric] by blast
      qed
    qed
    then have "mergeWithPending K s (Some (pending_view ops)) bounds rv = Inr (window opts zs)"
      using xs(1) False by (auto simp: mergeWithPending_def Let_def opts view pw ys(3))
    moreover have "scan_of opts (apply_ops ops (contents s)) (window opts zs)"
      unfolding scan_of_def using z(1,2) ys(2) eff assms(2) by (intro exI [of _ zs]) (simp add: scan_list_def opts_def)
    ultimately show ?thesis by (simp add: opts_def)
  qed
qed


lemma point_read_law:
  assumes "opened s"
  shows "\<exists>s'. readEffectiveRowByKey K dr coord h s k =
    Inr (map_option dr (case pendingDataOps coord h of Some b \<Rightarrow> bucket_view b (contents s) k | None \<Rightarrow> contents s k), s')"
  using get_law [OF assms, of k]
  by (auto simp: readEffectiveRowByKey_def pendingRowFor_def bucket_view_def split: option.splits)

end

section \<open>Batched point reads\<close>

lemma overlay_scan_spec:
  assumes "overlay_scan ov i ks = (rows, ps, ms)"
  shows "length rows = length ks \<and> list_all2 (\<lambda>p k. i \<le> p \<and> p < i + length ks \<and> k = ks ! (p - i) \<and> ov k = None) ps ms \<and>
    (\<forall>j < length ks. rows ! j = ov (ks ! j) \<and> (ov (ks ! j) = None \<longrightarrow> i + j \<in> set ps))"
  using assms
proof (induction ks arbitrary: i rows ps ms)
  case (Cons k ks)
  obtain rows1 ps1 ms1 where r: "overlay_scan ov (Suc i) ks = (rows1, ps1, ms1)" by (metis prod_cases3)
  note IH = Cons.IH [OF r]
  have shift: "list_all2 (\<lambda>p x. i \<le> p \<and> p < i + length (k # ks) \<and> x = (k # ks) ! (p - i) \<and> ov x = None) ps1 ms1"
    by (rule list_all2_mono [OF IH [THEN conjunct2, THEN conjunct1]]) (auto simp: nth_Cons' Suc_diff_le)
  show ?case
  proof (cases "ov k")
    case None
    then have e: "rows = None # rows1" "ps = i # ps1" "ms = k # ms1" using Cons.prems r by simp_all
    have "rows ! j = ov ((k # ks) ! j) \<and> (ov ((k # ks) ! j) = None \<longrightarrow> i + j \<in> set ps)" if "j < length (k # ks)" for j
      using that IH None e by (cases j) auto
    then show ?thesis using IH shift None e by simp
  next
    case (Some x)
    then have e: "rows = Some x # rows1" "ps = ps1" "ms = ms1" using Cons.prems r by simp_all
    have "rows ! j = ov ((k # ks) ! j) \<and> (ov ((k # ks) ! j) = None \<longrightarrow> i + j \<in> set ps)" if "j < length (k # ks)" for j
      using that IH Some e by (cases j) auto
    then show ?thesis using IH shift e by simp
  qed
qed simp

lemma fill_misses_spec:
  assumes "list_all2 (\<lambda>p k. p < length ks \<and> k = ks ! p \<and> g k = map_option dr (m k)) ps ms" "length rows = length ks"
    "\<forall>j < length ks. rows ! j = Some (g (ks ! j)) \<or> j \<in> set ps"
  shows "fill_misses dr ps (map m ms) rows = map (Some \<circ> g) ks"
  using assms
proof (induction ps ms arbitrary: rows rule: list_all2_induct)
  case Nil
  then show ?case by (intro nth_equalityI) auto
next
  case (Cons p ps k ms)
  have "\<forall>j < length ks. rows[p := Some (map_option dr (m k))] ! j = Some (g (ks ! j)) \<or> j \<in> set ps"
    using Cons.prems Cons.hyps(1) by (auto simp: nth_list_update)
  then show ?case using Cons.IH [of "rows[p := Some (map_option dr (m k))]"] Cons.prems(1) by simp
qed

context kv_contract
begin

lemma batch_read_law:
  assumes "opened s"
  shows "\<exists>s'. readEffectiveRowsByKeys K dr coord h s ks =
    Inr (map (\<lambda>k. map_option dr (case pendingDataOps coord h of Some b \<Rightarrow> bucket_view b (contents s) k | None \<Rightarrow> contents s k)) ks, s')"
proof -
  let ?ov = "pendingRowFor dr (pendingDataOps coord h)"
  let ?g = "\<lambda>k. map_option dr (case pendingDataOps coord h of Some b \<Rightarrow> bucket_view b (contents s) k | None \<Rightarrow> contents s k)"
  have hit: "?g k = r" if "?ov k = Some r" for k r
    using that by (auto simp: pendingRowFor_def bucket_view_def split: option.splits if_splits)
  have miss: "?g k = map_option dr (contents s k)" if "?ov k = None" for k
    using that by (auto simp: pendingRowFor_def bucket_view_def split: option.splits if_splits)
  obtain rows ps ms where r: "overlay_scan ?ov 0 ks = (rows, ps, ms)" by (metis prod_cases3)
  note sc = overlay_scan_spec [OF r]
  have all: "\<forall>j < length ks. rows ! j = Some (?g (ks ! j)) \<or> j \<in> set ps"
  proof (intro allI impI)
    fix j assume "j < length ks"
    then have "rows ! j = ?ov (ks ! j)" "?ov (ks ! j) = None \<longrightarrow> j \<in> set ps" using sc by simp_all
    then show "rows ! j = Some (?g (ks ! j)) \<or> j \<in> set ps" using hit [of "ks ! j"] by (cases "?ov (ks ! j)") auto
  qed
  have the_map: "map the (map (Some \<circ> f) xs) = map f xs" for f and xs :: "key list" by simp
  have pm: "list_all2 (\<lambda>p k. p < length ks \<and> k = ks ! p \<and> ?g k = map_option dr (contents s k)) ps ms"
    by (rule list_all2_mono [OF sc [THEN conjunct2, THEN conjunct1]]) (use miss in auto)
  have fill: "fill_misses dr ps (map (contents s) ms) rows = map (Some \<circ> ?g) ks"
    by (rule fill_misses_spec [OF pm _ all]) (use sc in simp)
  show ?thesis
  proof (cases "ms = []")
    case True
    then have "ps = []" using pm by simp
    then have "rows = map (Some \<circ> ?g) ks" using fill True by simp
    then show ?thesis unfolding readEffectiveRowsByKeys_def r using True by (auto simp: the_map)
  next
    case False
    obtain s' where "op_getMany K s ms = Inr (map (contents s) ms, s')" using getMany_law [OF assms] by blast
    then show ?thesis unfolding readEffectiveRowsByKeys_def r using False fill by (auto simp: the_map)
  qed
qed

end

section \<open>Properties\<close>

lemma getOrdered_reachable:
  assumes "txn_inv c"
  shows "getOrderedPendingOps c h = pending_view (ops_for h (pendingOps c))"
    "getPendingOpsForStore c h = bucket_of (ops_for h (pendingOps c))"
  using assms replay_lookup [of "pendingOps c" h]
  by (auto simp: getOrderedPendingOps_def getPendingOpsForStore_def pending_view_def txn_inv_def bucket_of_def)

lemma example_simps:
  "inTransaction example_coordinator" "mem_opened new_mem_store"
  "map_of (pendingIndex example_coordinator) 0 = Some \<lparr>puts = [(bytesToHex [1], [1], [10])], deletes = []\<rparr>"
  by (simp_all add: example_coordinator_def mem_opened_def new_mem_store_def hex_keyed_def)

text \<open>
  C26. Reads inside a transaction see its own writes: a scan of a store merges the committed
  entries with the buffered operations into exactly what a scan of the store would yield after
  those operations were applied, in key order either way and within the same bounds.
\<close>

theorem effective_scan_reads_own_writes:
  assumes "kv_contract K opened is_closed contents" "opened s"
    "(txn_step env)\<^sup>*\<^sup>* (new_coordinator, w0) (c, w)" "inTransaction c" "limit bounds = None" "\<not> reverse bounds"
  shows "\<exists>xs. iterateEffective K (Some c) h s bounds rv = Inr xs \<and>
    scan_of (bounds\<lparr>reverse := rv\<rparr>) (apply_ops (ops_for h (pendingOps c)) (contents s)) xs"
proof -
  have inv: "txn_inv c" using inv_reachable [OF assms(3)] by simp
  show ?thesis
    using kv_contract.merge_pending_law [OF assms(1,2,5,6), of "ops_for h (pendingOps c)" rv] assms(4)
    by (simp add: iterateEffective_def getOrdered_reachable(1) [OF inv])
qed

theorem effective_scan_reads_own_writes_witness:
  "\<exists>xs. iterateEffective mem_ops (Some example_coordinator) 0 new_mem_store
      \<lparr>gte = Some [], gt = None, lte = None, lt = None, reverse = False, limit = None\<rparr> True = Inr xs \<and>
    scan_of (\<lparr>gte = Some [], gt = None, lte = None, lt = None, reverse = False, limit = None\<rparr>\<lparr>reverse := True\<rparr>)
      (apply_ops (ops_for 0 (pendingOps example_coordinator)) (mem_contents new_mem_store)) xs"
  by (rule effective_scan_reads_own_writes [OF mem.kv_contract_axioms _ example_reachable]) (simp_all add: example_simps)

text \<open>
  C27. Point reads, one key at a time or batched, return the row the store would hold at the key
  after the buffered operations, and the batch answers position by position.
\<close>

theorem effective_point_reads:
  assumes "kv_contract K opened is_closed contents" "opened s"
    "(txn_step env)\<^sup>*\<^sup>* (new_coordinator, w0) (c, w)" "inTransaction c"
  shows "(\<exists>s'. readEffectiveRowByKey K dr (Some c) h s k =
      Inr (map_option dr (apply_ops (ops_for h (pendingOps c)) (contents s) k), s')) \<and>
    (\<exists>s'. readEffectiveRowsByKeys K dr (Some c) h s ks =
      Inr (map (\<lambda>k. map_option dr (apply_ops (ops_for h (pendingOps c)) (contents s) k)) ks, s'))"
proof -
  have inv: "txn_inv c" using inv_reachable [OF assms(3)] by simp
  show ?thesis
    using kv_contract.point_read_law [OF assms(1,2), of dr "Some c" h k] kv_contract.batch_read_law [OF assms(1,2), of dr "Some c" h ks] assms(4)
    by (simp add: pendingDataOps_def getOrdered_reachable(2) [OF inv] bucket_of_view)
qed

theorem effective_point_reads_witness:
  "(\<exists>s'. readEffectiveRowByKey mem_ops length (Some example_coordinator) 0 new_mem_store [1] =
      Inr (map_option length (apply_ops (ops_for 0 (pendingOps example_coordinator)) (mem_contents new_mem_store) [1]), s')) \<and>
   (\<exists>s'. readEffectiveRowsByKeys mem_ops length (Some example_coordinator) 0 new_mem_store [[2], [1]] =
      Inr (map (\<lambda>k. map_option length (apply_ops (ops_for 0 (pendingOps example_coordinator)) (mem_contents new_mem_store) k)) [[2], [1]], s'))"
  by (rule effective_point_reads [OF mem.kv_contract_axioms _ example_reachable]) (simp_all add: example_simps)

text \<open>
  C28. While a store has buffered operations, the states a rollback could return it to are listed
  faithfully: the committed entries, then for each open savepoint the scan that reading after
  rolling back to it would give.
\<close>

theorem rollback_scans_correct:
  assumes "(txn_step env)\<^sup>*\<^sup>* (new_coordinator, w0) (c, w)" "inTransaction c"
    "puts (getPendingOpsForStore c h) \<noteq> [] \<or> deletes (getPendingOpsForStore c h) \<noteq> []"
  shows "bufferedRollbackScans K bounds (Some c) h s = iterateCommittedEntries K s bounds #
    map (\<lambda>d. iterateEffective K (Some (rollbackToSavepoint d c)) h s bounds False) [0..<length (savepointStack c)]"
proof -
  have "orderedView (map_of (replayOps (pendingOps c) (opIndex (savepointStack c ! d))) h) = getOrderedPendingOps (rollbackToSavepoint d c) h \<and>
      inTransaction (rollbackToSavepoint d c)" if "d < length (savepointStack c)" for d
    using assms(2) by (simp add: rollbackTo_eq [OF that] getOrderedPendingOps_def replayOps_def)
  then have "map (\<lambda>v. mergeWithPending K s (Some v) bounds False) (getOrderedPendingOpsAtSavepoints c h) =
    map (\<lambda>d. iterateEffective K (Some (rollbackToSavepoint d c)) h s bounds False) [0..<length (savepointStack c)]"
    by (intro nth_equalityI) (simp_all add: getOrderedPendingOpsAtSavepoints_def iterateEffective_def)
  then show ?thesis using assms(2,3) by (auto simp: bufferedRollbackScans_def iterateCommittedEntries_def Let_def)
qed

theorem rollback_scans_correct_witness:
  "\<exists>bounds. bounds = \<lparr>gte = Some [], gt = None, lte = None, lt = None, reverse = False, limit = None\<rparr> \<and>
    bufferedRollbackScans mem_ops bounds (Some example_coordinator) 0 new_mem_store =
      iterateCommittedEntries mem_ops new_mem_store bounds #
      map (\<lambda>d. iterateEffective mem_ops (Some (rollbackToSavepoint d example_coordinator)) 0 new_mem_store bounds False)
        [0..<length (savepointStack example_coordinator)]"
  by (rule exI, rule conjI, rule refl, rule rollback_scans_correct [OF example_reachable])
    (simp_all add: example_simps getPendingOpsForStore_def)

end
