(* ===== verification/Merge_Streams.thy ===== *)
theory Merge_Streams
  imports Sql_Compare
begin

text \<open>
  The overlay merge of the isolation layer (quereus-isolation/src/merge-iterator.ts and
  merge-types.ts): uncommitted rows and tombstones of a transaction over the committed rows of a
  table, both sorted by the same key. Streams are the lists of what they yield. Scans in primary
  key order use it; a scan over a secondary index is merged by
  \<open>IsolatedTable.mergedSecondaryIndexQuery\<close> (isolated-table.ts), at the end of the theory.
\<close>

record merge_entry =
  row :: "sql_value list"
  tombstone :: bool
  pk :: "sql_value list"
  sortKey :: "sql_value list"

record merge_config =
  comparePK :: "sql_value list \<Rightarrow> sql_value list \<Rightarrow> int"
  extractPK :: "sql_value list \<Rightarrow> sql_value list"
  compareSortKey :: "(sql_value list \<Rightarrow> sql_value list \<Rightarrow> int) option"
  extractSortKey :: "(sql_value list \<Rightarrow> sql_value list) option"

fun merge_rows :: "(sql_value list \<Rightarrow> sql_value list \<Rightarrow> int) \<Rightarrow> (sql_value list \<Rightarrow> sql_value list) \<Rightarrow>
    merge_entry list \<Rightarrow> sql_value list list \<Rightarrow> sql_value list list" where
  "merge_rows cmpKey keyOf [] us = us"
| "merge_rows cmpKey keyOf (e # es) [] =
     (if \<not> tombstone e then row e # merge_rows cmpKey keyOf es [] else merge_rows cmpKey keyOf es [])"
| "merge_rows cmpKey keyOf (e # es) (u # us) =
     (let c = cmpKey (sortKey e) (keyOf u) in
      if c < 0 then (if \<not> tombstone e then row e # merge_rows cmpKey keyOf es (u # us) else merge_rows cmpKey keyOf es (u # us))
      else if c > 0 then u # merge_rows cmpKey keyOf (e # es) us
      else (if \<not> tombstone e then row e # merge_rows cmpKey keyOf es us else merge_rows cmpKey keyOf es us))"

definition merge_compare :: "merge_config \<Rightarrow> sql_value list \<Rightarrow> sql_value list \<Rightarrow> int" where
  "merge_compare config = (case compareSortKey config of Some f \<Rightarrow> f | None \<Rightarrow> comparePK config)"

definition merge_key :: "merge_config \<Rightarrow> sql_value list \<Rightarrow> sql_value list" where
  "merge_key config = (case extractSortKey config of Some f \<Rightarrow> f | None \<Rightarrow> extractPK config)"

definition mergeStreams :: "merge_entry list \<Rightarrow> sql_value list list \<Rightarrow> merge_config \<Rightarrow> sql_value list list" where
  "mergeStreams overlay underlying config = merge_rows (merge_compare config) (merge_key config) overlay underlying"

definition createMergeEntry :: "sql_value list \<Rightarrow> sql_value list \<Rightarrow> sql_value list option \<Rightarrow> merge_entry" where
  "createMergeEntry r p sk = \<lparr>row = r, tombstone = False, pk = p, sortKey = (case sk of Some k \<Rightarrow> k | None \<Rightarrow> p)\<rparr>"

definition createTombstone :: "sql_value list \<Rightarrow> sql_value list option \<Rightarrow> merge_entry" where
  "createTombstone p sk = \<lparr>row = p, tombstone = True, pk = p, sortKey = (case sk of Some k \<Rightarrow> k | None \<Rightarrow> p)\<rparr>"

section \<open>Scans over a secondary index\<close>

text \<open>
  The three steps of \<open>mergedSecondaryIndexQuery\<close>. An overlay row is a data row followed by its
  tombstone flag. The serializer of primary keys and the constraint matcher of the scan are
  arguments, and a set of strings is the list of its members.
\<close>

fun secondary_merge :: "(sql_value list \<Rightarrow> sql_value list \<Rightarrow> int) \<Rightarrow> (sql_value list \<Rightarrow> bool) \<Rightarrow>
    sql_value list list \<Rightarrow> sql_value list list \<Rightarrow> sql_value list list" where
  "secondary_merge cmp modified os [] = os"
| "secondary_merge cmp modified os (u # us) =
     (if modified u then secondary_merge cmp modified os us
      else takeWhile (\<lambda>x. cmp x u \<le> 0) os @ u # secondary_merge cmp modified (dropWhile (\<lambda>x. cmp x u \<le> 0) os) us)"

definition overlay_live :: "nat \<Rightarrow> sql_value list \<Rightarrow> bool" where
  "overlay_live tombstoneIndex r \<longleftrightarrow> row_at r tombstoneIndex \<noteq> SqlNum 0x3FF0000000000000"

definition overlay_window :: "nat \<Rightarrow> (sql_value list \<Rightarrow> bool) \<Rightarrow> sql_value list list \<Rightarrow> sql_value list list" where
  "overlay_window tombstoneIndex matchesWindow overlay =
     filter matchesWindow (map (take tombstoneIndex) (filter (overlay_live tombstoneIndex) overlay))"

definition mergedSecondaryIndexQuery :: "merge_config \<Rightarrow> (sql_value list \<Rightarrow> js_string) \<Rightarrow> nat \<Rightarrow>
    (sql_value list \<Rightarrow> bool) \<Rightarrow> sql_value list list \<Rightarrow> sql_value list list \<Rightarrow> sql_value list list" where
  "mergedSecondaryIndexQuery config pkShadowKey tombstoneIndex matchesWindow overlay underlying =
     (let modifiedPKs = map pkShadowKey overlay;
        compare = (\<lambda>a b. merge_compare config (merge_key config a) (merge_key config b));
        overlayRows = sort_cmp compare (overlay_window tombstoneIndex matchesWindow overlay)
      in secondary_merge compare (\<lambda>u. pkShadowKey u \<in> set modifiedPKs) overlayRows underlying)"

section \<open>Correctness\<close>

text \<open>
  What the merge should yield, stated without the two cursors: the live overlay rows together
  with the committed rows no overlay entry touches.
\<close>

definition overlaid :: "(sql_value list \<Rightarrow> sql_value list \<Rightarrow> int) \<Rightarrow> (sql_value list \<Rightarrow> sql_value list) \<Rightarrow>
    merge_entry list \<Rightarrow> sql_value list list \<Rightarrow> sql_value list multiset" where
  "overlaid cmpKey keyOf es us = mset (map row (filter (\<lambda>e. \<not> tombstone e) es)) +
     mset (filter (\<lambda>u. \<not> list_ex (\<lambda>e. cmpKey (sortKey e) (keyOf u) = 0) es) us)"

lemma overlaid_Cons_skip:
  assumes "\<And>u. u \<in> set us \<Longrightarrow> cmpKey (sortKey e) (keyOf u) \<noteq> 0"
  shows "overlaid cmpKey keyOf (e # es) us = (if tombstone e then {#} else {#row e#}) + overlaid cmpKey keyOf es us"
proof -
  have "filter (\<lambda>u. \<not> list_ex (\<lambda>e. cmpKey (sortKey e) (keyOf u) = 0) (e # es)) us =
      filter (\<lambda>u. \<not> list_ex (\<lambda>e. cmpKey (sortKey e) (keyOf u) = 0) es) us"
    by (rule filter_cong [OF refl]) (simp add: assms)
  then show ?thesis by (simp add: overlaid_def)
qed

lemma merge_rows_spec:
  assumes "comparator_on A cmpKey"
    "strict_cmp cmpKey (map sortKey es)" "set (map sortKey es) \<subseteq> A"
    "strict_cmp cmpKey (map keyOf us)" "set (map keyOf us) \<subseteq> A"
    "list_all (\<lambda>e. \<not> tombstone e \<longrightarrow> keyOf (row e) = sortKey e) es"
  shows "mset (merge_rows cmpKey keyOf es us) = overlaid cmpKey keyOf es us \<and>
    strict_cmp cmpKey (map keyOf (merge_rows cmpKey keyOf es us)) \<and>
    set (map keyOf (merge_rows cmpKey keyOf es us)) \<subseteq> set (map sortKey es) \<union> set (map keyOf us)"
  using assms
proof (induction cmpKey keyOf es us rule: merge_rows.induct)
  case (1 cmpKey keyOf us)
  then show ?case by (simp add: overlaid_def)
next
  case (2 cmpKey keyOf e es)
  then show ?case by (cases "tombstone e") (auto simp: overlaid_def)
next
  case (3 cmpKey keyOf e es u us)
  let ?k = "sortKey e" and ?u = "keyOf u"
  have A: "?k \<in> A" "?u \<in> A" "\<And>x. x \<in> set es \<Longrightarrow> sortKey x \<in> A" "\<And>x. x \<in> set us \<Longrightarrow> keyOf x \<in> A"
    using 3(8,10) by auto
  have e_es: "\<And>x. x \<in> set es \<Longrightarrow> cmpKey ?k (sortKey x) < 0" and u_us: "\<And>x. x \<in> set us \<Longrightarrow> cmpKey ?u (keyOf x) < 0"
    using 3(7,9) by auto
  note trans = comparator_on.cmp_le_lt_trans [OF 3(6)] and flip = comparator_on.cmp_flip [OF 3(6)]
  consider "cmpKey ?k ?u < 0" | "cmpKey ?k ?u > 0" | "cmpKey ?k ?u = 0" by linarith
  then show ?case
  proof cases
    case 1
    have lt: "cmpKey ?k (keyOf x) < 0" if "x \<in> set (u # us)" for x
      using that 1 u_us trans [of ?k ?u "keyOf x"] A by auto
    have IH: "mset (merge_rows cmpKey keyOf es (u # us)) = overlaid cmpKey keyOf es (u # us) \<and>
      strict_cmp cmpKey (map keyOf (merge_rows cmpKey keyOf es (u # us))) \<and>
      set (map keyOf (merge_rows cmpKey keyOf es (u # us))) \<subseteq> set (map sortKey es) \<union> set (map keyOf (u # us))"
      using 3(1,2) 1 3(6-11) by (cases "tombstone e") auto
    have "overlaid cmpKey keyOf (e # es) (u # us) = (if tombstone e then {#} else {#row e#}) + overlaid cmpKey keyOf es (u # us)"
      by (rule overlaid_Cons_skip) (use lt in force)
    moreover have "cmpKey ?k x < 0" if "x \<in> set (map keyOf (merge_rows cmpKey keyOf es (u # us)))" for x
      using that IH e_es lt by auto
    ultimately show ?thesis using IH 1 3(11) by (cases "tombstone e") (auto simp: Let_def)
  next
    case 2
    then have uk: "cmpKey ?u ?k < 0" using flip(1) [OF A(1,2)] by simp
    have lt: "cmpKey ?u (sortKey x) < 0" if "x \<in> set (e # es)" for x
      using that uk e_es trans [of ?u ?k "sortKey x"] A by auto
    have "\<not> cmpKey (sortKey x) ?u = 0" if "x \<in> set (e # es)" for x
      using lt [OF that] flip(2) [of ?u "sortKey x"] that A by auto
    then have keep: "\<not> list_ex (\<lambda>e. cmpKey (sortKey e) ?u = 0) (e # es)" by (auto simp: list_ex_iff)
    have IH: "mset (merge_rows cmpKey keyOf (e # es) us) = overlaid cmpKey keyOf (e # es) us \<and>
      strict_cmp cmpKey (map keyOf (merge_rows cmpKey keyOf (e # es) us)) \<and>
      set (map keyOf (merge_rows cmpKey keyOf (e # es) us)) \<subseteq> set (map sortKey (e # es)) \<union> set (map keyOf us)"
      using 3(3) 2 3(6-11) by auto
    have "overlaid cmpKey keyOf (e # es) (u # us) = {#u#} + overlaid cmpKey keyOf (e # es) us"
      using keep by (simp add: overlaid_def)
    moreover have "cmpKey ?u x < 0" if "x \<in> set (map keyOf (merge_rows cmpKey keyOf (e # es) us))" for x
      using that IH lt u_us by auto
    ultimately show ?thesis using IH 2 by (auto simp: Let_def)
  next
    case eq: 3
    have lt: "cmpKey ?k (keyOf x) < 0" if "x \<in> set us" for x
      using that eq u_us trans [of ?k ?u "keyOf x"] A by auto
    have IH: "mset (merge_rows cmpKey keyOf es us) = overlaid cmpKey keyOf es us \<and>
      strict_cmp cmpKey (map keyOf (merge_rows cmpKey keyOf es us)) \<and>
      set (map keyOf (merge_rows cmpKey keyOf es us)) \<subseteq> set (map sortKey es) \<union> set (map keyOf us)"
      using 3(4,5) eq 3(6-11) by (cases "tombstone e") auto
    have "overlaid cmpKey keyOf (e # es) (u # us) = overlaid cmpKey keyOf (e # es) us"
      using eq by (simp add: overlaid_def)
    also have "\<dots> = (if tombstone e then {#} else {#row e#}) + overlaid cmpKey keyOf es us"
      by (rule overlaid_Cons_skip) (use lt in force)
    finally have ov: "overlaid cmpKey keyOf (e # es) (u # us) = (if tombstone e then {#} else {#row e#}) + overlaid cmpKey keyOf es us" .
    have "cmpKey ?k x < 0" if "x \<in> set (map keyOf (merge_rows cmpKey keyOf es us))" for x
      using that IH e_es lt by auto
    then show ?thesis using IH eq 3(11) ov by (cases "tombstone e") (auto simp: Let_def)
  qed
qed

subsection \<open>Secondary index scans\<close>

lemma secondary_merge_mset:
  "mset (secondary_merge cmp modified os us) = mset os + mset (filter (\<lambda>u. \<not> modified u) us)"
proof (induction us arbitrary: os)
  case (Cons u us)
  have "mset (takeWhile P os) + mset (dropWhile P os) = mset os" for P
    by (metis mset_append takeWhile_dropWhile_id)
  then show ?case using Cons by (simp add: ac_simps)
qed simp

lemma secondary_merge_sorted:
  assumes "comparator_on A cmp"
  shows "sorted_cmp cmp os \<Longrightarrow> sorted_cmp cmp us \<Longrightarrow> set os \<subseteq> A \<Longrightarrow> set us \<subseteq> A \<Longrightarrow>
    sorted_cmp cmp (secondary_merge cmp modified os us)"
proof (induction us arbitrary: os)
  case (Cons u us)
  let ?P = "\<lambda>x. cmp x u \<le> 0"
  let ?rest = "secondary_merge cmp modified (dropWhile ?P os) us"
  have parts: "sorted_cmp cmp (takeWhile ?P os)" "sorted_cmp cmp (dropWhile ?P os)" "set (dropWhile ?P os) \<subseteq> A"
    "set (takeWhile ?P os) \<subseteq> A"
    using Cons.prems by (auto simp: sorted_wrt_takeWhile sorted_wrt_dropWhile dest: set_dropWhileD set_takeWhileD)
  have u: "u \<in> A" and us: "set us \<subseteq> A" "sorted_cmp cmp us" "\<And>x. x \<in> set us \<Longrightarrow> cmp u x \<le> 0" using Cons.prems by auto
  have rest: "sorted_cmp cmp ?rest" using Cons.IH [OF parts(2) us(2) parts(3) us(1)] .
  have members: "x \<in> set (dropWhile ?P os) \<or> x \<in> set us" if "x \<in> set ?rest" for x
  proof -
    have "x \<in># mset ?rest" using that by simp
    then show ?thesis unfolding secondary_merge_mset by auto
  qed
  have after: "cmp u x \<le> 0" "x \<in> A" if "x \<in> set ?rest" for x
  proof -
    show x: "x \<in> A" using members [OF that] parts(3) us(1) by auto
    have "cmp u x \<le> 0" if later: "x \<in> set (dropWhile ?P os)"
    proof -
      obtain y ys where d: "dropWhile ?P os = y # ys" using later by (cases "dropWhile ?P os") simp_all
      then have y: "\<not> cmp y u \<le> 0" using hd_dropWhile [of ?P os] by simp
      have yA: "y \<in> A" using parts(3) d by simp
      have "cmp u y \<le> 0" using comparator_on.cmp_flip(1) [OF assms yA u] y by simp
      moreover have "cmp y x \<le> 0" using later parts(2) comparator_on.cmp_refl [OF assms yA] unfolding d by auto
      ultimately show ?thesis using comparator_on.cmp_trans [OF assms u yA x] by simp
    qed
    then show "cmp u x \<le> 0" using members [OF \<open>x \<in> set ?rest\<close>] us(3) by blast
  qed
  have before: "cmp x u \<le> 0" if "x \<in> set (takeWhile ?P os)" for x using set_takeWhileD [OF that] by simp
  have across: "cmp x y \<le> 0" if x: "x \<in> set (takeWhile ?P os)" and y: "y \<in> set ?rest" for x y
  proof (rule comparator_on.cmp_trans [OF assms _ u after(2) [OF y] before [OF x] after(1) [OF y]])
    show "x \<in> A" using parts(4) x by (rule subsetD)
  qed
  have tl: "sorted_cmp cmp (u # ?rest)" using rest after(1) by simp
  have "cmp x y \<le> 0" if x: "x \<in> set (takeWhile ?P os)" and y: "y \<in> set (u # ?rest)" for x y
    using y before [OF x] across [OF x] unfolding set_simps insert_iff by (elim disjE) simp_all
  with parts(1) tl have "sorted_cmp cmp (takeWhile ?P os @ u # ?rest)"
    unfolding sorted_wrt_append by blast
  then show ?case using Cons.IH [OF Cons.prems(1) us(2) Cons.prems(3) us(1)] by simp
qed simp

text \<open>
  A scan over a secondary index yields the live overlay rows of the window and the committed rows
  whose primary key the overlay does not touch, in index order: here precedence does go by the
  primary key, whatever the index keys of the two versions of a row.
\<close>

lemma mergedSecondaryIndexQuery_correct:
  fixes config defines "compare \<equiv> (\<lambda>a b. merge_compare config (merge_key config a) (merge_key config b))"
  assumes order: "comparator_on A compare" "set underlying \<subseteq> A" "set (overlay_window tombstoneIndex matchesWindow overlay) \<subseteq> A"
    and sorted: "sorted_cmp compare underlying"
  shows "mset (mergedSecondaryIndexQuery config pkShadowKey tombstoneIndex matchesWindow overlay underlying) =
      mset (overlay_window tombstoneIndex matchesWindow overlay) +
      mset (filter (\<lambda>u. pkShadowKey u \<notin> pkShadowKey ` set overlay) underlying)"
    "sorted_cmp compare (mergedSecondaryIndexQuery config pkShadowKey tombstoneIndex matchesWindow overlay underlying)"
proof -
  let ?rows = "overlay_window tombstoneIndex matchesWindow overlay"
  have eq: "mergedSecondaryIndexQuery config pkShadowKey tombstoneIndex matchesWindow overlay underlying =
      secondary_merge compare (\<lambda>u. pkShadowKey u \<in> pkShadowKey ` set overlay) (sort_cmp compare ?rows) underlying"
    by (simp add: mergedSecondaryIndexQuery_def compare_def Let_def)
  show "mset (mergedSecondaryIndexQuery config pkShadowKey tombstoneIndex matchesWindow overlay underlying) =
      mset ?rows + mset (filter (\<lambda>u. pkShadowKey u \<notin> pkShadowKey ` set overlay) underlying)"
    unfolding eq secondary_merge_mset by simp
  show "sorted_cmp compare (mergedSecondaryIndexQuery config pkShadowKey tombstoneIndex matchesWindow overlay underlying)"
    unfolding eq using order sorted comparator_on.sorted_sort_cmp [OF order(1,3)]
    by (intro secondary_merge_sorted [OF order(1)]) auto
qed

text \<open>
  C29. Given an overlay and committed rows each strictly sorted by the same key, the merge yields
  exactly the live overlay rows and the committed rows whose key no overlay entry has, each
  once, still strictly sorted by that key. This is so for any key comparator that is a total
  preorder on the keys present. The key is the primary key unless the configuration
  names a sort key. With a sort key, precedence goes by the sort key alone: a committed row
  whose sort key no overlay entry has is yielded beside the overlay row that has its primary
  key.
\<close>

theorem mergeStreams_correct:
  assumes "comparator_on A (merge_compare config)"
    "strict_cmp (merge_compare config) (map sortKey overlay)" "set (map sortKey overlay) \<subseteq> A"
    "strict_cmp (merge_compare config) (map (merge_key config) underlying)" "set (map (merge_key config) underlying) \<subseteq> A"
    "list_all (\<lambda>e. \<not> tombstone e \<longrightarrow> merge_key config (row e) = sortKey e) overlay"
  shows "mset (mergeStreams overlay underlying config) = overlaid (merge_compare config) (merge_key config) overlay underlying \<and>
    strict_cmp (merge_compare config) (map (merge_key config) (mergeStreams overlay underlying config)) \<and>
    (\<forall>e u. e \<in> set overlay \<and> \<not> tombstone e \<and> u \<in> set underlying \<and> comparePK config (pk e) (extractPK config u) = 0 \<and>
        \<not> list_ex (\<lambda>e'. merge_compare config (sortKey e') (merge_key config u) = 0) overlay \<longrightarrow>
      row e \<in> set (mergeStreams overlay underlying config) \<and> u \<in> set (mergeStreams overlay underlying config))"
proof -
  let ?merged = "merge_rows (merge_compare config) (merge_key config) overlay underlying"
  note spec = merge_rows_spec [OF assms]
  have "x \<in> set ?merged \<longleftrightarrow> x \<in># overlaid (merge_compare config) (merge_key config) overlay underlying" for x
    using spec by (metis set_mset_mset)
  then show ?thesis unfolding mergeStreams_def using spec by (auto simp: overlaid_def)
qed

theorem mergeStreams_correct_witness:
  "\<exists>config overlay underlying.
    config = \<lparr>comparePK = (\<lambda>a b. compareSqlValuesFast (row_at a 0) (row_at b 0) BINARY_COLLATION), extractPK = (\<lambda>r. [row_at r 0]),
      compareSortKey = Some (\<lambda>a b. compareSqlValuesFast (row_at a 0) (row_at b 0) BINARY_COLLATION),
      extractSortKey = Some (\<lambda>r. [row_at r 1, row_at r 0])\<rparr> \<and>
    overlay = [createTombstone [SqlBig 1] (Some [SqlBig 4, SqlBig 1]),
      createMergeEntry [SqlBig 2, SqlBig 6] [SqlBig 2] (Some [SqlBig 6, SqlBig 2])] \<and>
    underlying = [[SqlBig 1, SqlBig 4], [SqlBig 2, SqlBig 5], [SqlBig 3, SqlBig 7]] \<and>
    mset (mergeStreams overlay underlying config) = overlaid (merge_compare config) (merge_key config) overlay underlying \<and>
    strict_cmp (merge_compare config) (map (merge_key config) (mergeStreams overlay underlying config)) \<and>
    [SqlBig 2, SqlBig 6] \<in> set (mergeStreams overlay underlying config) \<and>
    [SqlBig 2, SqlBig 5] \<in> set (mergeStreams overlay underlying config)"
proof -
  let ?cmp = "\<lambda>a b. compareSqlValuesFast (row_at a 0) (row_at b 0) BINARY_COLLATION"
  let ?config = "\<lparr>comparePK = ?cmp, extractPK = (\<lambda>r. [row_at r 0]), compareSortKey = Some ?cmp,
      extractSortKey = Some (\<lambda>r. [row_at r 1, row_at r 0])\<rparr>"
  let ?overlay = "[createTombstone [SqlBig 1] (Some [SqlBig 4, SqlBig 1]),
      createMergeEntry [SqlBig 2, SqlBig 6] [SqlBig 2] (Some [SqlBig 6, SqlBig 2])]"
  let ?underlying = "[[SqlBig 1, SqlBig 4], [SqlBig 2, SqlBig 5], [SqlBig 3, SqlBig 7]]"
  have order: "comparator_on {k. not_nan (row_at k 0)} ?cmp"
    by (rule comparator_on.vimage [OF compareSqlValuesFast_comparator [OF builtin_comparators(1)]]) auto
  have cell: "row_at (x # xs) 0 = x" "row_at (x # y # xs) 1 = y" "row_at (x # y # xs) (Suc 0) = y" for x y xs by (simp_all add: row_at_def)
  have less: "compareSqlValuesFast (SqlBig a) (SqlBig b) BINARY_COLLATION = (if a < b then -1 else if b < a then 1 else 0)" for a b
    by (simp add: compareSqlValuesFast_def compareNumbers_def js_less_def)
  have merged: "mset (mergeStreams ?overlay ?underlying ?config) = overlaid (merge_compare ?config) (merge_key ?config) ?overlay ?underlying \<and>
    strict_cmp (merge_compare ?config) (map (merge_key ?config) (mergeStreams ?overlay ?underlying ?config)) \<and>
    (\<forall>e u. e \<in> set ?overlay \<and> \<not> tombstone e \<and> u \<in> set ?underlying \<and> comparePK ?config (pk e) (extractPK ?config u) = 0 \<and>
        \<not> list_ex (\<lambda>e'. merge_compare ?config (sortKey e') (merge_key ?config u) = 0) ?overlay \<longrightarrow>
      row e \<in> set (mergeStreams ?overlay ?underlying ?config) \<and> u \<in> set (mergeStreams ?overlay ?underlying ?config))"
    by (rule mergeStreams_correct [where A = "{k. not_nan (row_at k 0)}"])
      (simp_all add: merge_compare_def merge_key_def order less createTombstone_def createMergeEntry_def cell)
  let ?e = "createMergeEntry [SqlBig 2, SqlBig 6] [SqlBig 2] (Some [SqlBig 6, SqlBig 2])"
  have "?e \<in> set ?overlay \<and> \<not> tombstone ?e \<and> [SqlBig 2, SqlBig 5] \<in> set ?underlying \<and>
      comparePK ?config (pk ?e) (extractPK ?config [SqlBig 2, SqlBig 5]) = 0 \<and>
      \<not> list_ex (\<lambda>e'. merge_compare ?config (sortKey e') (merge_key ?config [SqlBig 2, SqlBig 5]) = 0) ?overlay"
    by (simp add: merge_compare_def merge_key_def less createTombstone_def createMergeEntry_def cell)
  with merged have "row ?e \<in> set (mergeStreams ?overlay ?underlying ?config) \<and>
      [SqlBig 2, SqlBig 5] \<in> set (mergeStreams ?overlay ?underlying ?config)" by blast
  then have "[SqlBig 2, SqlBig 6] \<in> set (mergeStreams ?overlay ?underlying ?config) \<and>
      [SqlBig 2, SqlBig 5] \<in> set (mergeStreams ?overlay ?underlying ?config)" by (simp add: createMergeEntry_def)
  with merged show ?thesis by blast
qed

end
