(* ===== verification/Decimal_Text.thy ===== *)
theory Decimal_Text
  imports Js_Values
begin

text \<open>
  Reading numbers back from text: digits, natural numbers in a radix and \<open>BigInt(text)\<close>, with
  the round trip of the decimal text of an integer.
\<close>

definition digit_of_unit :: "16 word \<Rightarrow> nat option" where
  "digit_of_unit u =
     (let c = unat u in
      if 48 \<le> c \<and> c \<le> 57 then Some (c - 48)
      else if 97 \<le> c \<and> c \<le> 122 then Some (c - 87)
      else if 65 \<le> c \<and> c \<le> 90 then Some (c - 55) else None)"

fun read_digits :: "nat \<Rightarrow> nat \<Rightarrow> js_string \<Rightarrow> nat option" where
  "read_digits radix acc [] = Some acc"
| "read_digits radix acc (u # us) =
     (case digit_of_unit u of
        Some d \<Rightarrow> if d < radix then read_digits radix (acc * radix + d) us else None
      | None \<Rightarrow> None)"

definition read_nat :: "nat \<Rightarrow> js_string \<Rightarrow> nat option" where
  "read_nat radix s = (if s = [] then None else read_digits radix 0 s)"

text \<open>
  \<open>BigInt(text)\<close> reads a trimmed decimal with an optional sign, or a radix literal, and throws
  on anything else.
\<close>

definition bigint_of_text :: "js_string \<Rightarrow> int option" where
  "bigint_of_text text =
     (let t = js_trim text; p = take 2 t; r = drop 2 t in
      if t = [] then Some 0
      else if p = lit ''0x'' \<or> p = lit ''0X'' then map_option int (read_nat 16 r)
      else if p = lit ''0o'' \<or> p = lit ''0O'' then map_option int (read_nat 8 r)
      else if p = lit ''0b'' \<or> p = lit ''0B'' then map_option int (read_nat 2 r)
      else if hd t = 45 then map_option (\<lambda>n. - int n) (read_nat 10 (tl t))
      else if hd t = 43 then map_option int (read_nat 10 (tl t))
      else map_option int (read_nat 10 t))"

section \<open>Round trip\<close>

lemma unat_digit_unit: "d < 10 \<Longrightarrow> unat (word_of_nat (48 + d) :: 16 word) = 48 + d"
  using unat_of_nat [of "48 + d", where 'a = 16] by (simp del: of_nat_add)

lemma dec_digits_less: "d \<in> set (dec_digits n) \<Longrightarrow> d < 10"
proof (induction n rule: dec_digits.induct)
  case (1 n)
  then show ?case by (cases "n < 10") (auto simp: dec_digits.simps [of n])
qed

lemma read_digits_append:
  "read_digits r acc (s @ t) = (case read_digits r acc s of None \<Rightarrow> None | Some a \<Rightarrow> read_digits r a t)"
  by (induction s arbitrary: acc) (auto split: option.splits)

lemma read_dec_digits: "read_digits 10 0 (digit_units (dec_digits n)) = Some n"
proof (induction n rule: dec_digits.induct)
  case (1 n)
  have digit: "digit_of_unit (word_of_nat (48 + d)) = Some d" if "d < 10" for d
    using unat_digit_unit [OF that] that by (simp add: digit_of_unit_def Let_def del: of_nat_add)
  have one: "read_digits 10 a (digit_units [d]) = Some (a * 10 + d)" if "d < 10" for a d
    using digit [OF that] that by (simp add: digit_units_def del: of_nat_add)
  show ?case
  proof (cases "n < 10")
    case True
    then show ?thesis using one [of n 0] by (simp add: dec_digits.simps [of n])
  next
    case False
    then have "dec_digits n = dec_digits (n div 10) @ [n mod 10]" by (simp add: dec_digits.simps [of n])
    then show ?thesis
      using 1 False one [of "n mod 10" "n div 10"] by (simp add: digit_units_def read_digits_append)
  qed
qed

lemma dec_digits_nonempty: "dec_digits n \<noteq> []"
  by (subst dec_digits.simps) simp

lemma digit_unit_range: "u \<in> set (digit_units (dec_digits n)) \<Longrightarrow> 48 \<le> unat u \<and> unat u \<le> 57"
proof -
  assume "u \<in> set (digit_units (dec_digits n))"
  then obtain d where d: "d \<in> set (dec_digits n)" "u = word_of_nat (48 + d)" by (auto simp: digit_units_def)
  show ?thesis using unat_digit_unit [OF dec_digits_less [OF d(1)]] dec_digits_less [OF d(1)] d(2) by (simp del: of_nat_add)
qed

lemma int_text_unit: "u \<in> set (int_text n) \<Longrightarrow> unat u = 45 \<or> 48 \<le> unat u \<and> unat u \<le> 57"
  using digit_unit_range by (auto simp: int_text_def lit_def)

lemma js_trim_id: "(\<And>u. u \<in> set s \<Longrightarrow> \<not> js_space u) \<Longrightarrow> js_trim s = s"
proof -
  assume *: "\<And>u. u \<in> set s \<Longrightarrow> \<not> js_space u"
  have "dropWhile js_space t = t" if "set t \<subseteq> set s" for t
    using that * by (cases t) auto
  then show "js_trim s = s" by (simp add: js_trim_def)
qed

lemma bigint_of_text_int_text: "bigint_of_text (int_text n) = Some n"
proof -
  define t where "t = int_text n"
  define d where "d = digit_units (dec_digits (nat \<bar>n\<bar>))"
  have d: "d \<noteq> []" "\<And>u. u \<in> set d \<Longrightarrow> 48 \<le> unat u \<and> unat u \<le> 57" "read_nat 10 d = Some (nat \<bar>n\<bar>)"
    using dec_digits_nonempty digit_unit_range read_dec_digits
    by (auto simp: d_def read_nat_def digit_units_def)
  have t: "t = (if n < 0 then 45 # d else d)" by (simp add: t_def d_def int_text_def lit_def)
  have unit: "unat u = 45 \<or> 48 \<le> unat u \<and> unat u \<le> 57" if "u \<in> set t" for u
    using that int_text_unit by (simp add: t_def)
  have "\<not> js_space u" if "u \<in> set t" for u using unit [OF that] by (auto simp: js_space_def Let_def)
  then have trim: "js_trim t = t" by (rule js_trim_id)
  have small: "unat u < 58" if "u \<in> set (take 2 t)" for u using unit [of u] in_set_takeD [OF that] by auto
  have "take 2 t \<noteq> lit [a, x]" if "58 \<le> (of_char x :: nat)" "(of_char x :: nat) < 65536" for a x
  proof
    assume "take 2 t = lit [a, x]"
    then have "word_of_nat (of_char x) \<in> set (take 2 t)" by (simp add: lit_def)
    then show False using small that unat_of_nat [of "of_char x", where 'a = 16] by fastforce
  qed
  then have no_radix: "take 2 t \<noteq> lit ''0x''" "take 2 t \<noteq> lit ''0X''" "take 2 t \<noteq> lit ''0o''" "take 2 t \<noteq> lit ''0O''"
    "take 2 t \<noteq> lit ''0b''" "take 2 t \<noteq> lit ''0B''" by simp_all
  have "hd d \<noteq> 45" "hd d \<noteq> 43" using d(1) d(2) [of "hd d"] by auto
  then show ?thesis
    using d no_radix trim t unfolding t_def [symmetric] bigint_of_text_def Let_def by (simp split: if_splits)
qed

end
