(* ===== verification/Fd_Types.thy ===== *)
theory Fd_Types
  imports Sql_Compare Decimal_Text
begin

text \<open>
  The relational facts the planner attaches to a plan node (planner/nodes/plan-node.ts):
  functional dependencies with their guards, equivalence classes, constant bindings, domain
  constraints and inclusion dependencies, and what each of them claims about the rows the node
  emits. Columns are output column indices. Two rows agree on a column when the column's own
  comparison calls their values equal, so the claims are stated for a family of column
  comparators.
\<close>

section \<open>The facts\<close>

datatype guard_clause = EqLiteral nat sql_value
  | EqColumn nat nat
  | IsNullClause nat bool
  | RangeClause nat "sql_value option" "sql_value option" bool bool
  | OrOf "guard_clause list"

record guard_predicate =
  clauses :: "guard_clause list"

datatype provenance_kind = DeclaredCheck | Assertion

record provenance =
  prov_kind :: provenance_kind
  prov_name :: "js_string option"

datatype fd_kind = Unique | Determination

record fd =
  determinants :: "nat list"
  dependents :: "nat list"
  fd_guard :: "guard_predicate option"
  fd_source :: "provenance option"
  valueEquality :: "bool option"
  fd_kind :: fd_kind

definition new_fd :: "nat list \<Rightarrow> nat list \<Rightarrow> fd_kind \<Rightarrow> fd" where
  "new_fd dets deps k = \<lparr>determinants = dets, dependents = deps, fd_guard = None, fd_source = None,
     valueEquality = None, fd_kind = k\<rparr>"

datatype param_ref = ParamName js_string | ParamIndex nat

datatype constant_value = ConstLiteral sql_value | ConstParam param_ref

record constant_binding =
  bind_attrs :: "nat list"
  bind_value :: constant_value
  bind_source :: "provenance option"

datatype domain_shape = DomRange "sql_value option" "sql_value option" bool bool
  | DomEnum "sql_value list"

record domain_constraint =
  dom_column :: nat
  dom_shape :: domain_shape
  dom_source :: "provenance option"

datatype ind_target = IndTable js_string js_string "nat list" | IndRelation js_string "nat list"

record inclusion_dep =
  ind_cols :: "nat list"
  ind_to :: ind_target
  nullRejecting :: bool

text \<open>A column reference of a declared key, and the part of a relation type the facts read.\<close>

record col_ref =
  ref_index :: nat
  ref_desc :: "bool option"

record relation_type =
  columnCount :: nat
  type_keys :: "col_ref list list"
  isSet :: bool

record physical_props =
  phys_fds :: "fd list option"
  equivClasses :: "nat list list option"
  constantBindings :: "constant_binding list option"
  domainConstraints :: "domain_constraint list option"
  phys_inds :: "inclusion_dep list option"

section \<open>JavaScript sets and strict equality\<close>

text \<open>
  A \<open>Set\<close> iterates in insertion order: it is the list of its members, each once.
\<close>

definition set_add :: "'a \<Rightarrow> 'a list \<Rightarrow> 'a list" where
  "set_add x s = (if x \<in> set s then s else s @ [x])"

definition set_add_all :: "'a list \<Rightarrow> 'a list \<Rightarrow> 'a list" where
  "set_add_all xs s = fold set_add xs s"

definition new_set :: "'a list \<Rightarrow> 'a list" where
  "new_set xs = set_add_all xs []"

definition set_delete :: "'a \<Rightarrow> 'a list \<Rightarrow> 'a list" where
  "set_delete x s = filter (\<lambda>y. y \<noteq> x) s"

lemma set_set_add [simp]: "set (set_add x s) = insert x (set s)"
  by (auto simp: set_add_def)

lemma distinct_set_add [simp]: "distinct (set_add x s) \<longleftrightarrow> distinct s"
  by (auto simp: set_add_def)

lemma set_add_all_simps [simp]:
  "set_add_all [] s = s" "set_add_all (x # xs) s = set_add_all xs (set_add x s)"
  by (simp_all add: set_add_all_def)

lemma set_set_add_all [simp]: "set (set_add_all xs s) = set xs \<union> set s"
  by (induction xs arbitrary: s) auto

lemma distinct_set_add_all [simp]: "distinct (set_add_all xs s) \<longleftrightarrow> distinct s"
  by (induction xs arbitrary: s) auto

lemma set_new_set [simp]: "set (new_set xs) = set xs" "distinct (new_set xs)"
  by (simp_all add: new_set_def)

lemma set_add_all_distinct: "distinct (s @ xs) \<Longrightarrow> set_add_all xs s = s @ xs"
proof (induction xs arbitrary: s)
  case (Cons x xs)
  then show ?case by (simp add: set_add_def)
qed simp

lemma new_set_distinct: "distinct xs \<Longrightarrow> new_set xs = xs"
  by (simp add: new_set_def set_add_all_distinct)

lemma subseq_set_add_all: "subseq (set_add_all xs s) (s @ xs)"
proof (induction xs arbitrary: s)
  case (Cons x xs)
  have "subseq (set_add x s @ xs) (s @ x # xs)" by (simp add: set_add_def list_emb_append_mono subseq_Cons')
  with Cons [of "set_add x s"] show ?case by (auto intro: subseq_order.order_trans)
qed simp

lemma subseq_new_set: "subseq (new_set xs) xs"
  using subseq_set_add_all [of xs "[]"] by (simp add: new_set_def)

lemma set_set_delete [simp]: "set (set_delete x s) = set s - {x}"
  "distinct s \<Longrightarrow> distinct (set_delete x s)"
  by (auto simp: set_delete_def)

text \<open>
  \<open>Array.join(',')\<close> of column indices, the signature under which key lists are deduplicated.
\<close>

fun join_indices :: "nat list \<Rightarrow> js_string" where
  "join_indices [] = []"
| "join_indices [n] = digit_units (dec_digits n)"
| "join_indices (n # m # ns) = digit_units (dec_digits n) @ lit '','' @ join_indices (m # ns)"

text \<open>
  \<open>===\<close> on values: numbers by value (NaN equal to nothing, the two zeros equal), strings,
  bigints, booleans and null by value, and JSON objects by reference. References are not part
  of the model's values, so whether two object values are one object is a parameter, as is
  whether two guards are one object.
\<close>

record js_refs =
  same_object :: "sql_value \<Rightarrow> sql_value \<Rightarrow> bool"
  same_guard :: "guard_predicate \<Rightarrow> guard_predicate \<Rightarrow> bool"

text \<open>One object has one content.\<close>

definition lawful_refs :: "js_refs \<Rightarrow> bool" where
  "lawful_refs I \<longleftrightarrow> (\<forall>a b. same_object I a b \<longrightarrow> a = b) \<and> (\<forall>a b. same_guard I a b \<longrightarrow> a = b)"

definition structural_refs :: js_refs where
  "structural_refs = \<lparr>same_object = (=), same_guard = (=)\<rparr>"

fun sqlValueEquals :: "js_refs \<Rightarrow> sql_value \<Rightarrow> sql_value \<Rightarrow> bool" where
  "sqlValueEquals I (SqlNum a) v = (case v of
     SqlNum b \<Rightarrow> \<not> is_nan a \<and> \<not> is_nan b \<and> (a = b \<or> dmag a = 0 \<and> dmag b = 0) | _ \<Rightarrow> False)"
| "sqlValueEquals I (SqlObject a) v =
     (case v of SqlObject b \<Rightarrow> same_object I (SqlObject a) v | _ \<Rightarrow> False)"
| "sqlValueEquals I (SqlArray a) v =
     (case v of SqlArray b \<Rightarrow> same_object I (SqlArray a) v | _ \<Rightarrow> False)"
| "sqlValueEquals I SqlNull v = (v = SqlNull)"
| "sqlValueEquals I SqlUndefined v = (v = SqlUndefined)"
| "sqlValueEquals I (SqlText a) v = (v = SqlText a)"
| "sqlValueEquals I (SqlBig a) v = (v = SqlBig a)"
| "sqlValueEquals I (SqlBool a) v = (v = SqlBool a)"
| "sqlValueEquals I (SqlBlob a) v = (v = SqlBlob a)"

section \<open>What the facts claim\<close>

text \<open>
  \<open>col_cmp\<close> is the comparator of a column and \<open>pair_eq\<close> the \<open>=\<close> comparison between two
  columns. The laws hold of every comparator the engine builds (total preorders on values other
  than NaN, under which strictly equal values are equal).
\<close>

record col_sem =
  col_cmp :: "nat \<Rightarrow> sql_value comparator"
  pair_eq :: "nat \<Rightarrow> nat \<Rightarrow> sql_value \<Rightarrow> sql_value \<Rightarrow> bool"

type_synonym rows = "row list"

definition agree :: "col_sem \<Rightarrow> nat set \<Rightarrow> row \<Rightarrow> row \<Rightarrow> bool" where
  "agree S cs r s \<longleftrightarrow> (\<forall>c \<in> cs. col_cmp S c (row_at r c) (row_at s c) = 0)"

definition in_range ::
  "sql_value comparator \<Rightarrow> sql_value option \<Rightarrow> sql_value option \<Rightarrow> bool \<Rightarrow> bool \<Rightarrow> sql_value \<Rightarrow> bool" where
  "in_range C mn mx mnInc mxInc v \<longleftrightarrow> v \<noteq> SqlNull \<and>
     (case mn of None \<Rightarrow> True | Some m \<Rightarrow> C m v < 0 \<or> mnInc \<and> C m v = 0) \<and>
     (case mx of None \<Rightarrow> True | Some m \<Rightarrow> C v m < 0 \<or> mxInc \<and> C v m = 0)"

fun clause_sat :: "col_sem \<Rightarrow> guard_clause \<Rightarrow> row \<Rightarrow> bool" where
  "clause_sat S (EqLiteral c v) r =
     (row_at r c \<noteq> SqlNull \<and> v \<noteq> SqlNull \<and> col_cmp S c (row_at r c) v = 0)"
| "clause_sat S (EqColumn a b) r =
     (row_at r a \<noteq> SqlNull \<and> row_at r b \<noteq> SqlNull \<and> pair_eq S a b (row_at r a) (row_at r b))"
| "clause_sat S (IsNullClause c negated) r = ((row_at r c = SqlNull) = (\<not> negated))"
| "clause_sat S (RangeClause c mn mx mnInc mxInc) r =
     in_range (col_cmp S c) mn mx mnInc mxInc (row_at r c)"
| "clause_sat S (OrOf cs) r = (\<exists>c \<in> set cs. clause_sat S c r)"

definition guard_sat :: "col_sem \<Rightarrow> guard_predicate option \<Rightarrow> row \<Rightarrow> bool" where
  "guard_sat S g r = (case g of None \<Rightarrow> True | Some p \<Rightarrow> (\<forall>c \<in> set (clauses p). clause_sat S c r))"

definition scope :: "col_sem \<Rightarrow> guard_predicate option \<Rightarrow> rows \<Rightarrow> rows" where
  "scope S g R = filter (guard_sat S g) R"

definition determination :: "col_sem \<Rightarrow> rows \<Rightarrow> nat set \<Rightarrow> nat set \<Rightarrow> bool" where
  "determination S R D E \<longleftrightarrow> (\<forall>r \<in> set R. \<forall>s \<in> set R. agree S D r s \<longrightarrow> agree S E r s)"

definition row_unique :: "col_sem \<Rightarrow> rows \<Rightarrow> nat set \<Rightarrow> bool" where
  "row_unique S R D \<longleftrightarrow> sorted_wrt (\<lambda>r s. \<not> agree S D r s) R"

definition fd_holds :: "col_sem \<Rightarrow> rows \<Rightarrow> fd \<Rightarrow> bool" where
  "fd_holds S R f \<longleftrightarrow> determination S (scope S (fd_guard f) R) (set (determinants f)) (set (dependents f)) \<and>
     (fd_kind f = Unique \<longrightarrow> row_unique S (scope S (fd_guard f) R) (set (determinants f)))"

definition fds_hold :: "col_sem \<Rightarrow> rows \<Rightarrow> fd list \<Rightarrow> bool" where
  "fds_hold S R fs \<longleftrightarrow> (\<forall>f \<in> set fs. fd_holds S R f)"

section \<open>Laws of agreement\<close>

lemma agree_subset: "agree S D r s \<Longrightarrow> E \<subseteq> D \<Longrightarrow> agree S E r s"
  by (auto simp: agree_def)

lemma agree_Un: "agree S (D \<union> E) r s \<longleftrightarrow> agree S D r s \<and> agree S E r s"
  by (auto simp: agree_def)

lemma agree_empty [simp]: "agree S {} r s"
  by (simp add: agree_def)

lemma row_unique_mono: "row_unique S R D \<Longrightarrow> (\<And>r s. r \<in> set R \<Longrightarrow> s \<in> set R \<Longrightarrow> agree S E r s \<Longrightarrow> agree S D r s) \<Longrightarrow>
    row_unique S R E"
  unfolding row_unique_def by (erule sorted_wrt_mono_rel [rotated]) blast

lemma row_unique_superset: "row_unique S R D \<Longrightarrow> D \<subseteq> E \<Longrightarrow> row_unique S R E"
  by (erule row_unique_mono) (erule agree_subset)

lemma sorted_wrt_filter: "sorted_wrt P xs \<Longrightarrow> sorted_wrt P (filter Q xs)"
  by (induction xs) auto

lemma scope_subset: "set (scope S g R) \<subseteq> set R"
  by (auto simp: scope_def)

lemma scope_None [simp]: "scope S None R = R"
  by (simp add: scope_def guard_sat_def)

lemma row_unique_filter: "row_unique S R D \<Longrightarrow> row_unique S (filter P R) D"
  by (simp add: row_unique_def sorted_wrt_filter)

lemma determination_filter: "determination S R D E \<Longrightarrow> determination S (filter P R) D E"
  by (auto simp: determination_def)

lemma determination_subset: "determination S R D E \<Longrightarrow> D \<subseteq> D' \<Longrightarrow> E' \<subseteq> E \<Longrightarrow> determination S R D' E'"
  unfolding determination_def by (meson agree_subset)

text \<open>Facts survive filtering: a subsequence of the rows satisfies every dependency.\<close>

lemma fd_holds_filter: "fd_holds S R f \<Longrightarrow> fd_holds S (filter P R) f"
proof -
  assume f: "fd_holds S R f"
  have sc: "scope S (fd_guard f) (filter P R) = filter P (scope S (fd_guard f) R)"
    by (auto simp: scope_def intro: filter_cong)
  show ?thesis using f by (simp add: fd_holds_def sc determination_filter row_unique_filter)
qed

lemma row_unique_sym:
  assumes "\<And>r s. r \<in> set R \<Longrightarrow> s \<in> set R \<Longrightarrow> agree S D r s \<Longrightarrow> agree S D s r"
  shows "row_unique S R D \<longleftrightarrow> (\<forall>i < length R. \<forall>j < length R. agree S D (R ! i) (R ! j) \<longrightarrow> i = j)"
proof
  assume u: "row_unique S R D"
  have lt: "\<not> agree S D (R ! i) (R ! j)" if "i < j" "j < length R" for i j
    using u that by (simp add: row_unique_def sorted_wrt_iff_nth_less)
  show "\<forall>i < length R. \<forall>j < length R. agree S D (R ! i) (R ! j) \<longrightarrow> i = j"
  proof (intro allI impI)
    fix i j assume ij: "i < length R" "j < length R" "agree S D (R ! i) (R ! j)"
    have "agree S D (R ! j) (R ! i)" by (rule assms) (use ij in auto)
    then show "i = j" using lt [of i j] lt [of j i] ij by (cases i j rule: linorder_cases) auto
  qed
next
  assume "\<forall>i < length R. \<forall>j < length R. agree S D (R ! i) (R ! j) \<longrightarrow> i = j"
  then show "row_unique S R D" unfolding row_unique_def sorted_wrt_iff_nth_less
    by (metis less_trans nat_neq_iff)
qed

end
