(* ===== verification/Fd_Core.thy ===== *)
theory Fd_Core
  imports Fd_Types
begin

text \<open>
  The functional-dependency algebra of planner/util/fd-utils.ts: attribute closure and its
  consumers, dependency lists with subsumption and a size cap, projection and shifting through
  column maps, and the uniqueness questions (\<open>isUniqueDeterminant\<close>, \<open>keysOf\<close>, \<open>isUnique\<close>).
\<close>

definition MAX_FDS_PER_NODE :: nat where
  "MAX_FDS_PER_NODE = 64"

section \<open>Closure\<close>

text \<open>One dependent, one dependency and one pass of \<open>computeClosure\<close>; the flag is \<open>changed\<close>.\<close>

definition add_dep :: "nat \<Rightarrow> nat list \<times> bool \<Rightarrow> nat list \<times> bool" where
  "add_dep d st = (if d \<in> set (fst st) then st else (fst st @ [d], True))"

definition apply_fd :: "fd \<Rightarrow> nat list \<times> bool \<Rightarrow> nat list \<times> bool" where
  "apply_fd f st = (if fd_guard f \<noteq> None then st
     else if list_all (\<lambda>d. d \<in> set (fst st)) (determinants f) then fold add_dep (dependents f) st
     else st)"

definition closure_pass :: "fd list \<Rightarrow> nat list \<Rightarrow> nat list \<times> bool" where
  "closure_pass fds cl = fold apply_fd fds (cl, False)"

lemma add_deps:
  "set (fst (fold add_dep ds st)) = set ds \<union> set (fst st)"
  "distinct (fst (fold add_dep ds st)) \<longleftrightarrow> distinct (fst st)"
  "snd (fold add_dep ds st) \<longleftrightarrow> snd st \<or> \<not> set ds \<subseteq> set (fst st)"
  "fold add_dep ds st = st \<or> snd (fold add_dep ds st)"
  by (induction ds arbitrary: st) (auto simp: add_dep_def)

text \<open>A pass that changes nothing leaves the set alone; one that changes something grows it.\<close>

lemma apply_fd_step:
  "set (fst st) \<subseteq> set (fst (apply_fd f st))"
  "distinct (fst (apply_fd f st)) \<longleftrightarrow> distinct (fst st)"
  "set (fst (apply_fd f st)) \<subseteq> set (fst st) \<union> set (dependents f)"
  by (auto simp: apply_fd_def add_deps)

lemma apply_fds:
  "set (fst st) \<subseteq> set (fst (fold apply_fd fs st))"
  "distinct (fst (fold apply_fd fs st)) \<longleftrightarrow> distinct (fst st)"
  "set (fst (fold apply_fd fs st)) \<subseteq> set (fst st) \<union> (\<Union>f \<in> set fs. set (dependents f))"
proof (induction fs arbitrary: st)
  case (Cons f fs)
  {
    case 1
    show ?case using Cons(1) [of "apply_fd f st"] apply_fd_step(1) [of st f] by auto
  next
    case 2
    show ?case using Cons(2) [of "apply_fd f st"] apply_fd_step(2) [of f st] by simp
  next
    case 3
    show ?case using Cons(3) [of "apply_fd f st"] apply_fd_step(3) [of f st] by fastforce
  }
qed simp_all

lemma apply_fd_grows:
  "snd (apply_fd f st) \<Longrightarrow> snd st \<or> set (fst st) \<subset> set (fst (apply_fd f st))"
  by (auto simp: apply_fd_def add_deps split: if_splits)

lemma apply_fds_grow:
  "snd (fold apply_fd fs st) \<Longrightarrow> snd st \<or> set (fst st) \<subset> set (fst (fold apply_fd fs st))"
proof (induction fs arbitrary: st)
  case (Cons f fs)
  have sub: "set (fst st) \<subseteq> set (fst (apply_fd f st))"
    "set (fst (apply_fd f st)) \<subseteq> set (fst (fold apply_fd fs (apply_fd f st)))"
    using apply_fds(1) [of st "[f]"] apply_fds(1) [of "apply_fd f st" fs] by simp_all
  have "snd (apply_fd f st) \<or> set (fst (apply_fd f st)) \<subset> set (fst (fold apply_fd fs (apply_fd f st)))"
    by (rule Cons.IH) (use Cons.prems in simp)
  then consider "snd st" | "set (fst st) \<subset> set (fst (fold apply_fd fs (apply_fd f st)))"
    using apply_fd_grows [of f st] sub by (meson psubset_subset_trans subset_psubset_trans)
  then show ?case by cases simp_all
qed simp

function closure_loop :: "fd list \<Rightarrow> nat list \<Rightarrow> nat list" where
  "closure_loop fds cl = (case closure_pass fds cl of (cl', changed) \<Rightarrow>
     if changed then closure_loop fds cl' else cl')"
  by auto

definition all_dependents :: "fd list \<Rightarrow> nat set" where
  "all_dependents fds = (\<Union>f \<in> set fds. set (dependents f))"

lemma finite_all_dependents [simp]: "finite (all_dependents fds)"
  by (simp add: all_dependents_def)

lemma closure_pass_grows:
  assumes "closure_pass fds cl = (cl', True)"
  shows "card (all_dependents fds - set cl') < card (all_dependents fds - set cl)"
proof (rule psubset_card_mono)
  have grow: "set cl \<subset> set cl'" using apply_fds_grow [of fds "(cl, False)"] assms by (simp add: closure_pass_def)
  then obtain x where x: "x \<in> set cl'" "x \<notin> set cl" by auto
  have "set cl' \<subseteq> set cl \<union> all_dependents fds"
    using apply_fds(3) [of fds "(cl, False)"] assms by (simp add: closure_pass_def all_dependents_def)
  with x have "x \<in> all_dependents fds - set cl" "x \<notin> all_dependents fds - set cl'" by auto
  moreover have "all_dependents fds - set cl' \<subseteq> all_dependents fds - set cl" using grow by auto
  ultimately show "all_dependents fds - set cl' \<subset> all_dependents fds - set cl" by (metis psubsetI)
qed simp

termination closure_loop
  by (relation "measure (\<lambda>(fds, cl). card (all_dependents fds - set cl))")
    (simp_all add: closure_pass_grows)

declare closure_loop.simps [simp del]

definition computeClosure :: "nat list \<Rightarrow> fd list \<Rightarrow> nat list" where
  "computeClosure attrs fds = closure_loop fds (new_set attrs)"

definition expand_class :: "nat list \<Rightarrow> fd list" where
  "expand_class cls = (if length cls < 2 then [] else
     [new_fd [cls ! i] [cls ! j] Determination. i \<leftarrow> [0..<length cls], j \<leftarrow> [0..<length cls], i \<noteq> j])"

definition expandEcsToFds :: "nat list list \<Rightarrow> fd list \<Rightarrow> fd list" where
  "expandEcsToFds ecs fds = fds @ concat (map expand_class ecs)"

definition determines :: "nat list \<Rightarrow> nat list \<Rightarrow> fd list \<Rightarrow> bool" where
  "determines attrs target fds = (if target = [] then True
     else let closure = computeClosure attrs fds in list_all (\<lambda>t. t \<in> set closure) target)"

definition cover_step :: "fd list \<Rightarrow> nat list \<Rightarrow> nat \<Rightarrow> nat list \<Rightarrow> nat list" where
  "cover_step fds fullClosure a result = (let trialClosure = computeClosure (set_delete a result) fds in
     if length trialClosure = length fullClosure \<and> list_all (\<lambda>x. x \<in> set trialClosure) fullClosure
     then set_delete a result else result)"

definition minimalCover :: "nat list \<Rightarrow> fd list \<Rightarrow> nat list" where
  "minimalCover attrs fds = (let fullClosure = computeClosure attrs fds; result = new_set attrs
     in fold (cover_step fds fullClosure) result result)"

section \<open>Equality of dependencies and guards\<close>

text \<open>
  The greedy, order-insensitive matching of two clause lists: each clause takes the first
  unused equal clause of the other list.
\<close>

definition first_unused :: "('a \<Rightarrow> 'b \<Rightarrow> bool) \<Rightarrow> 'a \<Rightarrow> 'b list \<Rightarrow> bool list \<Rightarrow> nat option" where
  "first_unused eq x ys used = find (\<lambda>i. \<not> used ! i \<and> eq x (ys ! i)) [0..<length ys]"

fun match_clauses :: "('a \<Rightarrow> 'b \<Rightarrow> bool) \<Rightarrow> 'a list \<Rightarrow> 'b list \<Rightarrow> bool list \<Rightarrow> bool" where
  "match_clauses eq [] ys used = True"
| "match_clauses eq (x # xs) ys used = (case first_unused eq x ys used of
     None \<Rightarrow> False | Some i \<Rightarrow> match_clauses eq xs ys (used[i := True]))"

lemma first_unused_cong:
  "(\<And>y. y \<in> set ys \<Longrightarrow> f x y = g x y) \<Longrightarrow> first_unused f x ys used = first_unused g x ys used"
  unfolding first_unused_def by (rule find_cong) auto

lemma match_clauses_cong [fundef_cong]:
  "xs = xs' \<Longrightarrow> ys = ys' \<Longrightarrow> used = used' \<Longrightarrow>
   (\<And>x y. x \<in> set xs' \<Longrightarrow> y \<in> set ys' \<Longrightarrow> f x y = g x y) \<Longrightarrow>
   match_clauses f xs ys used = match_clauses g xs' ys' used'"
proof (induction xs arbitrary: xs' used used')
  case (Cons x xs)
  have "first_unused f x ys used = first_unused g x ys used"
    by (rule first_unused_cong) (use Cons.prems in auto)
  with Cons show ?case by (auto split: option.splits)
qed auto

definition unused :: "'a list \<Rightarrow> bool list" where
  "unused ys = replicate (length ys) False"

definition bound_eq :: "js_refs \<Rightarrow> sql_value option \<Rightarrow> bool \<Rightarrow> sql_value option \<Rightarrow> bool \<Rightarrow> bool" where
  "bound_eq I a aInc b bInc = (case (a, b) of (None, None) \<Rightarrow> True
     | (Some x, Some y) \<Rightarrow> sqlValueEquals I x y \<and> aInc = bInc | _ \<Rightarrow> False)"

fun guardClauseEquals :: "js_refs \<Rightarrow> guard_clause \<Rightarrow> guard_clause \<Rightarrow> bool" where
  "guardClauseEquals I (EqLiteral c v) (EqLiteral c' v') = (c = c' \<and> sqlValueEquals I v v')"
| "guardClauseEquals I (EqColumn a b) (EqColumn a' b') = (a = a' \<and> b = b' \<or> a = b' \<and> b = a')"
| "guardClauseEquals I (IsNullClause c n) (IsNullClause c' n') = (c = c' \<and> n = n')"
| "guardClauseEquals I (RangeClause c mn mx mnInc mxInc) (RangeClause c' mn' mx' mnInc' mxInc') =
     (c = c' \<and> bound_eq I mn mnInc mn' mnInc' \<and> bound_eq I mx mxInc mx' mxInc')"
| "guardClauseEquals I (OrOf xs) (OrOf ys) =
     (length xs = length ys \<and> match_clauses (\<lambda>x y. guardClauseEquals I x y) xs ys (unused ys))"
| "guardClauseEquals I _ _ = False"

definition guardsEqual :: "js_refs \<Rightarrow> guard_predicate option \<Rightarrow> guard_predicate option \<Rightarrow> bool" where
  "guardsEqual I a b = (case (a, b) of
     (None, None) \<Rightarrow> True
   | (Some g, Some h) \<Rightarrow> same_guard I g h \<or> length (clauses g) = length (clauses h) \<and>
       match_clauses (guardClauseEquals I) (clauses g) (clauses h) (unused (clauses h))
   | _ \<Rightarrow> False)"

definition determinantsEqual :: "nat list \<Rightarrow> nat list \<Rightarrow> bool" where
  "determinantsEqual a b \<longleftrightarrow> length a = length b \<and> list_all (\<lambda>x. x \<in> set a) b"

definition dependentsSubset :: "nat list \<Rightarrow> nat list \<Rightarrow> bool" where
  "dependentsSubset a b \<longleftrightarrow> list_all (\<lambda>x. x \<in> set b) a"

definition fdsEqual :: "js_refs \<Rightarrow> fd \<Rightarrow> fd \<Rightarrow> bool" where
  "fdsEqual I a b \<longleftrightarrow> length (determinants a) = length (determinants b) \<and>
     length (dependents a) = length (dependents b) \<and>
     list_all (\<lambda>d. d \<in> set (determinants a)) (determinants b) \<and>
     list_all (\<lambda>d. d \<in> set (dependents a)) (dependents b) \<and>
     guardsEqual I (fd_guard a) (fd_guard b)"

section \<open>Adding and merging\<close>

record add_fd_options =
  keyHints :: "nat list list option"
  fd_cap :: "nat option"

definition no_options :: add_fd_options where
  "no_options = \<lparr>keyHints = None, fd_cap = None\<rparr>"

definition isSubsetOfAnyKey :: "nat list list \<Rightarrow> nat list \<Rightarrow> bool" where
  "isSubsetOfAnyKey keys det \<longleftrightarrow> list_ex (\<lambda>k. list_all (\<lambda>d. d \<in> set k) det) keys"

definition uniqueFirst :: "fd list \<Rightarrow> fd list" where
  "uniqueFirst fs = filter (\<lambda>f. fd_kind f = Unique) fs @ filter (\<lambda>f. fd_kind f \<noteq> Unique) fs"

definition enforceCap :: "fd list \<Rightarrow> add_fd_options \<Rightarrow> fd list" where
  "enforceCap fds opts = (let cap = (case fd_cap opts of None \<Rightarrow> MAX_FDS_PER_NODE | Some c \<Rightarrow> c) in
     if length fds \<le> cap then fds
     else let keys = (case keyHints opts of None \<Rightarrow> [] | Some k \<Rightarrow> k);
              preferred = filter (\<lambda>f. isSubsetOfAnyKey keys (determinants f)) fds;
              other = filter (\<lambda>f. \<not> isSubsetOfAnyKey keys (determinants f)) fds
          in if cap \<le> length preferred then take cap (uniqueFirst preferred)
             else preferred @ take (cap - length preferred) (uniqueFirst other))"

text \<open>The upgrade of a kept entry, and one existing entry of the \<open>addFd\<close> loop.\<close>

definition upgrade_kind :: "fd \<Rightarrow> fd \<Rightarrow> fd" where
  "upgrade_kind nxt existing =
     (if fd_kind nxt = Unique \<and> fd_kind existing \<noteq> Unique then existing\<lparr>fd_kind := Unique\<rparr> else existing)"

record add_fd_state =
  add_result :: "fd list"
  subsumedByExisting :: bool
  nextKind :: fd_kind

definition add_fd_step :: "js_refs \<Rightarrow> fd \<Rightarrow> fd \<Rightarrow> add_fd_state \<Rightarrow> add_fd_state" where
  "add_fd_step I nxt existing st =
     (if fdsEqual I existing nxt
      then st\<lparr>subsumedByExisting := True, add_result := add_result st @ [upgrade_kind nxt existing]\<rparr>
      else if determinantsEqual (determinants existing) (determinants nxt) \<and>
              guardsEqual I (fd_guard existing) (fd_guard nxt) \<and>
              dependentsSubset (dependents existing) (dependents nxt)
      then (if fd_kind existing = Unique then st\<lparr>nextKind := Unique\<rparr> else st)
      else if determinantsEqual (determinants existing) (determinants nxt) \<and>
              guardsEqual I (fd_guard existing) (fd_guard nxt) \<and>
              dependentsSubset (dependents nxt) (dependents existing)
      then st\<lparr>subsumedByExisting := True, add_result := add_result st @ [upgrade_kind nxt existing]\<rparr>
      else st\<lparr>add_result := add_result st @ [existing]\<rparr>)"

definition addFd :: "js_refs \<Rightarrow> fd list \<Rightarrow> fd \<Rightarrow> add_fd_options \<Rightarrow> fd list" where
  "addFd I fds nxt opts = (if dependents nxt = [] then fds
     else let st = fold (add_fd_step I nxt) fds
                \<lparr>add_result = [], subsumedByExisting = False, nextKind = fd_kind nxt\<rparr>;
              result = (if subsumedByExisting st then add_result st
                        else add_result st @ [if nextKind st = fd_kind nxt then nxt
                                              else nxt\<lparr>fd_kind := nextKind st\<rparr>])
          in enforceCap result opts)"

definition mergeFds :: "js_refs \<Rightarrow> fd list \<Rightarrow> fd list \<Rightarrow> add_fd_options \<Rightarrow> fd list" where
  "mergeFds I a b opts = fold (\<lambda>f result. addFd I result f opts) b a"

section \<open>Projecting and shifting columns\<close>

text \<open>A column mapping is a JavaScript \<open>Map\<close> from old to new column indices.\<close>

type_synonym col_map = "(nat \<times> nat) list"

fun map_all :: "('a \<Rightarrow> 'b option) \<Rightarrow> 'a list \<Rightarrow> 'b list option" where
  "map_all f [] = Some []"
| "map_all f (x # xs) = (case f x of None \<Rightarrow> None | Some y \<Rightarrow>
     (case map_all f xs of None \<Rightarrow> None | Some ys \<Rightarrow> Some (y # ys)))"

lemma map_all_cong [fundef_cong]:
  "xs = ys \<Longrightarrow> (\<And>x. x \<in> set ys \<Longrightarrow> f x = g x) \<Longrightarrow> map_all f xs = map_all g ys"
  by (induction xs arbitrary: ys) (auto split: option.splits)

fun projectClause :: "guard_clause \<Rightarrow> col_map \<Rightarrow> guard_clause option" where
  "projectClause (EqLiteral c v) mapping = map_option (\<lambda>m. EqLiteral m v) (map_of mapping c)"
| "projectClause (EqColumn a b) mapping = (case (map_of mapping a, map_of mapping b) of
     (Some ml, Some mr) \<Rightarrow> Some (EqColumn ml mr) | _ \<Rightarrow> None)"
| "projectClause (IsNullClause c n) mapping = map_option (\<lambda>m. IsNullClause m n) (map_of mapping c)"
| "projectClause (RangeClause c mn mx mnInc mxInc) mapping =
     map_option (\<lambda>m. RangeClause m mn mx mnInc mxInc) (map_of mapping c)"
| "projectClause (OrOf cs) mapping = map_option OrOf (map_all (\<lambda>c. projectClause c mapping) cs)"

definition projectGuard :: "guard_predicate \<Rightarrow> col_map \<Rightarrow> guard_predicate option" where
  "projectGuard g mapping = map_option (\<lambda>cs. \<lparr>clauses = cs\<rparr>) (map_all (\<lambda>c. projectClause c mapping) (clauses g))"

definition project_fd :: "col_map \<Rightarrow> fd \<Rightarrow> fd option" where
  "project_fd mapping f = (case map_all (map_of mapping) (determinants f) of
     None \<Rightarrow> None
   | Some newDet \<Rightarrow>
      (let newDep = List.map_filter (map_of mapping) (dependents f) in
       if newDep = [] then None
       else (case fd_guard f of
               None \<Rightarrow> Some (f\<lparr>determinants := newDet, dependents := newDep\<rparr>)
             | Some g \<Rightarrow> (case projectGuard g mapping of
                 None \<Rightarrow> None
               | Some h \<Rightarrow> Some (f\<lparr>determinants := newDet, dependents := newDep, fd_guard := Some h\<rparr>)))))"

definition projectFds :: "fd list \<Rightarrow> col_map \<Rightarrow> fd list" where
  "projectFds fds mapping = List.map_filter (project_fd mapping) fds"

fun shiftClause :: "guard_clause \<Rightarrow> nat \<Rightarrow> guard_clause" where
  "shiftClause (EqLiteral c v) offset = EqLiteral (c + offset) v"
| "shiftClause (EqColumn a b) offset = EqColumn (a + offset) (b + offset)"
| "shiftClause (IsNullClause c n) offset = IsNullClause (c + offset) n"
| "shiftClause (RangeClause c mn mx mnInc mxInc) offset = RangeClause (c + offset) mn mx mnInc mxInc"
| "shiftClause (OrOf cs) offset = OrOf (map (\<lambda>c. shiftClause c offset) cs)"

definition shiftGuard :: "guard_predicate \<Rightarrow> nat \<Rightarrow> guard_predicate" where
  "shiftGuard g offset = \<lparr>clauses = map (\<lambda>c. shiftClause c offset) (clauses g)\<rparr>"

definition shift_fd :: "nat \<Rightarrow> fd \<Rightarrow> fd" where
  "shift_fd offset f = (let shifted = f\<lparr>determinants := map (\<lambda>d. d + offset) (determinants f),
                                       dependents := map (\<lambda>d. d + offset) (dependents f)\<rparr> in
     case fd_guard f of None \<Rightarrow> shifted | Some g \<Rightarrow> shifted\<lparr>fd_guard := Some (shiftGuard g offset)\<rparr>)"

definition shiftFds :: "fd list \<Rightarrow> nat \<Rightarrow> fd list" where
  "shiftFds fds offset = (if offset = 0 then fds else map (shift_fd offset) fds)"

definition stripGuard :: "fd \<Rightarrow> fd" where
  "stripGuard f = (if fd_guard f = None then f else f\<lparr>fd_guard := None\<rparr>)"

section \<open>Keys\<close>

definition superkeyToFd :: "nat list \<Rightarrow> nat \<Rightarrow> fd option" where
  "superkeyToFd key n = (let deps = filter (\<lambda>i. i \<notin> set key) [0..<n] in
     if deps = [] then None else Some (new_fd key deps Unique))"

definition closureCoversAll :: "nat list \<Rightarrow> fd list option \<Rightarrow> nat \<Rightarrow> bool" where
  "closureCoversAll attrs fds n = (if n \<le> 0 then True
     else let closure = computeClosure attrs (case fds of None \<Rightarrow> [] | Some fs \<Rightarrow> fs)
          in list_all (\<lambda>i. i \<in> set closure) [0..<n])"

definition isUniqueDeterminant :: "nat list \<Rightarrow> fd list option \<Rightarrow> nat \<Rightarrow> bool \<Rightarrow> bool" where
  "isUniqueDeterminant attrs fds n is_set =
     (let fdList = (case fds of None \<Rightarrow> [] | Some fs \<Rightarrow> fs); closure = computeClosure attrs fdList in
      if \<not> list_all (\<lambda>i. i \<in> set closure) [0..<n] then False
      else if is_set then True
      else list_ex (\<lambda>f. fd_guard f = None \<and> fd_kind f = Unique \<and>
             list_all (\<lambda>d. d \<in> set closure) (determinants f)) fdList)"

definition derive_key_step :: "fd list \<Rightarrow> nat \<Rightarrow> bool \<Rightarrow> fd \<Rightarrow> nat list list \<times> js_string list \<Rightarrow>
    nat list list \<times> js_string list" where
  "derive_key_step fds n is_set f st =
     (if fd_guard f \<noteq> None then st
      else if n \<le> length (determinants f) then st
      else let det = new_set (determinants f) in
        if \<not> isUniqueDeterminant det (Some fds) n is_set then st
        else let sorted_key = sort (minimalCover det fds); key = join_indices sorted_key in
          if key \<in> set (snd st) then st else (fst st @ [sorted_key], set_add key (snd st)))"

definition deriveKeysFromFds :: "fd list option \<Rightarrow> nat \<Rightarrow> bool \<Rightarrow> nat list list" where
  "deriveKeysFromFds fds n is_set = (case fds of None \<Rightarrow> []
     | Some fs \<Rightarrow> fst (fold (derive_key_step fs n is_set) fs ([], [])))"

definition hasAnyKey :: "fd list option \<Rightarrow> nat \<Rightarrow> bool \<Rightarrow> bool" where
  "hasAnyKey fds n is_set = (case fds of None \<Rightarrow> False
     | Some fs \<Rightarrow> list_ex (\<lambda>f. fd_guard f = None \<and> length (determinants f) < n \<and>
         isUniqueDeterminant (new_set (determinants f)) fds n is_set) fs)"

definition hasSingletonFd :: "fd list option \<Rightarrow> nat \<Rightarrow> bool \<Rightarrow> bool" where
  "hasSingletonFd fds n is_set = (if n \<le> 0 then False else isUniqueDeterminant [] fds n is_set)"

definition singletonFd :: "nat \<Rightarrow> fd option" where
  "singletonFd n = (if n \<le> 0 then None else Some (new_fd [] [0..<n] Unique))"

definition addSingletonFd :: "js_refs \<Rightarrow> fd list \<Rightarrow> nat \<Rightarrow> fd list" where
  "addSingletonFd I fds n = (case singletonFd n of None \<Rightarrow> fds | Some f \<Rightarrow> addFd I fds f no_options)"

record key_rel =
  rel_type :: relation_type
  rel_physical :: "physical_props option"

definition rel_fds :: "key_rel \<Rightarrow> fd list option" where
  "rel_fds rel = (case rel_physical rel of None \<Rightarrow> None | Some p \<Rightarrow> phys_fds p)"

definition dedupe_step :: "nat list \<Rightarrow> nat list list \<times> js_string list \<Rightarrow> nat list list \<times> js_string list" where
  "dedupe_step k st = (if join_indices k \<in> set (snd st) then st
     else (fst st @ [k], set_add (join_indices k) (snd st)))"

definition normalizeKeys :: "nat list list \<Rightarrow> nat list list" where
  "normalizeKeys keys = (let uniq = fst (fold dedupe_step (map (\<lambda>k. sort (new_set k)) keys) ([], []))
     in filter (\<lambda>k. \<not> list_ex (\<lambda>other. other \<noteq> k \<and> length other < length k \<and>
                             list_all (\<lambda>c. c \<in> set k) other) uniq) uniq)"

definition allColumns :: "nat \<Rightarrow> nat list" where
  "allColumns n = [0..<n]"

definition keysOf :: "key_rel \<Rightarrow> nat list list" where
  "keysOf rel = (let type = rel_type rel; n = columnCount type; fds = rel_fds rel;
       keys = map (map ref_index) (type_keys type) @
              (if hasSingletonFd fds n (isSet type) then [[]] else []) @
              deriveKeysFromFds fds n (isSet type);
       normalized = normalizeKeys keys
     in if normalized = [] \<and> isSet type \<and> 0 < n then [allColumns n] else normalized)"

definition isUnique :: "nat list \<Rightarrow> key_rel \<Rightarrow> bool" where
  "isUnique cols rel = (let type = rel_type rel; colSet = new_set cols in
     if list_ex (\<lambda>key. list_all (\<lambda>c. c \<in> set colSet) key) (keysOf rel) then True
     else isUniqueDeterminant colSet (rel_fds rel) (columnCount type) (isSet type))"

definition isAtMostOneRow :: "key_rel \<Rightarrow> bool" where
  "isAtMostOneRow rel = isUnique [] rel"

section \<open>Closure: least fixed point\<close>

text \<open>What a set of columns determines, by the unguarded dependencies.\<close>

inductive_set fd_closure :: "nat set \<Rightarrow> fd list \<Rightarrow> nat set" for D fds where
  base: "a \<in> D \<Longrightarrow> a \<in> fd_closure D fds"
| step: "f \<in> set fds \<Longrightarrow> fd_guard f = None \<Longrightarrow> (\<And>d. d \<in> set (determinants f) \<Longrightarrow> d \<in> fd_closure D fds) \<Longrightarrow>
    e \<in> set (dependents f) \<Longrightarrow> e \<in> fd_closure D fds"

lemma fd_closure_mono: "D \<subseteq> E \<Longrightarrow> fd_closure D fds \<subseteq> fd_closure E fds"
proof
  fix a assume "D \<subseteq> E" "a \<in> fd_closure D fds"
  from this(2,1) show "a \<in> fd_closure E fds"
    by induction (blast intro: fd_closure.intros)+
qed

lemma fd_closure_idem: "fd_closure (fd_closure D fds) fds = fd_closure D fds"
proof
  show "fd_closure (fd_closure D fds) fds \<subseteq> fd_closure D fds"
  proof
    fix a assume "a \<in> fd_closure (fd_closure D fds) fds"
    then show "a \<in> fd_closure D fds" by induction (blast intro: fd_closure.intros)+
  qed
qed (auto intro: fd_closure.base)

lemma apply_fd_sound:
  "f \<in> set fds \<Longrightarrow> set (fst st) \<subseteq> fd_closure D fds \<Longrightarrow> set (fst (apply_fd f st)) \<subseteq> fd_closure D fds"
  by (auto simp: apply_fd_def add_deps list_all_iff intro: fd_closure.step)

lemma apply_fds_sound:
  "set fs \<subseteq> set fds \<Longrightarrow> set (fst st) \<subseteq> fd_closure D fds \<Longrightarrow> set (fst (fold apply_fd fs st)) \<subseteq> fd_closure D fds"
  by (induction fs arbitrary: st) (simp_all add: apply_fd_sound)

text \<open>A pass that reports no change has found every dependency closed.\<close>

lemma apply_fd_stable:
  "\<not> snd (apply_fd f st) \<Longrightarrow> apply_fd f st = st \<and> \<not> snd st \<and>
   (fd_guard f = None \<longrightarrow> set (determinants f) \<subseteq> set (fst st) \<longrightarrow> set (dependents f) \<subseteq> set (fst st))"
  using add_deps(3,4) [of "dependents f" st] by (auto simp: apply_fd_def list_all_iff split: if_splits)

lemma apply_fds_stable:
  "\<not> snd (fold apply_fd fs st) \<Longrightarrow> fold apply_fd fs st = st \<and>
   (\<forall>f \<in> set fs. fd_guard f = None \<longrightarrow> set (determinants f) \<subseteq> set (fst st) \<longrightarrow> set (dependents f) \<subseteq> set (fst st))"
proof (induction fs arbitrary: st)
  case (Cons f fs)
  have rest: "fold apply_fd fs (apply_fd f st) = apply_fd f st"
    "\<forall>g \<in> set fs. fd_guard g = None \<longrightarrow> set (determinants g) \<subseteq> set (fst (apply_fd f st)) \<longrightarrow>
       set (dependents g) \<subseteq> set (fst (apply_fd f st))"
    using Cons.IH [of "apply_fd f st"] Cons.prems by simp_all
  have "\<not> snd (apply_fd f st)" using Cons.prems rest(1) by simp
  from apply_fd_stable [OF this] rest show ?case by simp
qed simp

lemma closure_loop_set: "set cl \<subseteq> fd_closure D fds \<Longrightarrow> D \<subseteq> set cl \<Longrightarrow> set (closure_loop fds cl) = fd_closure D fds"
proof (induction fds cl rule: closure_loop.induct)
  case (1 fds cl)
  obtain cl' changed where p: "closure_pass fds cl = (cl', changed)" by fastforce
  have sub: "set cl' \<subseteq> fd_closure D fds" "set cl \<subseteq> set cl'"
    using apply_fds_sound [of fds fds "(cl, False)" D] apply_fds(1) [of "(cl, False)" fds] 1(2) p
    by (simp_all add: closure_pass_def)
  show ?case
  proof (cases changed)
    case True
    then show ?thesis using 1 p sub by (subst closure_loop.simps) auto
  next
    case False
    have st: "cl' = cl"
      "\<forall>f \<in> set fds. fd_guard f = None \<longrightarrow> set (determinants f) \<subseteq> set cl \<longrightarrow> set (dependents f) \<subseteq> set cl"
      using apply_fds_stable [of fds "(cl, False)"] p False by (simp_all add: closure_pass_def)
    have "a \<in> set cl" if "a \<in> fd_closure D fds" for a
      using that
    proof induction
      case (step f e)
      then have "set (determinants f) \<subseteq> set cl" by auto
      then show ?case using st(2) step(1,2,4) by auto
    qed (use 1(3) in auto)
    then show ?thesis using p False st(1) 1(2) by (subst closure_loop.simps) auto
  qed
qed

lemma closure_loop_distinct: "distinct cl \<Longrightarrow> distinct (closure_loop fds cl)"
proof (induction fds cl rule: closure_loop.induct)
  case (1 fds cl)
  obtain cl' changed where p: "closure_pass fds cl = (cl', changed)" by fastforce
  have "distinct cl'" using apply_fds(2) [of fds "(cl, False)"] p 1(2) by (simp add: closure_pass_def)
  then show ?case using 1(1) p by (subst closure_loop.simps) auto
qed

lemma set_computeClosure [simp]: "set (computeClosure attrs fds) = fd_closure (set attrs) fds"
  unfolding computeClosure_def by (rule closure_loop_set) (auto intro: fd_closure.base)

lemma distinct_computeClosure [simp]: "distinct (computeClosure attrs fds)"
  by (simp add: computeClosure_def closure_loop_distinct)

lemma length_computeClosure: "length (computeClosure attrs fds) = card (fd_closure (set attrs) fds)"
  using distinct_card [OF distinct_computeClosure, of attrs fds] by simp

lemma finite_fd_closure [simp]: "finite D \<Longrightarrow> finite (fd_closure D fds)"
  by (metis finite_list set_computeClosure List.finite_set)

text \<open>The closure is what the dependencies determine on every relation that satisfies them.\<close>

lemma closure_determination:
  assumes "\<And>f. f \<in> set fds \<Longrightarrow> fd_guard f = None \<Longrightarrow> determination S R (set (determinants f)) (set (dependents f))"
  shows "determination S R D (fd_closure D fds)"
  unfolding determination_def
proof (intro ballI impI)
  fix r s assume rs: "r \<in> set R" "s \<in> set R" "agree S D r s"
  have "agree S {a} r s" if "a \<in> fd_closure D fds" for a
    using that
  proof induction
    case (base a)
    then show ?case using rs(3) by (simp add: agree_def)
  next
    case (step f e)
    then have "agree S (set (determinants f)) r s" by (auto simp: agree_def)
    then have "agree S (set (dependents f)) r s"
      using assms [OF step(1,2)] rs(1,2) by (auto simp: determination_def)
    then show ?case using step(4) by (auto simp: agree_def)
  qed
  then show "agree S (fd_closure D fds) r s" by (simp add: agree_def)
qed

definition binary_sem :: col_sem where
  "binary_sem = \<lparr>col_cmp = (\<lambda>_. compareSqlValues), pair_eq = (\<lambda>_ _ a b. compareSqlValues a b = 0)\<rparr>"

text \<open>
  Two rows that agree on exactly the columns of \<open>D\<close> below \<open>n\<close>, by the comparison of untyped
  columns.
\<close>

definition split_row :: "nat set \<Rightarrow> nat \<Rightarrow> row" where
  "split_row D n = map (\<lambda>c. if c \<in> D then SqlBlob [] else SqlBlob [0]) [0..<n]"

lemma split_rows_agree:
  "agree binary_sem E (split_row UNIV n) (split_row D n) \<longleftrightarrow> (\<forall>c \<in> E. c < n \<longrightarrow> c \<in> D)"
  "agree binary_sem E (split_row D n) (split_row UNIV n) \<longleftrightarrow> (\<forall>c \<in> E. c < n \<longrightarrow> c \<in> D)"
  by (auto simp: agree_def binary_sem_def row_at_def split_row_def compareSqlValues_def
      compareSqlValuesFast_def Let_def)

lemma split_row_agree_self: "agree binary_sem E (split_row D n) (split_row D n)"
  by (auto simp: agree_def binary_sem_def row_at_def split_row_def compareSqlValues_def
      compareSqlValuesFast_def Let_def)

lemma closure_counter_model:
  assumes "b \<notin> fd_closure D fds"
  shows "\<exists>R. (\<forall>f \<in> set fds. fd_guard f = None \<longrightarrow>
      determination binary_sem R (set (determinants f)) (set (dependents f))) \<and> \<not> determination binary_sem R D {b}"
proof -
  let ?C = "fd_closure D fds"
  have "finite (insert b (\<Union>f \<in> set fds. set (determinants f)))" by simp
  then obtain n where n: "b < n" "\<And>f d. f \<in> set fds \<Longrightarrow> d \<in> set (determinants f) \<Longrightarrow> d < n"
    unfolding finite_nat_set_iff_bounded by blast
  let ?R = "[split_row UNIV n, split_row ?C n]"
  have "determination binary_sem ?R (set (determinants f)) (set (dependents f))"
    if f: "f \<in> set fds" "fd_guard f = None" for f
  proof (cases "set (determinants f) \<subseteq> ?C")
    case True
    then have "set (dependents f) \<subseteq> ?C" using f by (auto intro: fd_closure.step)
    then show ?thesis by (auto simp: determination_def split_rows_agree split_row_agree_self)
  next
    case False
    then show ?thesis using n(2) [OF f(1)]
      by (auto simp: determination_def split_rows_agree split_row_agree_self)
  qed
  moreover have "agree binary_sem D (split_row UNIV n) (split_row ?C n)"
    by (simp add: split_rows_agree fd_closure.base)
  then have "\<not> determination binary_sem ?R D {b}"
    using assms n(1) by (auto simp: determination_def split_rows_agree split_row_agree_self)
  ultimately show ?thesis by blast
qed

text \<open>
  C30. \<open>computeClosure\<close> returns, without duplicates, exactly the columns that the unguarded
  dependencies determine from the given ones: those that agree whenever the given columns agree,
  on every list of rows that satisfies the dependencies, whatever the column comparisons. It is
  thus both sound and complete, and its loop ends. \<open>determines\<close> answers for a set of targets.
\<close>

theorem computeClosure_correct:
  "distinct (computeClosure attrs fds) \<and>
   (b \<in> set (computeClosure attrs fds) \<longleftrightarrow>
    (\<forall>S R. (\<forall>f \<in> set fds. fd_guard f = None \<longrightarrow>
        determination S R (set (determinants f)) (set (dependents f))) \<longrightarrow> determination S R (set attrs) {b})) \<and>
   (determines attrs target fds \<longleftrightarrow> set target \<subseteq> set (computeClosure attrs fds))"
proof (intro conjI)
  show "distinct (computeClosure attrs fds)" by simp
  show "b \<in> set (computeClosure attrs fds) \<longleftrightarrow>
    (\<forall>S R. (\<forall>f \<in> set fds. fd_guard f = None \<longrightarrow>
        determination S R (set (determinants f)) (set (dependents f))) \<longrightarrow> determination S R (set attrs) {b})"
    (is "_ \<longleftrightarrow> ?all")
  proof
    assume "b \<in> set (computeClosure attrs fds)"
    then have b: "{b} \<subseteq> fd_closure (set attrs) fds" by simp
    show ?all
    proof (intro allI impI)
      fix S R assume "\<forall>f \<in> set fds. fd_guard f = None \<longrightarrow> determination S R (set (determinants f)) (set (dependents f))"
      then have "determination S R (set attrs) (fd_closure (set attrs) fds)" by (intro closure_determination) blast
      then show "determination S R (set attrs) {b}" by (rule determination_subset [OF _ subset_refl b])
    qed
  next
    assume ?all
    then show "b \<in> set (computeClosure attrs fds)" using closure_counter_model [of b "set attrs" fds] by auto
  qed
  show "determines attrs target fds \<longleftrightarrow> set target \<subseteq> set (computeClosure attrs fds)"
    by (auto simp: determines_def Let_def list_all_iff)
qed

theorem computeClosure_correct_witness:
  "\<exists>b fds. fds = [new_fd [0] [1] Determination, new_fd [1] [2] Unique] \<and> b = 2 \<and>
     distinct (computeClosure [0] fds) \<and> determines [0] [1, 2] fds \<and> b \<in> set (computeClosure [0] fds) \<and>
     determination binary_sem [[SqlNull, SqlNull, SqlNull], [SqlNull, SqlNull, SqlNull]] {0} {b}"
proof (intro exI conjI)
  let ?fds = "[new_fd [0] [1] Determination, new_fd [1] [2] Unique]"
  let ?R = "[[SqlNull, SqlNull, SqlNull], [SqlNull, SqlNull, SqlNull]] :: rows"
  have cl: "computeClosure [0] ?fds = [0, 1, 2]"
    by code_simp
  have all: "\<forall>f \<in> set ?fds. fd_guard f = None \<longrightarrow>
      determination binary_sem ?R (set (determinants f)) (set (dependents f))"
    by (simp add: new_fd_def determination_def agree_def binary_sem_def row_at_def compareSqlValues_def
        compareSqlValuesFast_def)
  show "distinct (computeClosure [0] ?fds)" by (rule computeClosure_correct [THEN conjunct1])
  show "determines [0] [1, 2] ?fds" unfolding computeClosure_correct [THEN conjunct2, THEN conjunct2] cl by simp
  show two: "2 \<in> set (computeClosure [0] ?fds)" by (simp only: cl) simp
  have "determination binary_sem ?R (set [0]) {2}"
    by (rule computeClosure_correct [THEN conjunct2, THEN conjunct1, THEN iffD1, OF two, rule_format]) (use all in blast)
  then show "determination binary_sem ?R {0} {2}" by simp
qed (rule refl)+

section \<open>Minimal cover\<close>

lemma cover_step_iff:
  assumes "fd_closure (set result) fds = fd_closure D fds" "distinct full" "set full = fd_closure D fds"
  shows "cover_step fds full a result =
    (if fd_closure (set result - {a}) fds = fd_closure D fds then set_delete a result else result)"
proof -
  have sub: "fd_closure (set result - {a}) fds \<subseteq> fd_closure D fds"
    using fd_closure_mono [of "set result - {a}" "set result" fds] assms(1) by auto
  have "length (computeClosure (set_delete a result) fds) = length full \<and>
      list_all (\<lambda>x. x \<in> set (computeClosure (set_delete a result) fds)) full \<longleftrightarrow>
      fd_closure (set result - {a}) fds = fd_closure D fds"
    using sub assms(3) distinct_card [OF assms(2)] by (auto simp: length_computeClosure list_all_iff)
  then show ?thesis by (simp add: cover_step_def Let_def)
qed

lemma cover_fold:
  assumes "distinct full" "set full = fd_closure D fds"
  shows "fd_closure (set result) fds = fd_closure D fds \<Longrightarrow>
    (let out = fold (cover_step fds full) as result in
     set out \<subseteq> set result \<and> fd_closure (set out) fds = fd_closure D fds \<and>
     (\<forall>a \<in> set as \<inter> set out. fd_closure (set out - {a}) fds \<noteq> fd_closure D fds) \<and>
     (distinct result \<longrightarrow> distinct out))"
proof (induction "as" arbitrary: result)
  case (Cons a "as")
  note step = cover_step_iff [OF Cons.prems assms, of a]
  let ?r = "cover_step fds full a result"
  let ?out = "fold (cover_step fds full) as ?r"
  have r: "fd_closure (set ?r) fds = fd_closure D fds" "set ?r \<subseteq> set result"
    "distinct result \<Longrightarrow> distinct ?r" using step Cons.prems by auto
  note ih = Cons.IH [OF r(1), unfolded Let_def]
  have irr: "fd_closure (set ?out - {a}) fds \<noteq> fd_closure D fds" if "a \<in> set ?out"
  proof -
    have kept: "a \<in> set ?r" using ih that by auto
    then have ne: "fd_closure (set result - {a}) fds \<noteq> fd_closure D fds" using step by (auto split: if_splits)
    have mono: "fd_closure (set ?out - {a}) fds \<subseteq> fd_closure (set result - {a}) fds"
      by (rule fd_closure_mono) (use ih r(2) in auto)
    have "fd_closure (set result - {a}) fds \<subseteq> fd_closure D fds"
      using fd_closure_mono [of "set result - {a}" "set result" fds] Cons.prems by auto
    with ne mono show ?thesis by auto
  qed
  show ?case using ih r irr unfolding Let_def by auto
qed simp

lemma cover_fold_subseq: "subseq (fold (cover_step fds full) as result) result"
proof (induction "as" arbitrary: result)
  case (Cons a "as")
  have "subseq (cover_step fds full a result) result"
    by (simp add: cover_step_def Let_def set_delete_def)
  from subseq_order.order_trans [OF Cons this] show ?case by simp
qed simp

text \<open>
  C31. \<open>minimalCover\<close> returns some of the given columns, each once and in the given order, with the
  same closure and from which no column can be dropped: every proper subset of it determines
  less.
\<close>

theorem minimalCover_correct:
  "subseq (minimalCover attrs fds) attrs \<and> distinct (minimalCover attrs fds) \<and>
   set (computeClosure (minimalCover attrs fds) fds) = set (computeClosure attrs fds) \<and>
   (set smaller \<subset> set (minimalCover attrs fds) \<longrightarrow> set (computeClosure smaller fds) \<subset> set (computeClosure attrs fds))"
proof (intro conjI impI)
  let ?out = "minimalCover attrs fds"
  have *: "set ?out \<subseteq> set attrs" "fd_closure (set ?out) fds = fd_closure (set attrs) fds"
    "\<And>a. a \<in> set ?out \<Longrightarrow> a \<in> set attrs \<Longrightarrow> fd_closure (set ?out - {a}) fds \<noteq> fd_closure (set attrs) fds"
    "distinct ?out"
    using cover_fold [of "computeClosure attrs fds" "set attrs" fds "new_set attrs" "new_set attrs"]
    by (auto simp: minimalCover_def Let_def)
  show "subseq ?out attrs"
    using cover_fold_subseq subseq_new_set [of attrs] unfolding minimalCover_def Let_def
    by (rule subseq_order.order_trans)
  show "distinct ?out"
    "set (computeClosure ?out fds) = set (computeClosure attrs fds)" using * by simp_all
  assume sm: "set smaller \<subset> set ?out"
  then obtain a where a: "a \<in> set ?out" "set smaller \<subseteq> set ?out - {a}" by auto
  have "fd_closure (set smaller) fds \<subseteq> fd_closure (set ?out - {a}) fds" by (rule fd_closure_mono [OF a(2)])
  moreover have "fd_closure (set ?out - {a}) fds \<subseteq> fd_closure (set attrs) fds"
    using fd_closure_mono [of "set ?out - {a}" "set ?out" fds] *(2) by auto
  moreover have "fd_closure (set ?out - {a}) fds \<noteq> fd_closure (set attrs) fds" using *(1,3) a(1) by auto
  ultimately show "set (computeClosure smaller fds) \<subset> set (computeClosure attrs fds)" by auto
qed

theorem minimalCover_correct_witness:
  "\<exists>fds. fds = [new_fd [0] [1] Determination] \<and> subseq (minimalCover [0, 1] fds) [0, 1] \<and> set (minimalCover [0, 1] fds) = {0} \<and>
     set (computeClosure [] fds) \<subset> set (computeClosure [0, 1] fds)"
proof (intro exI conjI)
  let ?fds = "[new_fd [0] [1] Determination]"
  have out: "minimalCover [0, 1] ?fds = [0]" by code_simp
  show "subseq (minimalCover [0, 1] ?fds) [0, 1]" by (rule minimalCover_correct [THEN conjunct1])
  show "set (minimalCover [0, 1] ?fds) = {0}" using out by simp
  show "set (computeClosure [] ?fds) \<subset> set (computeClosure [0, 1] ?fds)"
    by (rule minimalCover_correct [THEN conjunct2, THEN conjunct2, THEN conjunct2, THEN mp]) (unfold out, auto)
qed (rule refl)

text \<open>
  The result is irreducible, not smallest: columns are tried in order, and dropping column 0
  first leaves the two-column cover where \<open>{0}\<close> alone would do.
\<close>

lemma minimalCover_not_smallest:
  "\<exists>fds. fds = [new_fd [0] [1, 2] Determination, new_fd [1, 2] [0] Determination] \<and>
     minimalCover [0, 1, 2] fds = [1, 2] \<and> set (computeClosure [0] fds) = set (computeClosure [0, 1, 2] fds)"
  by (rule exI, rule conjI, rule refl) code_simp

end
