(* ===== verification/Fd_Sound.thy ===== *)
theory Fd_Sound
  imports Fd_Core
begin

text \<open>
  Soundness of the dependency lists: guards that compare equal cover the same rows, \<open>addFd\<close> and
  \<open>mergeFds\<close> keep every claim true and lose none below the cap, projection and shifting carry the
  claims to the renamed columns, and the uniqueness questions answer yes only for row-unique
  columns.
\<close>

section \<open>Columns with lawful comparisons\<close>

definition rows_ok :: "rows \<Rightarrow> bool" where
  "rows_ok R \<longleftrightarrow> (\<forall>r \<in> set R. \<forall>v \<in> set r. not_nan v)"

definition lawful_columns :: "js_refs \<Rightarrow> col_sem \<Rightarrow> bool" where
  "lawful_columns I S \<longleftrightarrow> (\<forall>c. comparator_on {v. not_nan v} (col_cmp S c)) \<and>
     (\<forall>c a b. sqlValueEquals I a b \<longrightarrow> col_cmp S c a b = 0) \<and>
     (\<forall>a b x y. pair_eq S a b x y \<longrightarrow> pair_eq S b a y x)"

locale column_world =
  fixes I :: js_refs and S :: col_sem
  assumes columns_comparator: "comparator_on {v. not_nan v} (col_cmp S c)"
    and columns_strict: "sqlValueEquals I a b \<Longrightarrow> col_cmp S c a b = 0"
    and columns_pair_sym: "pair_eq S l m x y \<Longrightarrow> pair_eq S m l y x"

lemma column_worldI: "lawful_columns I S \<Longrightarrow> column_world I S"
  by (rule column_world.intro) (auto simp: lawful_columns_def)

lemma rows_ok_at: "rows_ok R \<Longrightarrow> r \<in> set R \<Longrightarrow> not_nan (row_at r c)"
  by (simp add: rows_ok_def row_at_not_nan)

lemma rows_ok_filter: "rows_ok R \<Longrightarrow> rows_ok (filter P R)"
  by (auto simp: rows_ok_def)

lemma sqlValueEquals_props:
  assumes "sqlValueEquals I a b"
  shows "not_nan a" "not_nan b" "a = SqlNull \<longleftrightarrow> b = SqlNull"
  using assms by (cases a; auto split: sql_value.splits)+

text \<open>The greedy matching pairs every clause of either list with an equal one of the other.\<close>

lemma first_unused_Some:
  "first_unused eq x ys used = Some i \<Longrightarrow> i < length ys \<and> \<not> used ! i \<and> eq x (ys ! i)"
  by (auto simp: first_unused_def find_Some_iff)

lemma match_clauses_left:
  "match_clauses eq xs ys used \<Longrightarrow> x \<in> set xs \<Longrightarrow> \<exists>y \<in> set ys. eq x y"
proof (induction xs arbitrary: used)
  case (Cons a xs)
  then show ?case by (cases "x = a") (fastforce split: option.splits dest: first_unused_Some)+
qed simp

lemma match_clauses_right:
  "match_clauses eq xs ys used \<Longrightarrow> length used = length ys \<Longrightarrow>
   card {i. i < length ys \<and> \<not> used ! i} = length xs \<Longrightarrow> j < length ys \<Longrightarrow> \<not> used ! j \<Longrightarrow>
   \<exists>x \<in> set xs. eq x (ys ! j)"
proof (induction xs arbitrary: used)
  case Nil
  then have "{i. i < length ys \<and> \<not> used ! i} = {}" by simp
  then show ?case using Nil by auto
next
  case (Cons a xs)
  from Cons.prems(1) obtain i where i: "first_unused eq a ys used = Some i"
    and rest: "match_clauses eq xs ys (used[i := True])" by (auto split: option.splits)
  note f = first_unused_Some [OF i]
  show ?case
  proof (cases "j = i")
    case True
    then show ?thesis using f by auto
  next
    case False
    have "{k. k < length ys \<and> \<not> used[i := True] ! k} = {k. k < length ys \<and> \<not> used ! k} - {i}"
      using Cons.prems(2) f by (auto simp: nth_list_update split: if_splits)
    then have "card {k. k < length ys \<and> \<not> used[i := True] ! k} = length xs"
      using Cons.prems(3) f by simp
    from Cons.IH [OF rest _ this Cons.prems(4)] Cons.prems(2,5) False show ?thesis by auto
  qed
qed

lemma match_clauses_unused:
  assumes "length xs = length ys" "match_clauses eq xs ys (unused ys)"
  shows "x \<in> set xs \<Longrightarrow> \<exists>y \<in> set ys. eq x y" "y \<in> set ys \<Longrightarrow> \<exists>x \<in> set xs. eq x y"
proof -
  show "x \<in> set xs \<Longrightarrow> \<exists>y \<in> set ys. eq x y" by (rule match_clauses_left [OF assms(2)])
  assume "y \<in> set ys"
  then obtain j where j: "j < length ys" "ys ! j = y" by (auto simp: in_set_conv_nth)
  have "{i. i < length ys \<and> \<not> unused ys ! i} = {..<length ys}" by (auto simp: unused_def)
  then have "card {i. i < length ys \<and> \<not> unused ys ! i} = length xs" using assms(1) by simp
  from match_clauses_right [OF assms(2) _ this j(1)] j show "\<exists>x \<in> set xs. eq x y" by (simp add: unused_def)
qed

lemma sgn_eq_iff:
  "sgn (x :: int) = sgn y \<Longrightarrow> x = 0 \<longleftrightarrow> y = 0" "sgn x = sgn y \<Longrightarrow> x < 0 \<longleftrightarrow> y < 0"
  by (auto simp: sgn_if split: if_splits)

lemma determinantsEqual_set: "determinantsEqual a b \<Longrightarrow> distinct b \<Longrightarrow> set a = set b"
proof -
  assume *: "determinantsEqual a b" "distinct b"
  then have sub: "set b \<subseteq> set a" "length a = length b" by (auto simp: determinantsEqual_def list_all_iff)
  then have "card (set a) \<le> card (set b)" using card_length [of a] distinct_card [OF *(2)] by simp
  then show ?thesis using sub card_seteq [of "set a" "set b"] by auto
qed

lemma set_uniqueFirst [simp]: "set (uniqueFirst fs) = set fs" "length (uniqueFirst fs) = length fs"
  by (auto simp: uniqueFirst_def sum_length_filter_compl)

lemma enforceCap_subset: "set (enforceCap fds opts) \<subseteq> set fds"
  by (auto simp: enforceCap_def Let_def dest!: in_set_takeD split: if_splits)

context column_world
begin

lemma cmp_equal_sgn:
  assumes "sqlValueEquals I a b" "not_nan v"
  shows "sgn (col_cmp S c v a) = sgn (col_cmp S c v b)" "sgn (col_cmp S c a v) = sgn (col_cmp S c b v)"
proof -
  have *: "col_cmp S c a b = 0" "not_nan a" "not_nan b"
    using columns_strict assms(1) sqlValueEquals_props by blast+
  show r: "sgn (col_cmp S c a v) = sgn (col_cmp S c b v)"
    using comparator_on.cmp_eq_subst [OF columns_comparator, of a b v] * assms(2) by simp
  show "sgn (col_cmp S c v a) = sgn (col_cmp S c v b)"
    using comparator_on.cmp_antisym [OF columns_comparator, of a v] comparator_on.cmp_antisym [OF columns_comparator, of b v]
      * assms(2) r by simp
qed

lemma cmp_equal_literal:
  assumes "sqlValueEquals I a b" "not_nan v"
  shows "col_cmp S c v a = 0 \<longleftrightarrow> col_cmp S c v b = 0" "col_cmp S c v a < 0 \<longleftrightarrow> col_cmp S c v b < 0"
    "col_cmp S c a v = 0 \<longleftrightarrow> col_cmp S c b v = 0" "col_cmp S c a v < 0 \<longleftrightarrow> col_cmp S c b v < 0"
  by (rule sgn_eq_iff, rule cmp_equal_sgn [OF assms])+

lemma bound_eq_range:
  assumes "not_nan v" "bound_eq I mn mnInc mn' mnInc'" "bound_eq I mx mxInc mx' mxInc'"
  shows "in_range (col_cmp S c) mn mx mnInc mxInc v \<longleftrightarrow> in_range (col_cmp S c) mn' mx' mnInc' mxInc' v"
proof -
  have lo: "(case mn of None \<Rightarrow> True | Some m \<Rightarrow> col_cmp S c m v < 0 \<or> mnInc \<and> col_cmp S c m v = 0) \<longleftrightarrow>
      (case mn' of None \<Rightarrow> True | Some m \<Rightarrow> col_cmp S c m v < 0 \<or> mnInc' \<and> col_cmp S c m v = 0)"
  proof (cases "(mn, mn')")
    case (Pair a b)
    then show ?thesis using assms(2) cmp_equal_literal(3,4) [OF _ assms(1), of _ _ c]
      by (cases a; cases b) (auto simp: bound_eq_def)
  qed
  have hi: "(case mx of None \<Rightarrow> True | Some m \<Rightarrow> col_cmp S c v m < 0 \<or> mxInc \<and> col_cmp S c v m = 0) \<longleftrightarrow>
      (case mx' of None \<Rightarrow> True | Some m \<Rightarrow> col_cmp S c v m < 0 \<or> mxInc' \<and> col_cmp S c v m = 0)"
  proof (cases "(mx, mx')")
    case (Pair a b)
    then show ?thesis using assms(3) cmp_equal_literal(1,2) [OF _ assms(1), of _ _ c]
      by (cases a; cases b) (auto simp: bound_eq_def)
  qed
  show ?thesis unfolding in_range_def lo hi ..
qed

lemma guardClauseEquals_sat:
  assumes "\<And>c. not_nan (row_at r c)"
  shows "guardClauseEquals I a b \<Longrightarrow> clause_sat S a r \<longleftrightarrow> clause_sat S b r"
proof (induction a arbitrary: b)
  case (EqLiteral c v)
  then obtain v' where b: "b = EqLiteral c v'" "sqlValueEquals I v v'" by (cases b) auto
  show ?case using cmp_equal_literal(1) [OF b(2) assms, of c c] sqlValueEquals_props(3) [OF b(2)]
    by (auto simp: b(1))
next
  case (EqColumn x y)
  then show ?case using columns_pair_sym by (cases b) auto
next
  case (IsNullClause c n)
  then show ?case by (cases b) auto
next
  case (RangeClause c mn mx mnInc mxInc)
  then show ?case using bound_eq_range [OF assms] by (cases b) auto
next
  case (OrOf xs)
  then obtain ys where b: "b = OrOf ys" and len: "length xs = length ys"
    and m: "match_clauses (guardClauseEquals I) xs ys (unused ys)" by (cases b) auto
  show ?case
  proof
    assume "clause_sat S (OrOf xs) r"
    then obtain x where x: "x \<in> set xs" "clause_sat S x r" by auto
    with match_clauses_unused(1) [OF len m] obtain y where "y \<in> set ys" "guardClauseEquals I x y" by blast
    then show "clause_sat S b r" using OrOf.IH [OF x(1)] x(2) b by auto
  next
    assume "clause_sat S b r"
    then obtain y where y: "y \<in> set ys" "clause_sat S y r" using b by auto
    with match_clauses_unused(2) [OF len m] obtain x where "x \<in> set xs" "guardClauseEquals I x y" by blast
    then show "clause_sat S (OrOf xs) r" using OrOf.IH y(2) by auto
  qed
qed

lemma guardsEqual_sat:
  assumes "lawful_refs I" "\<And>c. not_nan (row_at r c)" "guardsEqual I g h"
  shows "guard_sat S g r \<longleftrightarrow> guard_sat S h r"
proof (cases "(g, h)")
  case (Pair a b)
  show ?thesis
  proof (cases "a = b")
    case False
    with Pair assms obtain p q where pq: "g = Some p" "h = Some q"
      "length (clauses p) = length (clauses q)"
      "match_clauses (guardClauseEquals I) (clauses p) (clauses q) (unused (clauses q))"
      by (auto simp: guardsEqual_def lawful_refs_def split: option.splits)
    note m = match_clauses_unused [OF pq(3,4)]
    have "(\<forall>c \<in> set (clauses p). clause_sat S c r) \<longleftrightarrow> (\<forall>c \<in> set (clauses q). clause_sat S c r)"
      using m guardClauseEquals_sat [OF assms(2)] by blast
    then show ?thesis by (simp add: guard_sat_def pq)
  qed (use Pair in simp)
qed

lemma guardsEqual_scope:
  "lawful_refs I \<Longrightarrow> rows_ok R \<Longrightarrow> guardsEqual I g h \<Longrightarrow> scope S g R = scope S h R"
  unfolding scope_def by (rule filter_cong [OF refl], rule guardsEqual_sat) (auto simp: rows_ok_at)

lemma fd_holds_upgrade:
  assumes "lawful_refs I" "rows_ok R" "fd_holds S R e" "fd_holds S R f"
    "set (determinants e) = set (determinants f)" "guardsEqual I (fd_guard e) (fd_guard f)"
  shows "fd_kind f = Unique \<Longrightarrow> fd_holds S R (e\<lparr>fd_kind := Unique\<rparr>)"
    "fd_kind e = Unique \<Longrightarrow> fd_holds S R (f\<lparr>fd_kind := Unique\<rparr>)"
  using assms(3-5) guardsEqual_scope [OF assms(1,2,6)] by (simp_all add: fd_holds_def)

lemma add_fd_step_sound:
  assumes I: "lawful_refs I" "rows_ok R" and nxt: "fd_holds S R nxt" "distinct (determinants nxt)"
    and e: "fd_holds S R e"
    and st: "fds_hold S R (add_result st)" "fd_holds S R (nxt\<lparr>fd_kind := nextKind st\<rparr>)"
  shows "fds_hold S R (add_result (add_fd_step I nxt e st))"
    "fd_holds S R (nxt\<lparr>fd_kind := nextKind (add_fd_step I nxt e st)\<rparr>)"
proof -
  have dets: "set (determinants e) = set (determinants nxt)"
    if "determinantsEqual (determinants e) (determinants nxt)"
    using that nxt(2) by (rule determinantsEqual_set)
  have up: "fd_holds S R (upgrade_kind nxt e)"
    if "determinantsEqual (determinants e) (determinants nxt)" "guardsEqual I (fd_guard e) (fd_guard nxt)"
    using e fd_holds_upgrade(1) [OF I e nxt(1) dets [OF that(1)] that(2)] by (simp add: upgrade_kind_def)
  have dn: "fd_holds S R (nxt\<lparr>fd_kind := Unique\<rparr>)"
    if "determinantsEqual (determinants e) (determinants nxt)" "guardsEqual I (fd_guard e) (fd_guard nxt)" "fd_kind e = Unique"
    by (rule fd_holds_upgrade(2) [OF I e nxt(1) dets [OF that(1)] that(2,3)])
  have eq: "determinantsEqual (determinants e) (determinants nxt)" "guardsEqual I (fd_guard e) (fd_guard nxt)"
    if "fdsEqual I e nxt" using that by (auto simp: fdsEqual_def determinantsEqual_def)
  show "fds_hold S R (add_result (add_fd_step I nxt e st))"
    using st(1) e up eq by (auto simp: add_fd_step_def fds_hold_def)
  show "fd_holds S R (nxt\<lparr>fd_kind := nextKind (add_fd_step I nxt e st)\<rparr>)"
    using st(2) dn by (auto simp: add_fd_step_def)
qed

lemma add_fd_fold_sound:
  assumes "lawful_refs I" "rows_ok R" "fd_holds S R nxt" "distinct (determinants nxt)"
  shows "fds_hold S R es \<Longrightarrow> fds_hold S R (add_result st) \<Longrightarrow> fd_holds S R (nxt\<lparr>fd_kind := nextKind st\<rparr>) \<Longrightarrow>
    fds_hold S R (add_result (fold (add_fd_step I nxt) es st)) \<and>
    fd_holds S R (nxt\<lparr>fd_kind := nextKind (fold (add_fd_step I nxt) es st)\<rparr>)"
proof (induction es arbitrary: st)
  case (Cons e es)
  have e: "fd_holds S R e" using Cons.prems(1) by (simp add: fds_hold_def)
  have es: "fds_hold S R es" using Cons.prems(1) by (simp add: fds_hold_def)
  show ?case using Cons.IH [OF es add_fd_step_sound [OF assms e Cons.prems(2,3)]] by simp
qed simp

lemma addFd_fds_hold:
  assumes "lawful_refs I" "rows_ok R" "fd_holds S R nxt" "distinct (determinants nxt)" "fds_hold S R fds"
  shows "fds_hold S R (addFd I fds nxt opts)"
proof -
  let ?st = "fold (add_fd_step I nxt) fds \<lparr>add_result = [], subsumedByExisting = False, nextKind = fd_kind nxt\<rparr>"
  have *: "fds_hold S R (add_result ?st)" "fd_holds S R (nxt\<lparr>fd_kind := nextKind ?st\<rparr>)"
    using add_fd_fold_sound [OF assms(1-5), of "\<lparr>add_result = [], subsumedByExisting = False, nextKind = fd_kind nxt\<rparr>"]
      assms(3) by (simp_all add: fds_hold_def)
  then have "fds_hold S R (if subsumedByExisting ?st then add_result ?st
      else add_result ?st @ [if nextKind ?st = fd_kind nxt then nxt else nxt\<lparr>fd_kind := nextKind ?st\<rparr>])"
    using assms(3) by (auto simp: fds_hold_def)
  then show ?thesis using assms(5) enforceCap_subset unfolding addFd_def Let_def fds_hold_def
    by (auto dest!: subsetD [OF enforceCap_subset])
qed

lemma mergeFds_fds_hold:
  assumes "lawful_refs I" "rows_ok R"
  shows "fds_hold S R a \<Longrightarrow> fds_hold S R b \<Longrightarrow> \<forall>f \<in> set b. distinct (determinants f) \<Longrightarrow> fds_hold S R (mergeFds I a b opts)"
proof (induction b arbitrary: a)
  case (Cons f b)
  have "fds_hold S R (addFd I a f opts)"
    by (rule addFd_fds_hold [OF assms]) (use Cons.prems in \<open>auto simp: fds_hold_def\<close>)
  from Cons.IH [OF this] Cons.prems show ?case by (simp add: mergeFds_def fds_hold_def)
qed (simp add: mergeFds_def)

end

text \<open>
  The laws hold of the comparisons the engine runs on untyped columns, whatever total
  collations are declared.
\<close>

definition collated_sem :: "(nat \<Rightarrow> collation) \<Rightarrow> (nat \<Rightarrow> nat \<Rightarrow> collation) \<Rightarrow> col_sem" where
  "collated_sem colls pairs = \<lparr>col_cmp = (\<lambda>c a b. compareSqlValuesFast a b (colls c)),
     pair_eq = (\<lambda>l m a b. not_nan a \<and> not_nan b \<and> compareSqlValuesFast a b (pairs l m) = 0)\<rparr>"

lemma strict_zero_compare:
  assumes "\<not> is_nan a" "\<not> is_nan b" "a = b \<or> dmag a = 0 \<and> dmag b = 0"
  shows "compareNumbers (Dbl a) (Dbl b) = 0"
proof -
  have "num_value (Dbl a) = num_value (Dbl b)"
    using assms by (auto simp: is_inf_def mag_inf_def mag_scaled_def Let_def)
  then show ?thesis by (simp add: compareNumbers_def js_less_def split: option.splits)
qed

lemma strict_equal_compare:
  assumes "lawful_refs I" "comparator_total coll" "sqlValueEquals I a b"
  shows "compareSqlValuesFast a b coll = 0"
proof -
  have same: "compareSqlValuesFast v v coll = 0" if "not_nan v" for v
    using comparator_on.cmp_refl [OF compareSqlValuesFast_comparator [OF assms(2)], of v] that by simp
  show ?thesis
  proof (cases a)
    case (SqlNum x)
    with assms(3) obtain y where y: "b = SqlNum y" "\<not> is_nan x" "\<not> is_nan y" "x = y \<or> dmag x = 0 \<and> dmag y = 0"
      by (auto split: sql_value.splits)
    show ?thesis using strict_zero_compare [OF y(2-4)] SqlNum y(1) by (simp add: compareSqlValuesFast_def Let_def)
  qed (use assms(1,3) same [of a] in \<open>auto simp: lawful_refs_def split: sql_value.splits\<close>)
qed

lemma lawful_collated:
  assumes "lawful_refs I" "\<And>c. comparator_total (colls c)" "\<And>l m. comparator_total (pairs l m)"
    "\<And>l m. pairs l m = pairs m l"
  shows "lawful_columns I (collated_sem colls pairs)"
  unfolding lawful_columns_def collated_sem_def
proof (intro conjI allI impI; simp)
  show "comparator_on {v. not_nan v} (\<lambda>a b. compareSqlValuesFast a b (colls c))" for c
    by (rule compareSqlValuesFast_comparator [OF assms(2)])
  show "sqlValueEquals I a b \<Longrightarrow> compareSqlValuesFast a b (colls c) = 0" for c a b
    by (rule strict_equal_compare [OF assms(1,2)])
  show "not_nan x \<and> not_nan y \<and> compareSqlValuesFast x y (pairs l m) = 0 \<Longrightarrow> compareSqlValuesFast y x (pairs m l) = 0"
    for l m x y
    using comparator_on.cmp_flip(2) [OF compareSqlValuesFast_comparator [OF assms(3) [of l m]], of x y] assms(4) [of l m] by simp
qed

definition binary_columns :: col_sem where
  "binary_columns = collated_sem (\<lambda>_. BINARY_COLLATION) (\<lambda>_ _. BINARY_COLLATION)"

lemma lawful_structural [simp]: "lawful_refs structural_refs"
  by (simp add: lawful_refs_def structural_refs_def)

lemma lawful_binary: "lawful_refs I \<Longrightarrow> lawful_columns I binary_columns"
  unfolding binary_columns_def using builtin_comparators by (intro lawful_collated) auto

interpretation binary_cols: column_world structural_refs binary_columns
  by (rule column_worldI) (simp add: lawful_binary)

section \<open>What \<open>addFd\<close> keeps\<close>

definition cap_of :: "add_fd_options \<Rightarrow> nat" where
  "cap_of opts = (case fd_cap opts of None \<Rightarrow> MAX_FDS_PER_NODE | Some c \<Rightarrow> c)"

text \<open>The three fates of an existing entry: replaced by the new one, absorbing it, or kept beside it.\<close>

definition same_claim :: "js_refs \<Rightarrow> fd \<Rightarrow> fd \<Rightarrow> bool" where
  "same_claim I e f \<longleftrightarrow> determinantsEqual (determinants e) (determinants f) \<and> guardsEqual I (fd_guard e) (fd_guard f)"

definition replaced :: "js_refs \<Rightarrow> fd \<Rightarrow> fd \<Rightarrow> bool" where
  "replaced I nxt e \<longleftrightarrow> \<not> fdsEqual I e nxt \<and> same_claim I e nxt \<and> dependentsSubset (dependents e) (dependents nxt)"

definition absorbs :: "js_refs \<Rightarrow> fd \<Rightarrow> fd \<Rightarrow> bool" where
  "absorbs I nxt e \<longleftrightarrow> \<not> replaced I nxt e \<and>
     (fdsEqual I e nxt \<or> same_claim I e nxt \<and> dependentsSubset (dependents nxt) (dependents e))"

definition kept_entry :: "js_refs \<Rightarrow> fd \<Rightarrow> fd \<Rightarrow> fd" where
  "kept_entry I nxt e = (if absorbs I nxt e then upgrade_kind nxt e else e)"

lemma add_fd_fold:
  "fold (add_fd_step I nxt) es st =
     \<lparr>add_result = add_result st @ map (kept_entry I nxt) (filter (\<lambda>e. \<not> replaced I nxt e) es),
      subsumedByExisting = (subsumedByExisting st \<or> list_ex (absorbs I nxt) es),
      nextKind = (if list_ex (\<lambda>e. replaced I nxt e \<and> fd_kind e = Unique) es then Unique else nextKind st)\<rparr>"
proof (induction es arbitrary: st)
  case (Cons e es)
  have "add_fd_step I nxt e st =
     \<lparr>add_result = add_result st @ (if replaced I nxt e then [] else [kept_entry I nxt e]),
      subsumedByExisting = (subsumedByExisting st \<or> absorbs I nxt e),
      nextKind = (if replaced I nxt e \<and> fd_kind e = Unique then Unique else nextKind st)\<rparr>"
    by (cases st) (auto simp: add_fd_step_def replaced_def absorbs_def kept_entry_def same_claim_def)
  then show ?case by (simp add: Cons.IH)
qed simp

text \<open>The list before the cap.\<close>

definition add_raw :: "js_refs \<Rightarrow> fd list \<Rightarrow> fd \<Rightarrow> fd list" where
  "add_raw I fds nxt = map (kept_entry I nxt) (filter (\<lambda>e. \<not> replaced I nxt e) fds) @
     (if list_ex (absorbs I nxt) fds then []
      else [if list_ex (\<lambda>e. replaced I nxt e \<and> fd_kind e = Unique) fds then nxt\<lparr>fd_kind := Unique\<rparr> else nxt])"

lemma fd_kind_same: "fd_kind f = k \<Longrightarrow> f\<lparr>fd_kind := k\<rparr> = f"
  by (cases f) simp

lemma addFd_raw: "addFd I fds nxt opts = (if dependents nxt = [] then fds else enforceCap (add_raw I fds nxt) opts)"
  by (auto simp: addFd_def add_fd_fold Let_def add_raw_def fd_kind_same)

lemma length_enforceCap: "length (enforceCap fds opts) \<le> cap_of opts"
  by (auto simp: enforceCap_def cap_of_def Let_def)

lemma enforceCap_id: "length fds \<le> cap_of opts \<Longrightarrow> enforceCap fds opts = fds"
  by (auto simp: enforceCap_def cap_of_def Let_def)

lemma length_add_raw: "length (add_raw I fds nxt) \<le> Suc (length fds)"
  by (simp add: add_raw_def le_SucI)

lemma kept_entry_fields [simp]:
  "determinants (kept_entry I nxt e) = determinants e" "dependents (kept_entry I nxt e) = dependents e"
  "fd_guard (kept_entry I nxt e) = fd_guard e"
  by (simp_all add: kept_entry_def upgrade_kind_def)

lemma guardsEqual_undefined [simp]: "guardsEqual I None h \<longleftrightarrow> h = None" "guardsEqual I g None \<longleftrightarrow> g = None"
  by (auto simp: guardsEqual_def split: option.splits)

lemma guardsEqual_None: "guardsEqual I g h \<Longrightarrow> g = None \<longleftrightarrow> h = None"
  by (auto simp: guardsEqual_def split: option.splits)

lemma fdsEqual_same_claim: "fdsEqual I e f \<Longrightarrow> same_claim I e f"
  by (auto simp: fdsEqual_def same_claim_def determinantsEqual_def)

lemma replaced_props:
  assumes "replaced I nxt e" "distinct (determinants nxt)"
  shows "set (determinants e) = set (determinants nxt)" "set (dependents e) \<subseteq> set (dependents nxt)"
    "fd_guard e = None \<longleftrightarrow> fd_guard nxt = None"
  using assms determinantsEqual_set guardsEqual_None
  by (auto simp: replaced_def same_claim_def dependentsSubset_def list_all_iff)

lemma absorbs_props:
  assumes "absorbs I nxt e" "distinct (determinants nxt)"
  shows "set (determinants e) = set (determinants nxt)" "set (dependents nxt) \<subseteq> set (dependents e)"
    "fd_guard e = None \<longleftrightarrow> fd_guard nxt = None"
proof -
  have "same_claim I e nxt" using assms(1) fdsEqual_same_claim by (auto simp: absorbs_def)
  then show "set (determinants e) = set (determinants nxt)" "fd_guard e = None \<longleftrightarrow> fd_guard nxt = None"
    using determinantsEqual_set assms(2) guardsEqual_None by (auto simp: same_claim_def)
  show "set (dependents nxt) \<subseteq> set (dependents e)"
    using assms(1) by (auto simp: absorbs_def fdsEqual_def dependentsSubset_def list_all_iff)
qed

text \<open>Every unguarded claim of the input is entailed by one of the output, and back.\<close>

definition covers_claim :: "fd \<Rightarrow> fd \<Rightarrow> bool" where
  "covers_claim g f \<longleftrightarrow> fd_guard g = None \<and> set (determinants g) = set (determinants f) \<and> set (dependents f) \<subseteq> set (dependents g)"

lemma add_raw_next:
  assumes "distinct (determinants nxt)" "fd_guard nxt = None"
  obtains g where "g \<in> set (add_raw I fds nxt)" "covers_claim g nxt"
    "list_ex (absorbs I nxt) fds \<or> g = nxt \<or> g = nxt\<lparr>fd_kind := Unique\<rparr>"
proof (cases "list_ex (absorbs I nxt) fds")
  case True
  then obtain e where e: "e \<in> set fds" "absorbs I nxt e" by (auto simp: list_ex_iff)
  then have "kept_entry I nxt e \<in> set (add_raw I fds nxt)" by (auto simp: add_raw_def absorbs_def)
  moreover have "covers_claim (kept_entry I nxt e) nxt"
    using absorbs_props [OF e(2) assms(1)] assms(2) by (simp add: covers_claim_def)
  ultimately show ?thesis using that True by blast
next
  case False
  let ?n = "if list_ex (\<lambda>e. replaced I nxt e \<and> fd_kind e = Unique) fds then nxt\<lparr>fd_kind := Unique\<rparr> else nxt"
  have "?n \<in> set (add_raw I fds nxt)" using False by (simp add: add_raw_def)
  moreover have "covers_claim ?n nxt" using assms(2) by (auto simp: covers_claim_def)
  ultimately show ?thesis using that by (metis (full_types))
qed

lemma add_raw_covers:
  assumes "distinct (determinants nxt)" "f \<in> set (nxt # fds)" "fd_guard f = None"
  shows "\<exists>g \<in> set (add_raw I fds nxt). covers_claim g f"
proof (cases "f = nxt \<or> replaced I nxt f")
  case True
  have nxt: "fd_guard nxt = None" using True assms replaced_props(3) by blast
  from add_raw_next [OF assms(1) nxt, of I fds] obtain g where g: "g \<in> set (add_raw I fds nxt)" "covers_claim g nxt" by blast
  have "covers_claim g f"
    using True
  proof
    assume r: "replaced I nxt f"
    then show ?thesis using replaced_props [OF r assms(1)] g(2) by (auto simp: covers_claim_def)
  qed (use g(2) in simp)
  with g(1) show ?thesis ..
next
  case False
  then have "kept_entry I nxt f \<in> set (add_raw I fds nxt)" using assms(2) by (auto simp: add_raw_def)
  moreover have "covers_claim (kept_entry I nxt f) f" using assms(3) by (simp add: covers_claim_def)
  ultimately show ?thesis ..
qed

lemma add_raw_origin:
  assumes "g \<in> set (add_raw I fds nxt)"
  shows "\<exists>f \<in> set (nxt # fds). determinants g = determinants f \<and> dependents g = dependents f \<and> fd_guard g = fd_guard f"
  using assms by (auto simp: add_raw_def split: if_splits)

lemma fd_closure_covers:
  assumes "\<And>f. f \<in> set fs \<Longrightarrow> fd_guard f = None \<Longrightarrow> \<exists>g \<in> set gs. covers_claim g f"
  shows "fd_closure D fs \<subseteq> fd_closure D gs"
proof
  fix a assume "a \<in> fd_closure D fs"
  then show "a \<in> fd_closure D gs"
  proof induction
    case (step f e)
    obtain g where g: "g \<in> set gs" "covers_claim g f" using assms [OF step(1,2)] by blast
    show ?case by (rule fd_closure.step [OF g(1)]) (use g(2) step in \<open>auto simp: covers_claim_def\<close>)
  qed (rule fd_closure.base)
qed

lemma fd_closure_add_raw:
  assumes "distinct (determinants nxt)"
  shows "fd_closure D (add_raw I fds nxt) = fd_closure D (nxt # fds)"
proof
  show "fd_closure D (nxt # fds) \<subseteq> fd_closure D (add_raw I fds nxt)"
    by (rule fd_closure_covers) (rule add_raw_covers [OF assms])
  show "fd_closure D (add_raw I fds nxt) \<subseteq> fd_closure D (nxt # fds)"
  proof (rule fd_closure_covers)
    fix g assume "g \<in> set (add_raw I fds nxt)" "fd_guard g = None"
    then show "\<exists>f \<in> set (nxt # fds). covers_claim f g"
      using add_raw_origin [of g I fds nxt] by (force simp: covers_claim_def)
  qed
qed

text \<open>
  A list is normal when determinants carry no duplicates and no unguarded entry makes another
  of the same determinants redundant.
\<close>

definition incomparable :: "fd \<Rightarrow> fd \<Rightarrow> bool" where
  "incomparable a b \<longleftrightarrow> \<not> (fd_guard a = None \<and> fd_guard b = None \<and> set (determinants a) = set (determinants b) \<and>
     (set (dependents a) \<subseteq> set (dependents b) \<or> set (dependents b) \<subseteq> set (dependents a)))"

definition fd_normal :: "fd list \<Rightarrow> bool" where
  "fd_normal fds \<longleftrightarrow> (\<forall>f \<in> set fds. distinct (determinants f)) \<and> sorted_wrt incomparable fds"

lemma incomparable_sym: "incomparable a b \<Longrightarrow> incomparable b a"
  by (auto simp: incomparable_def)

lemma sorted_wrt_both:
  assumes "sorted_wrt P xs" "\<And>x y. P x y \<Longrightarrow> P y x" "x \<in> set xs" "y \<in> set xs" "x \<noteq> y"
  shows "P x y"
  using assms(1,3-5) by (induction xs) (auto intro: assms(2))

lemma fd_normal_pair: "fd_normal fds \<Longrightarrow> e \<in> set fds \<Longrightarrow> f \<in> set fds \<Longrightarrow> e \<noteq> f \<Longrightarrow> incomparable e f"
  unfolding fd_normal_def using sorted_wrt_both [of incomparable fds e f] incomparable_sym by blast

text \<open>An unguarded uniqueness witness.\<close>

definition unique_witness :: "nat set \<Rightarrow> fd list \<Rightarrow> bool" where
  "unique_witness D fds \<longleftrightarrow> (\<exists>f \<in> set fds. fd_guard f = None \<and> fd_kind f = Unique \<and> set (determinants f) \<subseteq> D)"

lemma isUniqueDeterminant_iff:
  "isUniqueDeterminant attrs fds n is_set \<longleftrightarrow>
    (let fs = (case fds of None \<Rightarrow> [] | Some fs \<Rightarrow> fs); C = fd_closure (set attrs) fs in
     {..<n} \<subseteq> C \<and> (is_set \<or> unique_witness C fs))"
  by (auto simp: isUniqueDeterminant_def Let_def list_all_iff list_ex_iff unique_witness_def subset_iff split: if_splits)

lemma add_raw_unique:
  assumes d: "distinct (determinants nxt)" and normal: "fd_normal fds"
    and f: "f \<in> set (nxt # fds)" "fd_guard f = None" "fd_kind f = Unique"
  shows "\<exists>g \<in> set (add_raw I fds nxt). fd_guard g = None \<and> fd_kind g = Unique \<and> set (determinants g) = set (determinants f)"
proof -
  consider "f = nxt" "list_ex (absorbs I nxt) fds" | "f = nxt" "\<not> list_ex (absorbs I nxt) fds"
    | "f \<in> set fds" "replaced I nxt f" | "f \<in> set fds" "\<not> replaced I nxt f" using f(1) by auto
  then show ?thesis
  proof cases
    case 1
    then obtain e where e: "e \<in> set fds" "absorbs I nxt e" by (auto simp: list_ex_iff)
    then have "kept_entry I nxt e \<in> set (add_raw I fds nxt)" by (auto simp: add_raw_def absorbs_def)
    moreover have "fd_kind (kept_entry I nxt e) = Unique"
      using e(2) 1 f(3) by (simp add: kept_entry_def upgrade_kind_def)
    ultimately show ?thesis using absorbs_props [OF e(2) d] 1 f(2) by (intro bexI) auto
  next
    case 2
    then have "nxt \<in> set (add_raw I fds nxt) \<or> nxt\<lparr>fd_kind := Unique\<rparr> \<in> set (add_raw I fds nxt)"
      by (auto simp: add_raw_def)
    then show ?thesis using 2 f(2,3) by (auto simp: fd_kind_same)
  next
    case 3
    note p = replaced_props [OF 3(2) d]
    have "\<not> absorbs I nxt e" if "e \<in> set fds" for e
    proof
      assume a: "absorbs I nxt e"
      have "e \<noteq> f" using a 3(2) by (auto simp: absorbs_def)
      then have "incomparable e f" by (rule fd_normal_pair [OF normal that 3(1)])
      moreover have "set (dependents f) \<subseteq> set (dependents e)" using p(2) absorbs_props(2) [OF a d] by simp
      ultimately show False using absorbs_props [OF a d] p f(2) by (auto simp: incomparable_def)
    qed
    then have "nxt\<lparr>fd_kind := Unique\<rparr> \<in> set (add_raw I fds nxt)"
      using 3 f(3) by (auto simp: add_raw_def list_ex_iff)
    then show ?thesis using p f(2) by (intro bexI) auto
  next
    case 4
    then have "kept_entry I nxt f \<in> set (add_raw I fds nxt)" by (auto simp: add_raw_def)
    moreover have "fd_kind (kept_entry I nxt f) = Unique" using f(3) by (simp add: kept_entry_def upgrade_kind_def)
    ultimately show ?thesis using f(2) by (intro bexI) auto
  qed
qed

lemma add_raw_unique_origin:
  assumes d: "distinct (determinants nxt)"
    and g: "g \<in> set (add_raw I fds nxt)" "fd_guard g = None" "fd_kind g = Unique"
  shows "\<exists>f \<in> set (nxt # fds). fd_guard f = None \<and> fd_kind f = Unique \<and> set (determinants f) = set (determinants g)"
proof -
  consider (kept) e where "e \<in> set fds" "g = kept_entry I nxt e"
    | (upg) e where "e \<in> set fds" "replaced I nxt e" "fd_kind e = Unique" "g = nxt\<lparr>fd_kind := Unique\<rparr>"
    | (nxt) "g = nxt"
    using g(1) by (auto simp: add_raw_def list_ex_iff split: if_splits)
  then show ?thesis
  proof cases
    case kept
    show ?thesis
    proof (cases "fd_kind e = Unique")
      case True
      with kept g(2) show ?thesis by auto
    next
      case False
      with kept g(3) have "absorbs I nxt e" "fd_kind nxt = Unique"
        by (auto simp: kept_entry_def upgrade_kind_def split: if_splits)
      then show ?thesis using absorbs_props [OF _ d] kept g(2) by auto
    qed
  next
    case upg
    then show ?thesis using replaced_props [OF upg(2) d] g(2) by auto
  qed (use g in auto)
qed

lemma unique_witness_add_raw:
  assumes "distinct (determinants nxt)" "fd_normal fds"
  shows "unique_witness D (add_raw I fds nxt) \<longleftrightarrow> unique_witness D (nxt # fds)"
proof
  assume "unique_witness D (add_raw I fds nxt)"
  then obtain g where "g \<in> set (add_raw I fds nxt)" "fd_guard g = None" "fd_kind g = Unique" "set (determinants g) \<subseteq> D"
    by (auto simp: unique_witness_def)
  with add_raw_unique_origin [OF assms(1) this(1-3)] show "unique_witness D (nxt # fds)"
    unfolding unique_witness_def by metis
next
  assume "unique_witness D (nxt # fds)"
  then obtain f where "f \<in> set (nxt # fds)" "fd_guard f = None" "fd_kind f = Unique" "set (determinants f) \<subseteq> D"
    by (auto simp: unique_witness_def)
  with add_raw_unique [OF assms this(1-3), of I] show "unique_witness D (add_raw I fds nxt)"
    unfolding unique_witness_def by metis
qed

lemma sorted_wrt_map_filter:
  "sorted_wrt P xs \<Longrightarrow> (\<And>x y. P x y \<Longrightarrow> P (f x) (f y)) \<Longrightarrow> sorted_wrt P (map f (filter Q xs))"
  unfolding sorted_wrt_map by (erule sorted_wrt_mono_rel [OF _ sorted_wrt_filter, rotated]) blast

lemma fd_normal_add_raw:
  assumes d: "distinct (determinants nxt)" and normal: "fd_normal fds"
  shows "fd_normal (add_raw I fds nxt)"
proof -
  have kept: "sorted_wrt incomparable (map (kept_entry I nxt) (filter (\<lambda>e. \<not> replaced I nxt e) fds))"
    using normal by (intro sorted_wrt_map_filter) (auto simp: fd_normal_def incomparable_def)
  have new: "incomparable (kept_entry I nxt e) (nxt\<lparr>fd_kind := k\<rparr>)"
    if e: "e \<in> set fds" "\<not> replaced I nxt e" "\<not> absorbs I nxt e" for e k
  proof (rule ccontr)
    assume "\<not> incomparable (kept_entry I nxt e) (nxt\<lparr>fd_kind := k\<rparr>)"
    then have c: "fd_guard e = None" "fd_guard nxt = None" "set (determinants e) = set (determinants nxt)"
      "set (dependents e) \<subseteq> set (dependents nxt) \<or> set (dependents nxt) \<subseteq> set (dependents e)"
      by (auto simp: incomparable_def)
    have "distinct (determinants e)" using normal e(1) by (auto simp: fd_normal_def)
    then have "length (determinants e) = length (determinants nxt)" using d c(3) by (metis distinct_card)
    then have "same_claim I e nxt" using c by (simp add: same_claim_def determinantsEqual_def guardsEqual_def list_all_iff)
    then show False using c(4) e(2,3)
      by (auto simp: replaced_def absorbs_def dependentsSubset_def list_all_iff)
  qed
  have "incomparable (kept_entry I nxt e) nxt"
    if "e \<in> set fds" "\<not> replaced I nxt e" "\<not> absorbs I nxt e" for e
    using new [OF that, of "fd_kind nxt"] by (simp add: fd_kind_same)
  with kept new normal d show ?thesis
    by (auto simp: fd_normal_def add_raw_def sorted_wrt_append list_ex_iff)
qed

text \<open>
  C32. Adding a dependency to a list is sound, bounded and, below the cap, lossless. Every entry
  of the result holds on any rows on which the old entries and the new one hold. The result never
  exceeds the cap. While the list is below the cap it determines the same closures and proves the
  same column sets unique as the old list with the new entry in front, and it stays normal.
\<close>

theorem addFd_correct:
  assumes "distinct (determinants nxt)"
  shows "(lawful_refs I \<longrightarrow> lawful_columns I S \<longrightarrow> rows_ok R \<longrightarrow> fds_hold S R (nxt # fds) \<longrightarrow>
        fds_hold S R (addFd I fds nxt opts)) \<and>
      (length fds \<le> cap_of opts \<longrightarrow> length (addFd I fds nxt opts) \<le> cap_of opts) \<and>
      (length fds < cap_of opts \<longrightarrow>
        set (computeClosure attrs (addFd I fds nxt opts)) = set (computeClosure attrs (nxt # fds))) \<and>
      (length fds < cap_of opts \<longrightarrow> fd_normal fds \<longrightarrow> dependents nxt \<noteq> [] \<longrightarrow>
        isUniqueDeterminant attrs (Some (addFd I fds nxt opts)) n is_set =
        isUniqueDeterminant attrs (Some (nxt # fds)) n is_set) \<and>
      (length fds < cap_of opts \<longrightarrow> fd_normal fds \<longrightarrow> fd_normal (addFd I fds nxt opts))"
proof (intro conjI impI)
  show "fds_hold S R (addFd I fds nxt opts)" if "lawful_refs I" "lawful_columns I S" "rows_ok R" "fds_hold S R (nxt # fds)"
    using that column_world.addFd_fds_hold [OF column_worldI, of I S R nxt fds opts] assms by (simp add: fds_hold_def)
  show "length (addFd I fds nxt opts) \<le> cap_of opts" if "length fds \<le> cap_of opts"
    using that by (simp add: addFd_raw length_enforceCap)
  assume "length fds < cap_of opts"
  then have raw: "addFd I fds nxt opts = (if dependents nxt = [] then fds else add_raw I fds nxt)"
    using length_add_raw [of I fds nxt] by (simp add: addFd_raw enforceCap_id)
  have nil: "fd_closure D fds = fd_closure D (nxt # fds)" if "dependents nxt = []" for D
  proof
    show "fd_closure D fds \<subseteq> fd_closure D (nxt # fds)"
      by (rule fd_closure_covers) (auto simp: covers_claim_def)
    show "fd_closure D (nxt # fds) \<subseteq> fd_closure D fds"
    proof
      fix a assume "a \<in> fd_closure D (nxt # fds)"
      then show "a \<in> fd_closure D fds"
        by induction (use that in \<open>auto intro: fd_closure.base fd_closure.step\<close>)
    qed
  qed
  show "set (computeClosure attrs (addFd I fds nxt opts)) = set (computeClosure attrs (nxt # fds))"
    using nil fd_closure_add_raw [OF assms] by (simp add: raw)
  assume normal: "fd_normal fds"
  show "isUniqueDeterminant attrs (Some (addFd I fds nxt opts)) n is_set =
      isUniqueDeterminant attrs (Some (nxt # fds)) n is_set" if "dependents nxt \<noteq> []"
    using that fd_closure_add_raw [OF assms] unique_witness_add_raw [OF assms normal]
    by (simp add: raw isUniqueDeterminant_iff Let_def)
  show "fd_normal (addFd I fds nxt opts)" using fd_normal_add_raw [OF assms normal] normal by (simp add: raw)
qed

theorem addFd_correct_witness:
  "\<exists>fds nxt R. fds = [new_fd [0] [1] Determination] \<and> nxt = new_fd [0] [1, 2] Unique \<and>
     R = [[SqlBlob [], SqlNull, SqlNull], [SqlBlob [0], SqlNull, SqlNull]] \<and>
     fds_hold binary_columns R (addFd structural_refs fds nxt no_options) \<and>
     length (addFd structural_refs fds nxt no_options) \<le> 64 \<and>
     set (computeClosure [0] (addFd structural_refs fds nxt no_options)) = {0, 1, 2} \<and>
     isUniqueDeterminant [0] (Some (addFd structural_refs fds nxt no_options)) 3 False \<and>
     fd_normal (addFd structural_refs fds nxt no_options)"
proof (intro exI conjI)
  let ?fds = "[new_fd [0] [1] Determination]" and ?nxt = "new_fd [0] [1, 2] Unique"
  let ?R = "[[SqlBlob [], SqlNull, SqlNull], [SqlBlob [0], SqlNull, SqlNull]] :: rows"
  have d: "distinct (determinants ?nxt)" by (simp add: new_fd_def)
  have cap: "length ?fds < cap_of no_options" by (simp add: cap_of_def no_options_def MAX_FDS_PER_NODE_def)
  have normal: "fd_normal ?fds" by (simp add: fd_normal_def new_fd_def)
  have holds: "fds_hold binary_columns ?R (?nxt # ?fds)"
    by (simp add: fds_hold_def fd_holds_def new_fd_def determination_def row_unique_def agree_def row_at_def
        binary_columns_def collated_sem_def compareSqlValuesFast_def)
  show "fds_hold binary_columns ?R (addFd structural_refs ?fds ?nxt no_options)"
    by (rule addFd_correct [OF d, THEN conjunct1, rule_format, OF lawful_structural lawful_binary [OF lawful_structural] _ holds]) (simp add: rows_ok_def)
  show "length (addFd structural_refs ?fds ?nxt no_options) \<le> 64"
    using addFd_correct [OF d, THEN conjunct2, THEN conjunct1, THEN mp, OF less_imp_le [OF cap], of structural_refs] by (simp add: cap_of_def no_options_def MAX_FDS_PER_NODE_def)
  have "set (computeClosure [0] (?nxt # ?fds)) = {0, 1, 2}" by code_simp
  then show "set (computeClosure [0] (addFd structural_refs ?fds ?nxt no_options)) = {0, 1, 2}"
    unfolding addFd_correct [OF d, THEN conjunct2, THEN conjunct2, THEN conjunct1, THEN mp, OF cap] .
  have "isUniqueDeterminant [0] (Some (?nxt # ?fds)) 3 False" by code_simp
  then show "isUniqueDeterminant [0] (Some (addFd structural_refs ?fds ?nxt no_options)) 3 False"
    by (subst addFd_correct [OF d, THEN conjunct2, THEN conjunct2, THEN conjunct2, THEN conjunct1, rule_format, OF cap normal]) (simp_all add: new_fd_def)
  show "fd_normal (addFd structural_refs ?fds ?nxt no_options)" by (rule addFd_correct [OF d, THEN conjunct2, THEN conjunct2, THEN conjunct2, THEN conjunct2, rule_format, OF cap normal])
qed (rule refl)+

text \<open>
  On a list that is not normal the uniqueness claim can be lost: the unique entry is dropped for
  the new one, which is then dropped for a wider determination that is not upgraded.
\<close>

lemma addFd_loses_uniqueness:
  "\<exists>fds nxt. fds = [new_fd [0] [1] Unique, new_fd [0] [1, 2, 3] Determination] \<and>
     nxt = new_fd [0] [1, 2] Determination \<and>
     isUniqueDeterminant [0] (Some fds) 4 False \<and>
     \<not> isUniqueDeterminant [0] (Some (addFd structural_refs fds nxt no_options)) 4 False"
  by (intro exI conjI, rule refl, rule refl) code_simp+

end
