(* ===== verification/Fd_Keys.thy ===== *)
theory Fd_Keys
  imports Fd_Sound
begin

text \<open>
  The uniqueness read surface of fd-utils.ts: what \<open>isUniqueDeterminant\<close>, \<open>deriveKeysFromFds\<close>,
  \<open>keysOf\<close> and \<open>isUnique\<close> promise about the rows of a relation whose facts hold, and how the
  facts are carried through a renaming of columns (\<open>projectFds\<close>, \<open>shiftFds\<close>).
\<close>

section \<open>Signatures\<close>

lemma digits_no_comma: "(44 :: 16 word) \<notin> set (digit_units (dec_digits n))"
proof
  assume "44 \<in> set (digit_units (dec_digits n))"
  from digit_unit_range [OF this] show False by simp
qed

lemma digit_units_inj: "digit_units (dec_digits n) = digit_units (dec_digits m) \<longleftrightarrow> n = m"
  by (metis option.inject read_dec_digits)

lemma append_sep_eq:
  "c \<notin> set u \<Longrightarrow> c \<notin> set v \<Longrightarrow> u @ c # r = v @ c # s \<longleftrightarrow> u = v \<and> r = s"
proof (induction u arbitrary: v)
  case Nil
  then show ?case by (cases v) auto
next
  case (Cons a u)
  then show ?case by (cases v) auto
qed

lemma digits_nonempty [simp]: "digit_units (dec_digits n) \<noteq> []"
  using dec_digits_nonempty by (simp add: digit_units_def)

lemma digits_no_sep: "digit_units (dec_digits n) \<noteq> u @ 44 # v"
proof
  assume "digit_units (dec_digits n) = u @ 44 # v"
  then have "44 \<in> set (digit_units (dec_digits n))" by simp
  then show False using digits_no_comma by blast
qed

lemma join_indices_Cons:
  "join_indices (n # ns) = digit_units (dec_digits n) @ (if ns = [] then [] else 44 # join_indices ns)"
  by (cases ns) (simp_all add: lit_def)

lemma join_indices_inj: "join_indices xs = join_indices ys \<Longrightarrow> xs = ys"
proof (induction xs arbitrary: ys)
  case Nil
  then show ?case by (cases ys) (simp_all add: join_indices_Cons)
next
  case (Cons n ns)
  then obtain m ms where ys: "ys = m # ms" by (cases ys) (simp_all add: join_indices_Cons)
  have eq: "digit_units (dec_digits n) @ (if ns = [] then [] else 44 # join_indices ns) =
      digit_units (dec_digits m) @ (if ms = [] then [] else 44 # join_indices ms)"
    using Cons.prems ys by (simp only: join_indices_Cons)
  show ?case
  proof (cases "ns = []"; cases "ms = []")
    assume *: "ns = []" "ms = []"
    then show ?thesis using eq ys by (simp add: digit_units_inj)
  next
    assume *: "ns = []" "ms \<noteq> []"
    then show ?thesis using eq digits_no_sep by simp
  next
    assume *: "ns \<noteq> []" "ms = []"
    then show ?thesis using eq [symmetric] digits_no_sep by simp
  next
    assume *: "ns \<noteq> []" "ms \<noteq> []"
    then have "digit_units (dec_digits n) @ 44 # join_indices ns = digit_units (dec_digits m) @ 44 # join_indices ms"
      using eq by simp
    then have "digit_units (dec_digits n) = digit_units (dec_digits m)" "join_indices ns = join_indices ms"
      using append_sep_eq [OF digits_no_comma digits_no_comma] by blast+
    then show ?thesis using Cons.IH ys by (simp add: digit_units_inj)
  qed
qed

section \<open>Key lists\<close>

text \<open>Both deduplicating loops keep the first occurrence of each key and nothing else.\<close>

lemma dedupe_fold:
  "snd st = map join_indices (fst st) \<Longrightarrow> distinct (fst st) \<Longrightarrow>
   (let out = fold dedupe_step ks st in
     set (fst out) = set (fst st) \<union> set ks \<and> distinct (fst out) \<and> snd out = map join_indices (fst out))"
proof (induction ks arbitrary: st)
  case (Cons k ks)
  have mem: "join_indices k \<in> set (snd st) \<longleftrightarrow> k \<in> set (fst st)"
    using Cons.prems(1) join_indices_inj by auto
  have "snd (dedupe_step k st) = map join_indices (fst (dedupe_step k st))" "distinct (fst (dedupe_step k st))"
    "set (fst (dedupe_step k st)) = insert k (set (fst st))"
    using Cons.prems mem by (auto simp: dedupe_step_def set_add_def)
  with Cons.IH [of "dedupe_step k st"] show ?case by (auto simp: Let_def)
qed (simp add: Let_def)

lemma derive_fold:
  "snd st = map join_indices (fst st) \<Longrightarrow> distinct (fst st) \<Longrightarrow>
   (let out = fold (derive_key_step fds n is_set) fs st in distinct (fst out) \<and>
     set (fst out) = set (fst st) \<union> {sort (minimalCover (new_set (determinants f)) fds) | f. f \<in> set fs \<and>
       fd_guard f = None \<and> length (determinants f) < n \<and> isUniqueDeterminant (new_set (determinants f)) (Some fds) n is_set})"
proof (induction fs arbitrary: st)
  case (Cons f fs)
  let ?k = "sort (minimalCover (new_set (determinants f)) fds)"
  let ?ok = "fd_guard f = None \<and> length (determinants f) < n \<and> isUniqueDeterminant (new_set (determinants f)) (Some fds) n is_set"
  have mem: "join_indices ?k \<in> set (snd st) \<longleftrightarrow> ?k \<in> set (fst st)"
    using Cons.prems(1) join_indices_inj by auto
  have st: "snd (derive_key_step fds n is_set f st) = map join_indices (fst (derive_key_step fds n is_set f st))"
    "distinct (fst (derive_key_step fds n is_set f st))"
    "set (fst (derive_key_step fds n is_set f st)) = set (fst st) \<union> (if ?ok then {?k} else {})"
    using Cons.prems mem by (auto simp: derive_key_step_def set_add_def Let_def)
  show ?case using Cons.IH [OF st(1,2)] unfolding fold_simps Let_def st(3) by auto
qed (simp add: Let_def)

lemma deriveKeys_set:
  "set (deriveKeysFromFds fds n is_set) = (case fds of None \<Rightarrow> {} | Some fs \<Rightarrow>
     {sort (minimalCover (new_set (determinants f)) fs) | f. f \<in> set fs \<and> fd_guard f = None \<and>
        length (determinants f) < n \<and> isUniqueDeterminant (new_set (determinants f)) (Some fs) n is_set})"
  using derive_fold [of "([], [])"] by (cases fds) (simp_all add: deriveKeysFromFds_def Let_def)

lemma sorted_sort_new_set: "sorted_wrt (<) (sort (new_set k))" "set (sort (new_set k)) = set k"
  by (simp_all add: strict_sorted_iff)

lemma strict_sorted_set_eq: "sorted_wrt (<) (xs :: nat list) \<Longrightarrow> sorted_wrt (<) ys \<Longrightarrow> set xs = set ys \<Longrightarrow> xs = ys"
  by (simp add: strict_sorted_iff sorted_distinct_set_unique)

lemma normalizeKeys_props:
  shows "k \<in> set (normalizeKeys keys) \<Longrightarrow> sorted_wrt (<) k \<and> (\<exists>k' \<in> set keys. set k = set k')"
    and "k \<in> set keys \<Longrightarrow> \<exists>k' \<in> set (normalizeKeys keys). set k' \<subseteq> set k"
    and "distinct (normalizeKeys keys)"
    and "k \<in> set (normalizeKeys keys) \<Longrightarrow> k' \<in> set (normalizeKeys keys) \<Longrightarrow> set k \<subseteq> set k' \<Longrightarrow> k = k'"
proof -
  define uniq where "uniq = fst (fold dedupe_step (map (\<lambda>k. sort (new_set k)) keys) ([], []))"
  have u: "set uniq = (\<lambda>k. sort (new_set k)) ` set keys" "distinct uniq"
    using dedupe_fold [of "([], [])" "map (\<lambda>k. sort (new_set k)) keys"] by (auto simp: uniq_def Let_def)
  have N: "normalizeKeys keys = filter (\<lambda>k. \<not> list_ex (\<lambda>other. other \<noteq> k \<and> length other < length k \<and>
      list_all (\<lambda>c. c \<in> set k) other) uniq) uniq"
    by (simp add: normalizeKeys_def uniq_def Let_def)
  have srt: "sorted_wrt (<) k" if "k \<in> set uniq" for k using that u(1) sorted_sort_new_set(1) by auto
  have len: "length k = card (set k)" if "k \<in> set uniq" for k
    using srt [OF that] by (simp add: strict_sorted_iff distinct_card)
  show "sorted_wrt (<) k \<and> (\<exists>k' \<in> set keys. set k = set k')" if "k \<in> set (normalizeKeys keys)"
    using that u(1) srt by (auto simp: N)
  show "distinct (normalizeKeys keys)" using u(2) by (simp add: N)
  have sub: "\<exists>k' \<in> set (normalizeKeys keys). set k' \<subseteq> set k" if "k \<in> set uniq" for k
    using that
  proof (induction "length k" arbitrary: k rule: less_induct)
    case less
    show ?case
    proof (cases "k \<in> set (normalizeKeys keys)")
      case False
      then obtain other where o: "other \<in> set uniq" "length other < length k" "set other \<subseteq> set k"
        using less.prems by (auto simp: N list_ex_iff list_all_iff)
      from less.hyps [OF o(2,1)] o(3) show ?thesis by blast
    qed auto
  qed
  show "\<exists>k' \<in> set (normalizeKeys keys). set k' \<subseteq> set k" if "k \<in> set keys"
    using sub [of "sort (new_set k)"] that u(1) by auto
  show "k = k'" if *: "k \<in> set (normalizeKeys keys)" "k' \<in> set (normalizeKeys keys)" "set k \<subseteq> set k'"
  proof (rule ccontr)
    assume ne: "k \<noteq> k'"
    have un: "k \<in> set uniq" "k' \<in> set uniq" using * by (auto simp: N)
    have "\<not> length k < length k'" using *(2,3) un ne by (auto simp: N list_ex_iff list_all_iff)
    then have "card (set k') \<le> card (set k)" using len un by simp
    then have "set k = set k'" using card_seteq [of "set k'" "set k"] *(3) by simp
    then show False using strict_sorted_set_eq [OF srt [OF un(1)] srt [OF un(2)]] ne by blast
  qed
qed

section \<open>Soundness of the uniqueness questions\<close>

definition fd_list :: "fd list option \<Rightarrow> fd list" where
  "fd_list fds = (case fds of None \<Rightarrow> [] | Some fs \<Rightarrow> fs)"

text \<open>What the uniqueness surfaces of a relation claim about its rows.\<close>

definition type_sound :: "col_sem \<Rightarrow> rows \<Rightarrow> relation_type \<Rightarrow> bool" where
  "type_sound S R t \<longleftrightarrow> (\<forall>k \<in> set (type_keys t). row_unique S R (set (map ref_index k))) \<and>
     (isSet t \<longrightarrow> row_unique S R {..<columnCount t})"

definition rel_sound :: "col_sem \<Rightarrow> rows \<Rightarrow> key_rel \<Rightarrow> bool" where
  "rel_sound S R rel \<longleftrightarrow> type_sound S R (rel_type rel) \<and> fds_hold S R (fd_list (rel_fds rel))"

lemma fds_hold_closure:
  "fds_hold S R fs \<Longrightarrow> determination S R D (fd_closure D fs)"
  by (rule closure_determination) (auto simp: fds_hold_def fd_holds_def)

lemma isUniqueDeterminant_sound:
  assumes "fds_hold S R (fd_list fds)" "is_set \<Longrightarrow> row_unique S R {..<n}" "isUniqueDeterminant attrs fds n is_set"
  shows "row_unique S R (set attrs)"
proof -
  let ?fs = "fd_list fds" let ?C = "fd_closure (set attrs) ?fs"
  have cov: "{..<n} \<subseteq> ?C" "is_set \<or> unique_witness ?C ?fs"
    using assms(3) by (simp_all add: isUniqueDeterminant_iff fd_list_def Let_def)
  obtain U where U: "U \<subseteq> ?C" "row_unique S R U"
  proof (cases is_set)
    case True
    then show ?thesis using that cov(1) assms(2) by blast
  next
    case False
    then obtain f where "f \<in> set ?fs" "fd_guard f = None" "fd_kind f = Unique" "set (determinants f) \<subseteq> ?C"
      using cov(2) by (auto simp: unique_witness_def)
    then show ?thesis using that assms(1) by (force simp: fds_hold_def fd_holds_def)
  qed
  have "determination S R (set attrs) ?C" by (rule fds_hold_closure [OF assms(1)])
  then show ?thesis using U by (intro row_unique_mono [OF U(2)]) (auto simp: determination_def intro: agree_subset)
qed

lemma isUniqueDeterminant_closure:
  "fd_closure (set a) (fd_list fds) = fd_closure (set b) (fd_list fds) \<Longrightarrow>
   isUniqueDeterminant a fds n is_set = isUniqueDeterminant b fds n is_set"
  by (simp add: isUniqueDeterminant_iff fd_list_def Let_def)

lemma minimalCover_closure:
  "fd_closure (set (minimalCover attrs fds)) fds = fd_closure (set attrs) fds"
  using cover_fold [of "computeClosure attrs fds" "set attrs" fds "new_set attrs" "new_set attrs"]
  by (simp add: minimalCover_def Let_def)

lemma deriveKeys_unique:
  assumes "k \<in> set (deriveKeysFromFds fds n is_set)"
  shows "isUniqueDeterminant k fds n is_set"
proof -
  obtain fs where fs: "fds = Some fs" using assms by (cases fds) (auto simp: deriveKeys_set)
  obtain f :: fd where k: "k = sort (minimalCover (new_set (determinants f)) fs)"
    and u: "isUniqueDeterminant (new_set (determinants f)) fds n is_set"
    using assms unfolding fs deriveKeys_set option.case mem_Collect_eq by blast
  have "fd_closure (set k) (fd_list fds) = fd_closure (set (new_set (determinants f))) (fd_list fds)"
    using minimalCover_closure [of "new_set (determinants f)" fs] by (simp add: k fs fd_list_def)
  from isUniqueDeterminant_closure [OF this] u show ?thesis by simp
qed

lemma keysOf_row_unique:
  assumes "rel_sound S R rel" "k \<in> set (keysOf rel)"
  shows "row_unique S R (set k)"
proof -
  let ?t = "rel_type rel"
  have t: "type_sound S R ?t" "fds_hold S R (fd_list (rel_fds rel))" using assms(1) by (simp_all add: rel_sound_def)
  have set: "isSet ?t \<Longrightarrow> row_unique S R {..<columnCount ?t}" using t(1) by (simp add: type_sound_def)
  have det: "row_unique S R (set cols)"
    if "isUniqueDeterminant cols (rel_fds rel) (columnCount ?t) (isSet ?t)" for cols
    by (rule isUniqueDeterminant_sound [OF t(2) set that])
  let ?keys = "map (map ref_index) (type_keys ?t) @
      (if hasSingletonFd (rel_fds rel) (columnCount ?t) (isSet ?t) then [[]] else []) @
      deriveKeysFromFds (rel_fds rel) (columnCount ?t) (isSet ?t)"
  have all: "row_unique S R (set k')" if "k' \<in> set ?keys" for k'
  proof -
    consider "k' \<in> set (map (map ref_index) (type_keys ?t))"
      | "k' = []" "hasSingletonFd (rel_fds rel) (columnCount ?t) (isSet ?t)"
      | "k' \<in> set (deriveKeysFromFds (rel_fds rel) (columnCount ?t) (isSet ?t))"
      using \<open>k' \<in> set ?keys\<close> by (auto split: if_splits)
    then show ?thesis
    proof cases
      case 1
      then show ?thesis using t(1) by (auto simp: type_sound_def)
    next
      case 2
      then show ?thesis using det [of "[]"] by (simp add: hasSingletonFd_def split: if_splits)
    next
      case 3
      then show ?thesis using det deriveKeys_unique by blast
    qed
  qed
  have "k \<in> set (normalizeKeys ?keys) \<or> isSet ?t \<and> k = [0..<columnCount ?t]"
    using assms(2) by (auto simp: keysOf_def Let_def allColumns_def split: if_splits)
  then show ?thesis
  proof
    assume "k \<in> set (normalizeKeys ?keys)"
    then obtain k' where "k' \<in> set ?keys" "set k = set k'" using normalizeKeys_props(1) by blast
    with all show ?thesis by simp
  qed (use set in \<open>auto simp: atLeast0LessThan\<close>)
qed

lemma isUnique_row_unique:
  assumes "rel_sound S R rel" "isUnique cols rel"
  shows "row_unique S R (set cols)"
proof (cases "\<exists>k \<in> set (keysOf rel). set k \<subseteq> set cols")
  case True
  then show ?thesis using keysOf_row_unique [OF assms(1)] row_unique_superset by blast
next
  case False
  then have "isUniqueDeterminant (new_set cols) (rel_fds rel) (columnCount (rel_type rel)) (isSet (rel_type rel))"
    using assms(2) by (auto simp: isUnique_def Let_def list_ex_iff list_all_iff subset_iff split: if_splits)
  then show ?thesis using isUniqueDeterminant_sound [of S R "rel_fds rel"] assms(1)
    by (fastforce simp: rel_sound_def type_sound_def)
qed

lemma row_unique_empty: "row_unique S R {} \<longleftrightarrow> length R \<le> 1"
proof (cases R rule: remdups_adj.cases)
  case (3 a b rest)
  then show ?thesis by (auto simp: row_unique_def)
qed (simp_all add: row_unique_def)

text \<open>
  C33. The uniqueness read surface is sound. On a relation whose declared keys, set flag and
  dependencies hold of its rows, every key \<open>keysOf\<close> lists and every column set \<open>isUnique\<close>
  accepts identifies at most one row, and \<open>isAtMostOneRow\<close> is right. The listed keys are strictly
  increasing column lists, pairwise incomparable, and below every declared key there is one.
\<close>

theorem keysOf_isUnique_sound:
  assumes "rel_sound S R rel"
  shows "(k \<in> set (keysOf rel) \<longrightarrow> row_unique S R (set k)) \<and>
      (isUnique cols rel \<longrightarrow> row_unique S R (set cols)) \<and>
      (isAtMostOneRow rel \<longrightarrow> length R \<le> 1) \<and>
      (k \<in> set (keysOf rel) \<longrightarrow> sorted_wrt (<) k) \<and>
      (k \<in> set (keysOf rel) \<longrightarrow> k' \<in> set (keysOf rel) \<longrightarrow> set k \<subseteq> set k' \<longrightarrow> k = k') \<and>
      (d \<in> set (type_keys (rel_type rel)) \<longrightarrow> (\<exists>k \<in> set (keysOf rel). set k \<subseteq> set (map ref_index d)))"
proof (intro conjI impI)
  show "row_unique S R (set k)" if "k \<in> set (keysOf rel)" by (rule keysOf_row_unique [OF assms that])
  show "row_unique S R (set cols)" if "isUnique cols rel" by (rule isUnique_row_unique [OF assms that])
  show "length R \<le> 1" if "isAtMostOneRow rel"
    using that isUnique_row_unique [OF assms, of "[]"] by (simp add: isAtMostOneRow_def row_unique_empty)
  let ?t = "rel_type rel"
  let ?keys = "map (map ref_index) (type_keys ?t) @
      (if hasSingletonFd (rel_fds rel) (columnCount ?t) (isSet ?t) then [[]] else []) @
      deriveKeysFromFds (rel_fds rel) (columnCount ?t) (isSet ?t)"
  have K: "keysOf rel = normalizeKeys ?keys \<or> keysOf rel = [[0..<columnCount ?t]] \<and> normalizeKeys ?keys = []"
    by (auto simp: keysOf_def Let_def allColumns_def)
  show "sorted_wrt (<) k" if "k \<in> set (keysOf rel)"
    using that K normalizeKeys_props(1) [of k ?keys] by auto
  show "k = k'" if "k \<in> set (keysOf rel)" "k' \<in> set (keysOf rel)" "set k \<subseteq> set k'"
    using that K normalizeKeys_props(4) [of k ?keys k'] by auto
  assume "d \<in> set (type_keys ?t)"
  then have "map ref_index d \<in> set ?keys" by simp
  from normalizeKeys_props(2) [OF this] K show "\<exists>k \<in> set (keysOf rel). set k \<subseteq> set (map ref_index d)"
    by (metis empty_iff list.set(1))
qed

theorem keysOf_isUnique_sound_witness:
  "\<exists>rel R. rel = \<lparr>rel_type = \<lparr>columnCount = 3, type_keys = [[\<lparr>ref_index = 0, ref_desc = None\<rparr>, \<lparr>ref_index = 1, ref_desc = None\<rparr>]], isSet = False\<rparr>,
       rel_physical = Some \<lparr>phys_fds = Some [new_fd [0] [1, 2] Unique], equivClasses = None, constantBindings = None,
         domainConstraints = None, phys_inds = None\<rparr>\<rparr> \<and>
     R = [[SqlBlob [], SqlNull, SqlNull], [SqlBlob [0], SqlNull, SqlNull]] \<and>
     keysOf rel = [[0]] \<and> row_unique binary_columns R (set [0]) \<and> sorted_wrt (<) ([0] :: nat list) \<and>
     row_unique binary_columns R (set [0, 2])"
proof (intro exI conjI)
  let ?rel = "\<lparr>rel_type = \<lparr>columnCount = 3, type_keys = [[\<lparr>ref_index = 0, ref_desc = None\<rparr>, \<lparr>ref_index = 1, ref_desc = None\<rparr>]], isSet = False\<rparr>,
       rel_physical = Some \<lparr>phys_fds = Some [new_fd [0] [1, 2] Unique], equivClasses = None, constantBindings = None,
         domainConstraints = None, phys_inds = None\<rparr>\<rparr> :: key_rel"
  let ?R = "[[SqlBlob [], SqlNull, SqlNull], [SqlBlob [0], SqlNull, SqlNull]] :: rows"
  have sound: "rel_sound binary_columns ?R ?rel"
    by (simp add: rel_sound_def type_sound_def fd_list_def rel_fds_def fds_hold_def fd_holds_def new_fd_def determination_def
        row_unique_def agree_def row_at_def binary_columns_def collated_sem_def compareSqlValuesFast_def)
  show keys: "keysOf ?rel = [[0]]" by code_simp
  have k: "[0] \<in> set (keysOf ?rel)" by (simp only: keys) simp
  show "row_unique binary_columns ?R (set [0])" by (rule keysOf_isUnique_sound [OF sound, THEN conjunct1, THEN mp, OF k])
  show "sorted_wrt (<) ([0] :: nat list)" by (rule keysOf_isUnique_sound [OF sound, THEN conjunct2, THEN conjunct2, THEN conjunct2, THEN conjunct1, THEN mp, OF k])
  show "row_unique binary_columns ?R (set [0, 2])"
    by (rule keysOf_isUnique_sound [OF sound, THEN conjunct2, THEN conjunct1, THEN mp]) code_simp
qed (rule refl)+

end
