(* ===== verification/Fd_Facts.thy ===== *)
theory Fd_Facts
  imports Fd_Keys
begin

text \<open>
  The other facts of fd-utils.ts: equivalence classes of columns, constant bindings and their
  closure over the classes, domain constraints and inclusion dependencies, each with its merge,
  projection and shift, and what they claim about rows.
\<close>

section \<open>Equivalence classes\<close>

definition shiftEquivClasses :: "nat list list \<Rightarrow> nat \<Rightarrow> nat list list" where
  "shiftEquivClasses classes offset = (if offset = 0 then classes else map (map (\<lambda>x. x + offset)) classes)"

definition normalizeClass :: "nat list \<Rightarrow> nat list" where
  "normalizeClass cls = sort (new_set cls)"

text \<open>The first pair of overlapping classes, in the order of the nested loops.\<close>

definition overlap_at :: "nat list list \<Rightarrow> nat \<times> nat \<Rightarrow> bool" where
  "overlap_at classes ij = list_ex (\<lambda>x. x \<in> set (classes ! fst ij)) (classes ! snd ij)"

definition find_overlap :: "nat list list \<Rightarrow> (nat \<times> nat) option" where
  "find_overlap classes = find (overlap_at classes)
     [(i, j). i \<leftarrow> [0..<length classes], j \<leftarrow> [i + 1..<length classes]]"

definition merge_at :: "nat list list \<Rightarrow> nat \<times> nat \<Rightarrow> nat list list" where
  "merge_at classes ij = (let merged = classes[fst ij := normalizeClass (classes ! fst ij @ classes ! snd ij)]
     in take (snd ij) merged @ drop (Suc (snd ij)) merged)"

lemma find_SomeD: "find P xs = Some x \<Longrightarrow> x \<in> set xs \<and> P x"
  by (induction xs) (auto split: if_splits)

lemma find_overlap_Some:
  assumes "find_overlap classes = Some (i, j)"
  shows "i < j" "j < length classes" "overlap_at classes (i, j)"
  using find_SomeD [OF assms [unfolded find_overlap_def]] by auto

lemma find_overlap_None:
  "find_overlap classes = None \<longleftrightarrow> (\<forall>i j. i < j \<and> j < length classes \<longrightarrow> \<not> overlap_at classes (i, j))"
proof -
  have "set [(i, j). i \<leftarrow> [0..<length classes], j \<leftarrow> [i + 1..<length classes]] = {(i, j). i < j \<and> j < length classes}"
    by (auto simp: image_iff)
  then show ?thesis unfolding find_overlap_def find_None_iff by auto
qed

function merge_classes :: "nat list list \<Rightarrow> nat list list" where
  "merge_classes classes = (case find_overlap classes of
     None \<Rightarrow> classes | Some ij \<Rightarrow> merge_classes (merge_at classes ij))"
  by auto
termination
proof (relation "measure length")
  fix classes :: "nat list list" and ij
  assume "find_overlap classes = Some ij"
  then show "(merge_at classes ij, classes) \<in> measure length"
    using find_overlap_Some [of classes "fst ij" "snd ij"] by (simp add: merge_at_def Let_def)
qed simp

declare merge_classes.simps [simp del]

definition mergeEquivClasses :: "nat list list \<Rightarrow> nat list list \<Rightarrow> nat list list" where
  "mergeEquivClasses a b = filter (\<lambda>c. 2 \<le> length c) (merge_classes (map normalizeClass (a @ b)))"

definition addEquivalence :: "nat list list \<Rightarrow> nat \<Rightarrow> nat \<Rightarrow> nat list list" where
  "addEquivalence classes a b = (if a = b then classes else mergeEquivClasses classes [[a, b]])"

definition ecIndexOf :: "nat \<Rightarrow> nat list list \<Rightarrow> nat option" where
  "ecIndexOf col ecs = find (\<lambda>i. col \<in> set (ecs ! i)) [0..<length ecs]"

section \<open>Constant bindings\<close>

definition constantValueEquals :: "js_refs \<Rightarrow> constant_value \<Rightarrow> constant_value \<Rightarrow> bool" where
  "constantValueEquals I a b = (case (a, b) of
     (ConstLiteral v, ConstLiteral w) \<Rightarrow> sqlValueEquals I v w
   | (ConstParam p, ConstParam q) \<Rightarrow> p = q
   | _ \<Rightarrow> False)"

definition unionAttrs :: "nat list \<Rightarrow> nat list \<Rightarrow> nat list" where
  "unionAttrs a b = sort (set_add_all b (new_set a))"

definition new_binding :: "nat list \<Rightarrow> constant_value \<Rightarrow> constant_binding" where
  "new_binding attrs v = \<lparr>bind_attrs = attrs, bind_value = v, bind_source = None\<rparr>"

definition normalizeBinding :: "constant_binding \<Rightarrow> constant_binding" where
  "normalizeBinding b = new_binding (sort (new_set (bind_attrs b))) (bind_value b)"

definition enforceBindingCap :: "constant_binding list \<Rightarrow> constant_binding list" where
  "enforceBindingCap bindings = (if length bindings \<le> MAX_FDS_PER_NODE then bindings else take MAX_FDS_PER_NODE bindings)"

fun merge_binding :: "js_refs \<Rightarrow> constant_binding \<Rightarrow> constant_binding list \<Rightarrow> constant_binding list" where
  "merge_binding I nxt [] = [nxt]"
| "merge_binding I nxt (b # bs) = (if constantValueEquals I (bind_value b) (bind_value nxt)
     then new_binding (unionAttrs (bind_attrs b) (bind_attrs nxt)) (bind_value b) # bs
     else b # merge_binding I nxt bs)"

definition mergeConstantBindings ::
  "js_refs \<Rightarrow> constant_binding list \<Rightarrow> constant_binding list \<Rightarrow> constant_binding list" where
  "mergeConstantBindings I a b =
     enforceBindingCap (fold (\<lambda>raw. merge_binding I (normalizeBinding raw)) b (map normalizeBinding a))"

text \<open>One pass over the classes and the loop of \<open>closeConstantBindingsOverEcs\<close>; the flag is \<open>grew\<close>.\<close>

definition expand_over :: "nat list \<Rightarrow> nat list \<times> bool \<Rightarrow> nat list \<times> bool" where
  "expand_over cls st = (if list_ex (\<lambda>c. c \<in> set (fst st)) cls then fold add_dep cls st else st)"

function expand_loop :: "nat list list \<Rightarrow> nat list \<Rightarrow> nat list" where
  "expand_loop ecs cols = (case fold expand_over ecs (cols, False) of (cols', grew) \<Rightarrow>
     if grew then expand_loop ecs cols' else cols')"
  by auto

lemma expand_over_step:
  "set (fst st) \<subseteq> set (fst (expand_over cls st))"
  "distinct (fst (expand_over cls st)) \<longleftrightarrow> distinct (fst st)"
  "set (fst (expand_over cls st)) \<subseteq> set (fst st) \<union> set cls"
  "snd (expand_over cls st) \<Longrightarrow> snd st \<or> set (fst st) \<subset> set (fst (expand_over cls st))"
  "\<not> snd (expand_over cls st) \<Longrightarrow> expand_over cls st = st \<and> \<not> snd st \<and>
     (set cls \<inter> set (fst st) \<noteq> {} \<longrightarrow> set cls \<subseteq> set (fst st))"
  using add_deps(3,4) [of cls st]
  by (auto simp: expand_over_def add_deps list_ex_iff split: if_splits)

lemma expand_overs:
  "set (fst st) \<subseteq> set (fst (fold expand_over ecs st)) \<and>
   set (fst (fold expand_over ecs st)) \<subseteq> set (fst st) \<union> (\<Union>c \<in> set ecs. set c)"
proof (induction ecs arbitrary: st)
  case (Cons c ecs)
  show ?case using Cons [of "expand_over c st"] expand_over_step(1) [of st c] expand_over_step(3) [of c st] by auto
qed simp

lemma expand_overs_grow:
  "snd (fold expand_over ecs st) \<Longrightarrow> snd st \<or> set (fst st) \<subset> set (fst (fold expand_over ecs st))"
proof (induction ecs arbitrary: st)
  case (Cons c ecs)
  have sub: "set (fst st) \<subseteq> set (fst (expand_over c st))"
    "set (fst (expand_over c st)) \<subseteq> set (fst (fold expand_over ecs (expand_over c st)))"
    using expand_over_step(1) [of st c] expand_overs [of "expand_over c st" ecs] by simp_all
  have "snd (expand_over c st) \<or> set (fst (expand_over c st)) \<subset> set (fst (fold expand_over ecs (expand_over c st)))"
    by (rule Cons.IH) (use Cons.prems in simp)
  then consider "snd st" | "set (fst st) \<subset> set (fst (fold expand_over ecs (expand_over c st)))"
    using expand_over_step(4) [of c st] sub by (meson psubset_subset_trans subset_psubset_trans)
  then show ?case by cases simp_all
qed simp

definition class_members :: "nat list list \<Rightarrow> nat set" where
  "class_members ecs = (\<Union>c \<in> set ecs. set c)"

lemma finite_class_members [simp]: "finite (class_members ecs)"
  by (simp add: class_members_def)

lemma expand_pass_grows:
  assumes e: "fold expand_over ecs (cols, False) = (cols', True)"
  shows "card (class_members ecs - set cols') < card (class_members ecs - set cols)"
proof (rule psubset_card_mono)
  have "set cols \<subset> set cols'" using expand_overs_grow [of ecs "(cols, False)"] e by simp
  then obtain a where a: "a \<in> set cols'" "a \<notin> set cols" and sub: "set cols \<subseteq> set cols'" by auto
  have "set cols' \<subseteq> set cols \<union> class_members ecs"
    using expand_overs [of "(cols, False)" ecs] e by (simp add: class_members_def)
  with a have "a \<in> class_members ecs - set cols" "a \<notin> class_members ecs - set cols'" by auto
  moreover have "class_members ecs - set cols' \<subseteq> class_members ecs - set cols" using sub by auto
  ultimately show "class_members ecs - set cols' \<subset> class_members ecs - set cols" by (metis psubsetI)
qed simp

termination expand_loop
  by (relation "measure (\<lambda>(ecs, cols). card (class_members ecs - set cols))")
    (simp_all add: expand_pass_grows)

declare expand_loop.simps [simp del]

definition closeConstantBindingsOverEcs ::
  "js_refs \<Rightarrow> constant_binding list \<Rightarrow> nat list list \<Rightarrow> constant_binding list" where
  "closeConstantBindingsOverEcs I bindings ecs =
     (if bindings = [] then []
      else if ecs = [] then map normalizeBinding bindings
      else mergeConstantBindings I
        (map (\<lambda>b. new_binding (sort (expand_loop ecs (new_set (bind_attrs b)))) (bind_value b)) bindings) [])"

definition projectConstantBindings ::
  "js_refs \<Rightarrow> constant_binding list \<Rightarrow> col_map \<Rightarrow> constant_binding list" where
  "projectConstantBindings I bindings mapping = mergeConstantBindings I
     (List.map_filter (\<lambda>b. let mapped = new_set (List.map_filter (map_of mapping) (bind_attrs b)) in
        if mapped = [] then None else Some (new_binding (sort mapped) (bind_value b))) bindings) []"

definition shiftConstantBindings :: "constant_binding list \<Rightarrow> nat \<Rightarrow> constant_binding list" where
  "shiftConstantBindings bindings offset = (if offset = 0 then map normalizeBinding bindings
     else map (\<lambda>b. new_binding (sort (map (\<lambda>c. c + offset) (bind_attrs b))) (bind_value b)) bindings)"

definition bindingForColumn :: "nat \<Rightarrow> constant_binding list \<Rightarrow> constant_binding option" where
  "bindingForColumn col bindings = find (\<lambda>b. col \<in> set (bind_attrs b)) bindings"

section \<open>Domain constraints\<close>

definition domainConstraintEquals :: "js_refs \<Rightarrow> domain_constraint \<Rightarrow> domain_constraint \<Rightarrow> bool" where
  "domainConstraintEquals I a b \<longleftrightarrow> dom_column a = dom_column b \<and>
     (case (dom_shape a, dom_shape b) of
        (DomRange mn mx mnInc mxInc, DomRange mn' mx' mnInc' mxInc') \<Rightarrow>
          bound_eq I mn mnInc mn' mnInc' \<and> bound_eq I mx mxInc mx' mxInc'
      | (DomEnum vs, DomEnum ws) \<Rightarrow> length vs = length ws \<and> list_all2 (sqlValueEquals I) vs ws
      | _ \<Rightarrow> False)"

definition enforceDomainCap :: "domain_constraint list \<Rightarrow> domain_constraint list" where
  "enforceDomainCap domains = (if length domains \<le> MAX_FDS_PER_NODE then domains else take MAX_FDS_PER_NODE domains)"

definition mergeDomainConstraints ::
  "js_refs \<Rightarrow> domain_constraint list \<Rightarrow> domain_constraint list \<Rightarrow> domain_constraint list" where
  "mergeDomainConstraints I a b = enforceDomainCap (fold (\<lambda>nxt result.
     if list_ex (\<lambda>existing. domainConstraintEquals I existing nxt) result then result else result @ [nxt]) b a)"

definition projectDomainConstraints ::
  "js_refs \<Rightarrow> domain_constraint list \<Rightarrow> col_map \<Rightarrow> domain_constraint list" where
  "projectDomainConstraints I domains mapping = mergeDomainConstraints I
     (List.map_filter (\<lambda>d. map_option (\<lambda>m. d\<lparr>dom_column := m\<rparr>) (map_of mapping (dom_column d))) domains) []"

definition shiftDomainConstraints :: "domain_constraint list \<Rightarrow> nat \<Rightarrow> domain_constraint list" where
  "shiftDomainConstraints domains offset = (if offset = 0 then domains
     else map (\<lambda>d. d\<lparr>dom_column := dom_column d + offset\<rparr>) domains)"

section \<open>Inclusion dependencies\<close>

definition MAX_INDS_PER_NODE :: nat where
  "MAX_INDS_PER_NODE = 64"

text \<open>\<open>sameOrderedList\<close> is equality of lists.\<close>

definition sameOrderedList :: "nat list \<Rightarrow> nat list \<Rightarrow> bool" where
  "sameOrderedList a b \<longleftrightarrow> length a = length b \<and> list_all (\<lambda>i. a ! i = b ! i) [0..<length a]"

definition indTargetsEqual :: "ind_target \<Rightarrow> ind_target \<Rightarrow> bool" where
  "indTargetsEqual a b = (case (a, b) of
     (IndTable s t cols, IndTable s' t' cols') \<Rightarrow> s = s' \<and> t = t' \<and> sameOrderedList cols cols'
   | (IndRelation r cols, IndRelation r' cols') \<Rightarrow> r = r' \<and> sameOrderedList cols cols'
   | _ \<Rightarrow> False)"

definition indsEqual :: "inclusion_dep \<Rightarrow> inclusion_dep \<Rightarrow> bool" where
  "indsEqual a b \<longleftrightarrow> nullRejecting a = nullRejecting b \<and> sameOrderedList (ind_cols a) (ind_cols b) \<and>
     indTargetsEqual (ind_to a) (ind_to b)"

definition enforceIndCap :: "inclusion_dep list \<Rightarrow> nat option \<Rightarrow> inclusion_dep list" where
  "enforceIndCap inds cap_opt = (let cap = (case cap_opt of None \<Rightarrow> MAX_INDS_PER_NODE | Some c \<Rightarrow> c)
     in if length inds \<le> cap then inds else take cap inds)"

definition addInd :: "inclusion_dep list \<Rightarrow> inclusion_dep \<Rightarrow> nat option \<Rightarrow> inclusion_dep list" where
  "addInd inds nxt cap_opt = enforceIndCap
     (if list_ex (\<lambda>existing. indsEqual existing nxt) inds then inds else inds @ [nxt]) cap_opt"

definition mergeInds :: "inclusion_dep list \<Rightarrow> inclusion_dep list \<Rightarrow> nat option \<Rightarrow> inclusion_dep list" where
  "mergeInds a b cap_opt = fold (\<lambda>ind result. addInd result ind cap_opt) b a"

definition projectInds :: "inclusion_dep list \<Rightarrow> col_map \<Rightarrow> inclusion_dep list" where
  "projectInds inds mapping = mergeInds []
     (List.map_filter (\<lambda>ind. map_option (\<lambda>newCols. ind\<lparr>ind_cols := newCols\<rparr>) (map_all (map_of mapping) (ind_cols ind))) inds) None"

definition shiftInds :: "inclusion_dep list \<Rightarrow> nat \<Rightarrow> inclusion_dep list" where
  "shiftInds inds offset = (if offset = 0 then inds
     else map (\<lambda>ind. ind\<lparr>ind_cols := map (\<lambda>c. c + offset) (ind_cols ind)\<rparr>) inds)"

section \<open>Merging classes is transitive closure\<close>

definition ec_rel :: "nat list list \<Rightarrow> (nat \<times> nat) set" where
  "ec_rel classes = {(x, y). \<exists>c \<in> set classes. x \<in> set c \<and> y \<in> set c}"

lemma ec_relI: "c \<in> set classes \<Longrightarrow> x \<in> set c \<Longrightarrow> y \<in> set c \<Longrightarrow> (x, y) \<in> ec_rel classes"
  by (auto simp: ec_rel_def)

lemma ec_rel_nth:
  "(x, y) \<in> ec_rel classes \<longleftrightarrow> (\<exists>k < length classes. x \<in> set (classes ! k) \<and> y \<in> set (classes ! k))"
  by (auto simp: ec_rel_def in_set_conv_nth [of _ classes] intro: bexI [OF _ nth_mem])

lemma set_remove_nth: "j < length xs \<Longrightarrow> set (take j xs @ drop (Suc j) xs) = {xs ! k | k. k < length xs \<and> k \<noteq> j}"
proof
  assume j: "j < length xs"
  show "set (take j xs @ drop (Suc j) xs) \<subseteq> {xs ! k | k. k < length xs \<and> k \<noteq> j}"
  proof
    fix x assume "x \<in> set (take j xs @ drop (Suc j) xs)"
    then consider "x \<in> set (take j xs)" | "x \<in> set (drop (Suc j) xs)" by auto
    then show "x \<in> {xs ! k | k. k < length xs \<and> k \<noteq> j}"
    proof cases
      case 1
      then obtain k where "k < j" "x = xs ! k" using j by (auto simp: in_set_conv_nth)
      then show ?thesis using j by auto
    next
      case 2
      then obtain k where "k < length xs - Suc j" "x = xs ! (Suc j + k)" by (auto simp: in_set_conv_nth)
      then show ?thesis by (intro CollectI exI [of _ "Suc j + k"]) auto
    qed
  qed
  show "{xs ! k | k. k < length xs \<and> k \<noteq> j} \<subseteq> set (take j xs @ drop (Suc j) xs)"
  proof
    fix x assume "x \<in> {xs ! k | k. k < length xs \<and> k \<noteq> j}"
    then obtain k where k: "k < length xs" "k \<noteq> j" "x = xs ! k" by auto
    show "x \<in> set (take j xs @ drop (Suc j) xs)"
    proof (cases "k < j")
      case True
      then have "x = take j xs ! k" "k < length (take j xs)" using k by simp_all
      then have "x \<in> set (take j xs)" by (metis nth_mem)
      then show ?thesis by simp
    next
      case False
      then have "x = drop (Suc j) xs ! (k - Suc j)" "k - Suc j < length (drop (Suc j) xs)" using k by simp_all
      then have "x \<in> set (drop (Suc j) xs)" by (metis nth_mem)
      then show ?thesis by simp
    qed
  qed
qed

lemma set_merge_at:
  assumes "i < j" "j < length classes"
  shows "set (merge_at classes (i, j)) =
    insert (normalizeClass (classes ! i @ classes ! j)) {classes ! k | k. k < length classes \<and> k \<noteq> i \<and> k \<noteq> j}"
  using assms unfolding merge_at_def Let_def fst_conv snd_conv
  by (subst set_remove_nth) (auto simp: nth_list_update intro: exI [of _ i])

lemma ec_rel_merge_at:
  assumes "i < j" "j < length classes" "overlap_at classes (i, j)"
  shows "ec_rel classes \<subseteq> ec_rel (merge_at classes (i, j))"
    "ec_rel (merge_at classes (i, j)) \<subseteq> (ec_rel classes)\<^sup>+"
proof -
  let ?m = "normalizeClass (classes ! i @ classes ! j)"
  have m: "set ?m = set (classes ! i) \<union> set (classes ! j)" by (simp add: normalizeClass_def)
  note new = set_merge_at [OF assms(1,2)]
  show "ec_rel classes \<subseteq> ec_rel (merge_at classes (i, j))"
  proof clarify
    fix x y assume "(x, y) \<in> ec_rel classes"
    then obtain k where k: "k < length classes" "x \<in> set (classes ! k)" "y \<in> set (classes ! k)"
      by (auto simp: ec_rel_nth)
    show "(x, y) \<in> ec_rel (merge_at classes (i, j))"
    proof (cases "k = i \<or> k = j")
      case True
      then show ?thesis using k m new by (intro ec_relI [of ?m]) auto
    next
      case False
      then show ?thesis using k new by (intro ec_relI [of "classes ! k"]) auto
    qed
  qed
  obtain z where z: "z \<in> set (classes ! i)" "z \<in> set (classes ! j)" using assms(3) by (auto simp: overlap_at_def list_ex_iff)
  have ij: "classes ! i \<in> set classes" "classes ! j \<in> set classes" using assms by auto
  have tocls: "(x, z) \<in> ec_rel classes \<and> (z, x) \<in> ec_rel classes" if "x \<in> set ?m" for x
    using that m z ij by (auto intro: ec_relI)
  show "ec_rel (merge_at classes (i, j)) \<subseteq> (ec_rel classes)\<^sup>+"
  proof clarify
    fix x y assume "(x, y) \<in> ec_rel (merge_at classes (i, j))"
    then obtain c where c: "c \<in> set (merge_at classes (i, j))" "x \<in> set c" "y \<in> set c" by (auto simp: ec_rel_def)
    show "(x, y) \<in> (ec_rel classes)\<^sup>+"
    proof (cases "c = ?m")
      case True
      then have "(x, z) \<in> ec_rel classes" "(z, y) \<in> ec_rel classes" using tocls c by blast+
      then show ?thesis by (meson r_into_trancl trancl_into_trancl)
    next
      case False
      then have "c \<in> set classes" using c(1) new by auto
      then show ?thesis using c by (auto intro: ec_relI)
    qed
  qed
qed

lemma merge_classes_props:
  "(ec_rel (merge_classes classes))\<^sup>+ = (ec_rel classes)\<^sup>+ \<and> find_overlap (merge_classes classes) = None \<and>
   ((\<forall>c \<in> set classes. sorted_wrt (<) c) \<longrightarrow> (\<forall>c \<in> set (merge_classes classes). sorted_wrt (<) c))"
proof (induction classes rule: merge_classes.induct)
  case (1 classes)
  show ?case
  proof (cases "find_overlap classes")
    case None
    then show ?thesis by (simp add: merge_classes.simps [of classes])
  next
    case (Some ij)
    obtain i j where ij: "ij = (i, j)" by fastforce
    note o = find_overlap_Some [OF Some [unfolded ij]]
    have tr: "(ec_rel (merge_at classes ij))\<^sup>+ = (ec_rel classes)\<^sup>+"
    proof
      have "(ec_rel (merge_at classes ij))\<^sup>+ \<subseteq> ((ec_rel classes)\<^sup>+)\<^sup>+"
        unfolding ij by (rule subsetI, erule trancl_mono [OF _ ec_rel_merge_at(2) [OF o]])
      then show "(ec_rel (merge_at classes ij))\<^sup>+ \<subseteq> (ec_rel classes)\<^sup>+" by simp
      show "(ec_rel classes)\<^sup>+ \<subseteq> (ec_rel (merge_at classes ij))\<^sup>+"
        unfolding ij by (rule subsetI, erule trancl_mono [OF _ ec_rel_merge_at(1) [OF o]])
    qed
    have srt: "\<forall>c \<in> set (merge_at classes ij). sorted_wrt (<) c" if all: "\<forall>c \<in> set classes. sorted_wrt (<) c"
    proof
      fix c assume "c \<in> set (merge_at classes ij)"
      then consider "c = sort (new_set (classes ! i @ classes ! j))" | k where "k < length classes" "c = classes ! k"
        unfolding ij set_merge_at [OF o(1,2)] normalizeClass_def by blast
      then show "sorted_wrt (<) c" by cases (simp_all only: sorted_sort_new_set(1) all [rule_format] nth_mem)
    qed
    have eq: "merge_classes classes = merge_classes (merge_at classes ij)"
      by (subst merge_classes.simps) (simp only: Some option.case)
    show ?thesis unfolding eq using 1 [OF Some] tr srt by blast
  qed
qed

lemma no_overlap_trans:
  assumes "find_overlap classes = None"
  shows "trans (ec_rel classes)"
proof -
  have disj: "k = l" if kl: "k < length classes" "l < length classes" "y \<in> set (classes ! k)" "y \<in> set (classes ! l)" for k l y
  proof (rule ccontr)
    assume "k \<noteq> l"
    then consider "k < l" | "l < k" by linarith
    then show False
      using assms kl unfolding find_overlap_None overlap_at_def by cases (auto simp: list_ex_iff)
  qed
  show ?thesis
  proof (rule transI)
    fix x y z assume "(x, y) \<in> ec_rel classes" "(y, z) \<in> ec_rel classes"
    then obtain k l where "k < length classes" "l < length classes" "x \<in> set (classes ! k)" "y \<in> set (classes ! k)"
      "y \<in> set (classes ! l)" "z \<in> set (classes ! l)" by (auto simp: ec_rel_nth)
    then show "(x, z) \<in> ec_rel classes" using disj unfolding ec_rel_nth by blast
  qed
qed

lemma ec_rel_normalize [simp]: "ec_rel (map normalizeClass classes) = ec_rel classes"
  by (auto simp: ec_rel_def normalizeClass_def)

lemma no_overlap_sorted_wrt:
  "find_overlap classes = None \<Longrightarrow> sorted_wrt (\<lambda>c d. set c \<inter> set d = {}) classes"
  by (auto simp: find_overlap_None overlap_at_def sorted_wrt_iff_nth_less list_ex_iff)

lemma strict_two: "sorted_wrt (<) (c :: nat list) \<Longrightarrow> x \<in> set c \<Longrightarrow> y \<in> set c \<Longrightarrow> x \<noteq> y \<Longrightarrow> 2 \<le> length c"
  by (cases c rule: remdups_adj.cases) auto

text \<open>Expanding a column set over the classes reaches exactly the connected columns.\<close>

lemma expand_overs_stable:
  "\<not> snd (fold expand_over ecs st) \<Longrightarrow> fold expand_over ecs st = st \<and>
   (\<forall>c \<in> set ecs. set c \<inter> set (fst st) \<noteq> {} \<longrightarrow> set c \<subseteq> set (fst st))"
proof (induction ecs arbitrary: st)
  case (Cons c ecs)
  have rest: "fold expand_over ecs (expand_over c st) = expand_over c st"
    "\<forall>d \<in> set ecs. set d \<inter> set (fst (expand_over c st)) \<noteq> {} \<longrightarrow> set d \<subseteq> set (fst (expand_over c st))"
    using Cons.IH [of "expand_over c st"] Cons.prems by simp_all
  have "\<not> snd (expand_over c st)" using Cons.prems rest(1) by simp
  from expand_over_step(5) [OF this] rest show ?case by auto
qed simp

lemma expand_overs_reach:
  "set ecs' \<subseteq> set ecs \<Longrightarrow> set (fst st) \<subseteq> (ec_rel ecs)\<^sup>* `` D \<Longrightarrow> set (fst (fold expand_over ecs' st)) \<subseteq> (ec_rel ecs)\<^sup>* `` D"
proof (induction ecs' arbitrary: st)
  case (Cons c ecs')
  have "set (fst (expand_over c st)) \<subseteq> (ec_rel ecs)\<^sup>* `` D"
  proof (cases "list_ex (\<lambda>x. x \<in> set (fst st)) c")
    case True
    then obtain x where x: "x \<in> set c" "x \<in> set (fst st)" by (auto simp: list_ex_iff)
    then obtain d where d: "d \<in> D" "(d, x) \<in> (ec_rel ecs)\<^sup>*" using Cons.prems(2) by auto
    have "(d, y) \<in> (ec_rel ecs)\<^sup>*" if "y \<in> set c" for y
      using d(2) ec_relI [of c ecs x y] that x(1) Cons.prems(1) by (auto intro: rtrancl_into_rtrancl)
    then show ?thesis using True Cons.prems(2) d(1) by (auto simp: expand_over_def add_deps)
  qed (use Cons.prems in \<open>simp add: expand_over_def\<close>)
  with Cons show ?case by simp
qed simp

lemma expand_loop_set:
  "set cols \<subseteq> (ec_rel ecs)\<^sup>* `` D \<Longrightarrow> D \<subseteq> set cols \<Longrightarrow> set (expand_loop ecs cols) = (ec_rel ecs)\<^sup>* `` D"
proof (induction ecs cols rule: expand_loop.induct)
  case (1 ecs cols)
  obtain cols' grew where p: "fold expand_over ecs (cols, False) = (cols', grew)" by fastforce
  have sub: "set cols' \<subseteq> (ec_rel ecs)\<^sup>* `` D" "set cols \<subseteq> set cols'"
    using expand_overs_reach [of ecs ecs "(cols, False)" D] expand_overs [of "(cols, False)" ecs] 1(2) p by simp_all
  show ?case
  proof (cases grew)
    case True
    then show ?thesis using 1 p sub by (subst expand_loop.simps) auto
  next
    case False
    have st: "cols' = cols" "\<forall>c \<in> set ecs. set c \<inter> set cols \<noteq> {} \<longrightarrow> set c \<subseteq> set cols"
      using expand_overs_stable [of ecs "(cols, False)"] p False by simp_all
    have "x \<in> set cols" if "(d, x) \<in> (ec_rel ecs)\<^sup>*" "d \<in> D" for d x
      using that
    proof induction
      case (step y z)
      then obtain c where "c \<in> set ecs" "y \<in> set c" "z \<in> set c" by (auto simp: ec_rel_def)
      then show ?case using st(2) step by auto
    qed (use 1(3) in auto)
    then show ?thesis using p False st(1) 1(2) by (subst expand_loop.simps) auto
  qed
qed

lemma expand_loop_distinct: "distinct cols \<Longrightarrow> distinct (expand_loop ecs cols)"
proof (induction ecs cols rule: expand_loop.induct)
  case (1 ecs cols)
  obtain cols' grew where p: "fold expand_over ecs (cols, False) = (cols', grew)" by fastforce
  have "distinct (fst (fold expand_over ecs st)) \<longleftrightarrow> distinct (fst st)" for st
    by (induction ecs arbitrary: st) (simp_all add: expand_over_step(2))
  from this [of "(cols, False)"] have "distinct cols'" using p 1(2) by simp
  then show ?case using 1(1) p by (subst expand_loop.simps) auto
qed

text \<open>
  C34. \<open>mergeEquivClasses\<close> computes the transitive closure of overlapping classes: two different
  columns share a class of the result exactly when a chain of input classes connects them. The
  classes are pairwise disjoint, strictly increasing and have at least two members. The loop of
  \<open>closeConstantBindingsOverEcs\<close> reaches exactly the columns connected to the bound ones.
\<close>

theorem mergeEquivClasses_correct:
  "(x \<noteq> y \<longrightarrow> (\<exists>c \<in> set (mergeEquivClasses a b). x \<in> set c \<and> y \<in> set c) = ((x, y) \<in> (ec_rel (a @ b))\<^sup>+)) \<and>
   (c \<in> set (mergeEquivClasses a b) \<longrightarrow> sorted_wrt (<) c) \<and> (c \<in> set (mergeEquivClasses a b) \<longrightarrow> 2 \<le> length c) \<and>
   sorted_wrt (\<lambda>c d. set c \<inter> set d = {}) (mergeEquivClasses a b) \<and>
   set (expand_loop ecs (new_set cols)) = (ec_rel ecs)\<^sup>* `` set cols"
proof (intro conjI impI)
  let ?m = "merge_classes (map normalizeClass (a @ b))"
  note props = merge_classes_props [of "map normalizeClass (a @ b)"]
  have tr: "(ec_rel (a @ b))\<^sup>+ = ec_rel ?m"
    using props no_overlap_trans [of ?m] trancl_id [of "ec_rel ?m"]
    by (simp only: ec_rel_normalize)
  have srt: "sorted_wrt (<) c" if "c \<in> set ?m" for c
    using props that sorted_sort_new_set(1) by (auto simp: normalizeClass_def)
  show "(\<exists>c \<in> set (mergeEquivClasses a b). x \<in> set c \<and> y \<in> set c) \<longleftrightarrow> (x, y) \<in> (ec_rel (a @ b))\<^sup>+" if "x \<noteq> y"
    using that srt strict_two unfolding tr by (auto simp: mergeEquivClasses_def ec_rel_def)
  show "sorted_wrt (<) c" "2 \<le> length c" if "c \<in> set (mergeEquivClasses a b)"
    using that srt by (auto simp: mergeEquivClasses_def)
  show "sorted_wrt (\<lambda>c d. set c \<inter> set d = {}) (mergeEquivClasses a b)"
    unfolding mergeEquivClasses_def using props by (intro sorted_wrt_filter no_overlap_sorted_wrt) simp
  show "set (expand_loop ecs (new_set cols)) = (ec_rel ecs)\<^sup>* `` set cols"
    by (rule expand_loop_set) auto
qed

theorem mergeEquivClasses_correct_witness:
  "\<exists>a b. a = [[3, 1], [5, 6]] \<and> b = [[1, 2], [9, 9]] \<and> mergeEquivClasses a b = [[1, 2, 3], [5, 6]] \<and>
     (3, 2) \<in> (ec_rel (a @ b))\<^sup>+ \<and> sorted_wrt (<) [1, 2, 3 :: nat] \<and>
     set (expand_loop a (new_set [6])) = (ec_rel a)\<^sup>* `` {6}"
proof (intro exI conjI)
  let ?a = "[[3, 1], [5, 6]] :: nat list list" and ?b = "[[1, 2], [9, 9]] :: nat list list"
  show m: "mergeEquivClasses ?a ?b = [[1, 2, 3], [5, 6]]" by code_simp
  have "\<exists>c \<in> set (mergeEquivClasses ?a ?b). 3 \<in> set c \<and> 2 \<in> set c" unfolding m by simp
  then show "(3, 2) \<in> (ec_rel (?a @ ?b))\<^sup>+" by (subst mergeEquivClasses_correct [THEN conjunct1, rule_format, symmetric]) simp_all
  have "[1, 2, 3] \<in> set (mergeEquivClasses ?a ?b)" unfolding m by simp
  from mergeEquivClasses_correct [THEN conjunct2, THEN conjunct1, THEN mp, OF this] show "sorted_wrt (<) [1, 2, 3 :: nat]" .
  show "set (expand_loop ?a (new_set [6])) = (ec_rel ?a)\<^sup>* `` {6}" using mergeEquivClasses_correct [where ecs = ?a and cols = "[6]", THEN conjunct2, THEN conjunct2, THEN conjunct2, THEN conjunct2] by simp
qed (rule refl)+

end
