(* ===== verification/Num_Encoding.thy ===== *)
theory Num_Encoding
  imports Bytes
begin

text \<open>
  Numeric keys (quereus-store/src/common/encoding.ts: \<open>encodeNumeric\<close>, \<open>writeSortableDouble\<close>,
  \<open>decodeNumeric\<close>): a sortable double followed by the signed residual of a bigint, so that
  byte order is the exact numeric order across both number kinds.
\<close>

section \<open>Conversions between bigint and number\<close>

text \<open>
  \<open>Number(n)\<close> rounds to the nearest double, ties to even: the magnitude bits of the double
  nearest to a natural number, infinity past the largest finite one.
\<close>

definition nearest_mag :: "nat \<Rightarrow> nat" where
  "nearest_mag n =
     (if n = 0 then 0 else
        (let b = floorlog 2 n in
         if b \<le> 53 then (b + 1022) * 2 ^ 52 + (n * 2 ^ (53 - b) - 2 ^ 52)
         else (let s = b - 53; q = n div 2 ^ s; r = n mod 2 ^ s;
                   up = (2 ^ (s - 1) < r \<or> r = 2 ^ (s - 1) \<and> odd q)
               in min mag_inf ((b + 1022) * 2 ^ 52 + (q - 2 ^ 52) + (if up then 1 else 0)))))"

definition number_of_bigint :: "int \<Rightarrow> double" where
  "number_of_bigint n = word_of_nat ((if n < 0 then 2 ^ 63 else 0) + nearest_mag (nat \<bar>n\<bar>))"

text \<open>\<open>BigInt(w)\<close> throws a \<open>RangeError\<close> unless the number is an integer.\<close>

definition bigint_of_number :: "double \<Rightarrow> int option" where
  "bigint_of_number w =
     (if js_is_integer w
      then Some (let i = int (mag_scaled (dmag w) div 2 ^ 1074) in if dneg w then - i else i)
      else None)"

section \<open>Encoding\<close>

text \<open>A \<open>DataView\<close> writes NaN as the quiet NaN.\<close>

definition float64_bits :: "double \<Rightarrow> nat" where
  "float64_bits w = (if is_nan w then 0x7FF8000000000000 else unat w)"

definition flip_top :: "byte list \<Rightarrow> byte list" where
  "flip_top bs = (case bs of [] \<Rightarrow> [] | b # r \<Rightarrow> (b XOR 0x80) # r)"

definition flip_all :: "byte list \<Rightarrow> byte list" where
  "flip_all bs = map (\<lambda>b. b XOR 0xFF) bs"

definition neg_zero :: double where
  "neg_zero = 0x8000000000000000"

definition writeSortableDouble :: "double \<Rightarrow> byte list" where
  "writeSortableDouble v =
     (let normalized = if v = neg_zero then 0 else v;
          bytes = be_bytes 8 (float64_bits normalized)
      in if js_less (Dbl normalized) (Dbl 0) then flip_all bytes else flip_top bytes)"

definition set_bigint64 :: "int \<Rightarrow> byte list" where
  "set_bigint64 n = be_bytes 8 (unat (word_of_int n :: 64 word))"

datatype encode_error =
    NoSuchCollation js_string
  | UnpairedSurrogate nat nat
  | BigIntRange
  | CannotEncode

fun encodeNumeric :: "js_number \<Rightarrow> encode_error + byte list" where
  "encodeNumeric (Big n) =
     (let primary = number_of_bigint n in
      case bigint_of_number primary of
        None \<Rightarrow> Inl BigIntRange
      | Some p \<Rightarrow> Inr (1 # writeSortableDouble primary @ flip_top (set_bigint64 (n - p))))"
| "encodeNumeric (Dbl w) =
     (let primary = if w = neg_zero then 0 else w in
      Inr (1 # writeSortableDouble primary @ flip_top (set_bigint64 0)))"

section \<open>Byte manipulations as arithmetic\<close>

lemma byte_xor_ff: "(b :: byte) XOR 0xFF = word_of_nat (255 - unat b)"
proof -
  have "unat b \<le> 255" using unat_word_less(2) [of b] by simp
  then have "(word_of_nat (255 - unat b) :: byte) = 255 - b" by (simp add: of_nat_diff)
  moreover have "(0xFF :: byte) = -1" by simp
  then have "b XOR 0xFF = NOT b" by (simp only: bit.xor_one_right)
  moreover have "NOT b = 255 - b" by (simp add: not_eq_complement)
  ultimately show ?thesis by simp
qed

lemma byte_xor_80: "(b :: byte) XOR 0x80 = b + 0x80"
proof -
  have bit7: "x AND 0x80 = 0 \<longleftrightarrow> \<not> bit x 7" for x :: byte
    using and_exp_eq_0_iff_not_bit [of x 7] by simp
  show ?thesis
  proof (cases "bit b 7")
    case True
    then have "(b XOR 0x80) AND 0x80 = 0" by (simp add: bit7 bit_xor_iff)
    from disjunctive_add_eq_xor [OF this] have c: "(b XOR 0x80) + 0x80 = b"
      by (simp add: xor.assoc)
    have "b + 0x80 = (b XOR 0x80) + 0x80 + 0x80" by (simp only: c)
    also have "\<dots> = (b XOR 0x80) + (0x80 + 0x80)" by (simp only: add.assoc)
    also have "(0x80 + 0x80 :: byte) = 0" by simp
    finally show ?thesis by simp
  next
    case False
    then show ?thesis by (simp add: bit7 disjunctive_add_eq_xor)
  qed
qed

lemma be_bytes_add: "be_bytes k (n + c * 256 ^ k) = be_bytes k n"
proof (induction k arbitrary: n c)
  case (Suc k)
  have *: "n + c * 256 ^ Suc k = n + (c * 256 ^ k) * 256" by simp
  show ?case unfolding be_bytes.simps * by (simp add: Suc.IH add.commute)
qed simp

lemma be_bytes_Suc_hd: "be_bytes (Suc k) n = word_of_nat (n div 256 ^ k mod 256) # be_bytes k n"
proof (induction k arbitrary: n)
  case (Suc k)
  have "be_bytes (Suc (Suc k)) n = be_bytes (Suc k) (n div 256) @ [word_of_nat (n mod 256)]" by simp
  also have "\<dots> = word_of_nat (n div 256 div 256 ^ k mod 256) # be_bytes k (n div 256) @ [word_of_nat (n mod 256)]"
    by (simp only: Suc.IH append_Cons)
  finally show ?case by (simp add: div_mult2_eq)
qed simp

lemma word_of_nat_mod_256: "(word_of_nat (n mod 256) :: byte) = word_of_nat n"
  using word_of_nat_eq_iff [of "n mod 256" n, where 'a = 8] by (simp add: take_bit_eq_mod)

lemma flip_top_be_bytes: "flip_top (be_bytes (Suc k) n) = be_bytes (Suc k) (n + 128 * 256 ^ k)"
proof -
  have "(word_of_nat (n div 256 ^ k mod 256) :: byte) XOR 0x80 = word_of_nat ((n div 256 ^ k + 128) mod 256)"
    by (simp add: byte_xor_80 word_of_nat_mod_256)
  moreover have "(n + 128 * 256 ^ k) div 256 ^ k = n div 256 ^ k + 128" by simp
  ultimately show ?thesis
    by (simp only: flip_top_def be_bytes_Suc_hd be_bytes_add list.case)
qed

lemma flip_top_8: "flip_top (be_bytes 8 n) = be_bytes 8 (n + 2 ^ 63)"
  using flip_top_be_bytes [of 7 n] by (simp del: be_bytes.simps)

lemma flip_all_be_bytes: "n < 256 ^ k \<Longrightarrow> flip_all (be_bytes k n) = be_bytes k (256 ^ k - 1 - n)"
proof (induction k arbitrary: n)
  case (Suc k)
  define q r where "q = n div 256" and "r = n mod 256"
  have n: "n = q * 256 + r" "r < 256" by (simp_all add: q_def r_def)
  have q: "q < 256 ^ k" using Suc.prems by (simp add: q_def less_mult_imp_div_less mult.commute)
  define p where "p = 256 ^ k - 1 - q"
  have p: "256 ^ k = p + 1 + q" using q by (simp add: p_def)
  have e: "256 ^ Suc k - 1 - n = p * 256 + (255 - r)" using n p by simp
  have "flip_all (be_bytes k q) = be_bytes k p" using Suc.IH [OF q] by (simp add: p_def)
  moreover have "(word_of_nat r :: byte) XOR 0xFF = word_of_nat (255 - r)"
    using n(2) by (simp add: byte_xor_ff unat_of_nat)
  moreover have "(p * 256 + (255 - r)) div 256 = p" "(p * 256 + (255 - r)) mod 256 = 255 - r"
    by (simp_all add: div_mult_self3)
  ultimately show ?case
    unfolding e by (simp add: flip_all_def q_def [symmetric] r_def [symmetric])
qed (simp add: flip_all_def)

section \<open>Doubles in order of their magnitude bits\<close>

lemma mag_scaled_Suc: "mag_scaled (Suc m) = mag_scaled m + 2 ^ (m div 2 ^ 52 - 1)"
proof -
  define e f where "e = m div 2 ^ 52" and "f = m mod 2 ^ 52"
  have ef: "m div 2 ^ 52 = e" "m mod 2 ^ 52 = f" by (simp_all add: e_def f_def)
  have m: "m = e * 2 ^ 52 + f" "f < 2 ^ 52" by (simp_all add: e_def f_def)
  show ?thesis
  proof (cases "Suc f < 2 ^ 52")
    case True
    then have "Suc m div 2 ^ 52 = e" "Suc m mod 2 ^ 52 = Suc f"
      using m(1) by (simp_all add: Suc_times_mod_eq)
    then show ?thesis
      unfolding mag_scaled_def Let_def ef by (simp add: distrib_right)
  next
    case False
    then have f: "Suc f = 2 ^ 52" using m(2) by simp
    then have "Suc m = (e + 1) * 2 ^ 52" using m(1) by simp
    then have s: "Suc m div 2 ^ 52 = e + 1" "Suc m mod 2 ^ 52 = 0" by simp_all
    have "(2 ^ 52 + f + 1) * 2 ^ (e - 1) = 2 ^ 52 * 2 ^ e" if "e \<noteq> 0"
      using f that by (cases e) simp_all
    then show ?thesis
      unfolding mag_scaled_def Let_def ef s using f by (cases e) (simp_all add: distrib_right)
  qed
qed

lemma mag_scaled_less_iff: "mag_scaled m < mag_scaled n \<longleftrightarrow> m < n"
  by (rule strict_mono_less) (simp add: strict_mono_Suc_iff mag_scaled_Suc)

lemma mag_scaled_le_iff: "mag_scaled m \<le> mag_scaled n \<longleftrightarrow> m \<le> n"
  using mag_scaled_less_iff [of n m] by linarith

lemma mag_scaled_0 [simp]: "mag_scaled 0 = 0"
  by (simp add: mag_scaled_def)

lemma mag_scaled_normal:
  assumes "f < 2 ^ 52" "0 < e"
  shows "mag_scaled (e * 2 ^ 52 + f) = (2 ^ 52 + f) * 2 ^ (e - 1)"
  using assms by (simp add: mag_scaled_def Let_def)

text \<open>
  The two doubles around a natural number with more than 53 bits: the truncated one and its
  successor, a unit in the last place apart.
\<close>

lemma truncated_double:
  assumes "floorlog 2 n = b" "53 < b" "s = b - 53" "q = n div 2 ^ s"
    and "low = (b + 1022) * 2 ^ 52 + (q - 2 ^ 52)"
  shows "mag_scaled low = q * 2 ^ s * 2 ^ 1074" "mag_scaled (Suc low) = (q + 1) * 2 ^ s * 2 ^ 1074"
    and "2 ^ 52 \<le> q" "q < 2 ^ 53"
proof -
  have "0 < n" using assms(1,2) by (cases n) (simp_all add: floorlog_def)
  then have n: "2 ^ (b - 1) \<le> n" "n < 2 ^ b"
    using floorlog_bounds [of n 2] assms(1) by simp_all
  have "b - 1 = 52 + s" "b = 53 + s" using assms(2,3) by simp_all
  then have "2 ^ 52 * 2 ^ s \<le> n" "n < 2 ^ 53 * 2 ^ s" using n by (simp_all only: power_add)
  then show q: "2 ^ 52 \<le> q" "q < 2 ^ 53"
    unfolding assms(4) by (simp_all add: less_eq_div_iff_mult_less_eq less_mult_imp_div_less)
  have f: "q - 2 ^ 52 < 2 ^ 52" "2 ^ 52 + (q - 2 ^ 52) = q" using q by simp_all
  have e: "b + 1022 - 1 = s + 1074" using assms(2,3) by simp
  show low: "mag_scaled low = q * 2 ^ s * 2 ^ 1074"
    unfolding assms(5) using mag_scaled_normal [OF f(1), of "b + 1022"] f(2) e by (simp only: power_add mult.assoc)
  have "low div 2 ^ 52 = b + 1022" unfolding assms(5) using f(1) by simp
  then have "mag_scaled (Suc low) = mag_scaled low + 2 ^ (s + 1074)"
    using mag_scaled_Suc [of low] e by simp
  then show "mag_scaled (Suc low) = (q + 1) * 2 ^ s * 2 ^ 1074"
    unfolding low by (simp only: power_add distrib_right mult_1)
qed

lemma exact_double:
  assumes "0 < n" "floorlog 2 n \<le> 53"
  shows "mag_scaled (nearest_mag n) = n * 2 ^ 1074" "nearest_mag n < 1076 * 2 ^ 52"
proof -
  define b where "b = floorlog 2 n"
  have b: "b \<le> 53" "0 < b" using assms by (auto simp: b_def floorlog_def)
  have n: "2 ^ (b - 1) \<le> n" "n < 2 ^ b" using floorlog_bounds [of n 2] assms(1) by (simp_all add: b_def)
  have "2 ^ (b - 1) * 2 ^ (53 - b) \<le> n * 2 ^ (53 - b)" "n * 2 ^ (53 - b) < 2 ^ b * 2 ^ (53 - b)"
    using n by simp_all
  then have m: "2 ^ 52 \<le> n * 2 ^ (53 - b)" "n * 2 ^ (53 - b) < 2 ^ 53"
    using b by (simp_all flip: power_add)
  have mag: "nearest_mag n = (b + 1022) * 2 ^ 52 + (n * 2 ^ (53 - b) - 2 ^ 52)"
    using assms b by (simp add: nearest_mag_def b_def [symmetric])
  have "mag_scaled (nearest_mag n) = (2 ^ 52 + (n * 2 ^ (53 - b) - 2 ^ 52)) * 2 ^ (b + 1022 - 1)"
    unfolding mag by (rule mag_scaled_normal) (use m in simp_all)
  also have "\<dots> = n * (2 ^ (53 - b) * 2 ^ (b + 1022 - 1))" using m by simp
  also have "2 ^ (53 - b) * 2 ^ (b + 1022 - 1) = (2 ^ 1074 :: nat)" using b by (simp flip: power_add)
  finally show "mag_scaled (nearest_mag n) = n * 2 ^ 1074" .
  show "nearest_mag n < 1076 * 2 ^ 52" using m b unfolding mag by simp
qed

text \<open>
  Past 53 bits the result is one of the two neighbours, whichever is not farther away.
\<close>

lemma rounded_double:
  assumes "53 < floorlog 2 n" "floorlog 2 n \<le> 116"
  obtains low s q r where "n = q * 2 ^ s + r" "r < 2 ^ s" "s \<le> 63" "0 < s"
    "mag_scaled low = q * 2 ^ s * 2 ^ 1074" "mag_scaled (Suc low) = (q + 1) * 2 ^ s * 2 ^ 1074"
    "Suc low < mag_inf"
    "nearest_mag n = low \<and> 2 * r \<le> 2 ^ s \<or> nearest_mag n = Suc low \<and> 2 ^ s \<le> 2 * r"
proof -
  define b where "b = floorlog 2 n"
  define s where "s = b - 53"
  define q where "q = n div 2 ^ s"
  define r where "r = n mod 2 ^ s"
  define low where "low = (b + 1022) * 2 ^ 52 + (q - 2 ^ 52)"
  note trunc = truncated_double [OF b_def [symmetric] _ s_def q_def low_def]
  have b: "53 < b" "b \<le> 116" "n \<noteq> 0" using assms by (cases "n = 0"; simp add: b_def floorlog_def)+
  have "2 ^ s = 2 * (2 ^ (s - 1) :: nat)" using b by (cases s) (simp_all add: s_def)
  moreover have small: "Suc low < mag_inf" using trunc(3,4) b by (simp add: low_def mag_inf_def)
  then have "nearest_mag n = low + (if 2 ^ (s - 1) < r \<or> r = 2 ^ (s - 1) \<and> odd q then 1 else 0)"
    unfolding nearest_mag_def Let_def b_def [symmetric] s_def [symmetric] q_def [symmetric] r_def [symmetric]
      low_def [symmetric] using b by simp
  ultimately have "nearest_mag n = low \<and> 2 * r \<le> 2 ^ s \<or> nearest_mag n = Suc low \<and> 2 ^ s \<le> 2 * r"
    by (auto split: if_splits)
  moreover have "n = q * 2 ^ s + r" "r < 2 ^ s" by (simp_all add: q_def r_def div_mult_mod_eq)
  ultimately show thesis using that [of q s r low] b trunc small by (simp add: s_def)
qed

lemma nearest_mag_exact_or_rounded:
  assumes "n < 2 ^ 116"
  obtains "mag_scaled (nearest_mag n) = n * 2 ^ 1074" "nearest_mag n < mag_inf"
  | "53 < floorlog 2 n" "floorlog 2 n \<le> 116"
proof (cases "n = 0 \<or> floorlog 2 n \<le> 53")
  case True
  then show thesis
    using that(1) exact_double [of n] by (cases "n = 0") (simp_all add: nearest_mag_def mag_inf_def)
next
  case False
  have "floorlog 2 n \<le> 116" using assms floorlog_leI [of n 2 116] False by simp
  with False show thesis using that(2) by simp
qed

lemma nearest_mag_nearest:
  assumes "n < 2 ^ 116"
  shows "\<bar>int (mag_scaled (nearest_mag n)) - int n * 2 ^ 1074\<bar> \<le> \<bar>int (mag_scaled m) - int n * 2 ^ 1074\<bar>"
  using assms
proof (cases rule: nearest_mag_exact_or_rounded)
  case 1
  then show ?thesis by (simp only: of_nat_mult of_nat_power of_nat_numeral diff_self abs_zero abs_ge_zero)
next
  case 2
  then obtain low s q r where *: "n = q * 2 ^ s + r" "r < 2 ^ s"
    "mag_scaled low = q * 2 ^ s * 2 ^ 1074" "mag_scaled (Suc low) = (q + 1) * 2 ^ s * 2 ^ 1074"
    "nearest_mag n = low \<and> 2 * r \<le> 2 ^ s \<or> nearest_mag n = Suc low \<and> 2 ^ s \<le> 2 * r"
    by (rule rounded_double)
  define U S where "U = (2 ^ 1074 :: int)" and "S = (2 ^ s :: int)"
  have U: "0 \<le> U" by (simp add: U_def)
  have r: "int r \<le> S" using *(2) by (simp add: S_def)
  have v: "int n = int q * S + int r" "int (mag_scaled low) = int q * S * U"
    "int (mag_scaled (Suc low)) = (int q + 1) * S * U"
    by (simp_all only: * of_nat_mult of_nat_power of_nat_numeral of_nat_add of_nat_1 S_def U_def)
  have low: "int r * U \<le> \<bar>int (mag_scaled m) - int n * U\<bar>" if "m \<le> low"
  proof -
    have "int (mag_scaled m) \<le> int q * S * U" using that mag_scaled_le_iff [of m low] by (simp flip: v)
    then show ?thesis using v by (simp add: algebra_simps)
  qed
  have high: "(S - int r) * U \<le> \<bar>int (mag_scaled m) - int n * U\<bar>" if "\<not> m \<le> low"
  proof -
    have "(int q + 1) * S * U \<le> int (mag_scaled m)" using that mag_scaled_le_iff [of "Suc low" m] by (simp flip: v)
    then show ?thesis using v by (simp add: algebra_simps)
  qed
  have "int (mag_scaled low) - int n * U = - (int r * U)"
    "int (mag_scaled (Suc low)) - int n * U = (S - int r) * U"
    unfolding v by (simp_all add: algebra_simps)
  moreover have "0 \<le> int r * U" "0 \<le> (S - int r) * U" using U r by simp_all
  ultimately have d: "\<bar>int (mag_scaled low) - int n * U\<bar> = int r * U"
    "\<bar>int (mag_scaled (Suc low)) - int n * U\<bar> = (S - int r) * U" by linarith+
  have le: "2 * int r \<le> S \<Longrightarrow> int r * U \<le> (S - int r) * U" "S \<le> 2 * int r \<Longrightarrow> (S - int r) * U \<le> int r * U"
    using U by (intro mult_right_mono; simp)+
  have S: "2 * r \<le> 2 ^ s \<longleftrightarrow> 2 * int r \<le> S" "2 ^ s \<le> 2 * r \<longleftrightarrow> S \<le> 2 * int r"
    using of_nat_le_iff [of "2 * r" "2 ^ s", where 'a = int] of_nat_le_iff [of "2 ^ s" "2 * r", where 'a = int]
    by (simp_all add: S_def)
  show ?thesis
    unfolding U_def [symmetric] using *(5) d le low high S by (cases "m \<le> low") auto
qed

lemma nearest_mag_residual:
  assumes "n < 2 ^ 116"
  obtains p where "mag_scaled (nearest_mag n) = p * 2 ^ 1074" "\<bar>int n - int p\<bar> \<le> 2 ^ 62" "nearest_mag n < mag_inf"
  using assms
proof (cases rule: nearest_mag_exact_or_rounded)
  case 1
  then show thesis by (intro that [of n]) simp_all
next
  case 2
  then obtain low s q r where *: "n = q * 2 ^ s + r" "r < 2 ^ s" "s \<le> 63" "0 < s"
    "mag_scaled low = q * 2 ^ s * 2 ^ 1074" "mag_scaled (Suc low) = (q + 1) * 2 ^ s * 2 ^ 1074"
    "Suc low < mag_inf"
    "nearest_mag n = low \<and> 2 * r \<le> 2 ^ s \<or> nearest_mag n = Suc low \<and> 2 ^ s \<le> 2 * r"
    by (rule rounded_double)
  have "(2 :: nat) ^ s \<le> 2 ^ 63" using *(3) by (intro power_increasing) simp_all
  then have S: "2 ^ s \<le> 2 * (2 ^ 62 :: nat)" by simp
  from *(8) show thesis
  proof (elim disjE conjE)
    assume near: "nearest_mag n = low" "2 * r \<le> 2 ^ s"
    have "r \<le> 2 ^ 62" using near(2) S by linarith
    then have "\<bar>int n - int (q * 2 ^ s)\<bar> \<le> 2 ^ 62" unfolding *(1) by simp
    then show thesis using near *(5,7) by (intro that [of "q * 2 ^ s"]) simp_all
  next
    assume near: "nearest_mag n = Suc low" "2 ^ s \<le> 2 * r"
    have "2 ^ s - r \<le> 2 ^ 62" using near(2) S by linarith
    moreover have "(q + 1) * 2 ^ s = n + (2 ^ s - r)" unfolding *(1) using *(2) by (simp add: distrib_right)
    ultimately have "\<bar>int n - int ((q + 1) * 2 ^ s)\<bar> \<le> 2 ^ 62" by simp
    then show thesis using near *(6,7) by (intro that [of "(q + 1) * 2 ^ s"]) simp_all
  qed
qed

section \<open>Signed order of doubles\<close>

text \<open>
  The magnitude bits under their sign order the non-NaN doubles; both zeros are 0.
\<close>

definition dkey :: "double \<Rightarrow> int" where
  "dkey w = (if dneg w then - int (dmag w) else int (dmag w))"

definition sscaled :: "int \<Rightarrow> int" where
  "sscaled k = (if k < 0 then - int (mag_scaled (nat (- k))) else int (mag_scaled (nat k)))"

lemma sscaled_less_iff: "sscaled j < sscaled k \<longleftrightarrow> j < k"
proof -
  have pos: "0 < mag_scaled m \<longleftrightarrow> 0 < m" for m using mag_scaled_less_iff [of 0 m] by simp
  have pos': "mag_scaled m \<noteq> 0 \<longleftrightarrow> 0 < m" for m using pos [of m] by simp
  consider "j < 0" "k < 0" | "j < 0" "0 \<le> k" | "0 \<le> j" "k < 0" | "0 \<le> j" "0 \<le> k" by linarith
  then show ?thesis
  proof cases
    case 2
    then have "0 < mag_scaled (nat (- j))" by (simp add: pos)
    with 2 show ?thesis by (simp add: sscaled_def)
  next
    case 3
    then have "0 < mag_scaled (nat (- k))" by (simp add: pos)
    with 3 show ?thesis by (simp add: sscaled_def)
  qed (auto simp: sscaled_def mag_scaled_less_iff)
qed

lemma sscaled_eq_iff: "sscaled j = sscaled k \<longleftrightarrow> j = k"
  using sscaled_less_iff [of j k] sscaled_less_iff [of k j] by linarith

definition kval :: "int \<Rightarrow> num_val" where
  "kval k = (if k = int mag_inf then PosInf else if k = - int mag_inf then NegInf else Fin (sscaled k))"

lemma kval_less_iff:
  assumes "\<bar>j\<bar> \<le> int mag_inf" "\<bar>k\<bar> \<le> int mag_inf"
  shows "kval j < kval k \<longleftrightarrow> j < k"
  using assms by (auto simp: kval_def sscaled_less_iff mag_inf_def)

lemma num_value_dkey:
  assumes "\<not> is_nan w"
  shows "num_value (Dbl w) = Some (kval (dkey w))" "\<bar>dkey w\<bar> \<le> int mag_inf"
proof -
  show "\<bar>dkey w\<bar> \<le> int mag_inf" using assms by (simp add: is_nan_def dkey_def)
  show "num_value (Dbl w) = Some (kval (dkey w))"
    using assms by (auto simp: is_inf_def dkey_def kval_def sscaled_def mag_inf_def)
qed

section \<open>The shape of a numeric key\<close>

text \<open>
  The numbers a key can represent: not NaN, and a bigint whose residual fits the 64-bit tail.
  The tail covers every bigint of up to 116 bits, all of int64 included.
\<close>

fun keyable_number :: "js_number \<Rightarrow> bool" where
  "keyable_number (Dbl w) = (\<not> is_nan w)"
| "keyable_number (Big n) = (\<bar>n\<bar> < 2 ^ 116)"

fun prim :: "js_number \<Rightarrow> int" where
  "prim (Dbl w) = dkey w"
| "prim (Big n) = (if n < 0 then - int (nearest_mag (nat (- n))) else int (nearest_mag (nat n)))"

fun resid :: "js_number \<Rightarrow> int" where
  "resid (Dbl w) = 0"
| "resid (Big n) = n - sscaled (prim (Big n)) div 2 ^ 1074"

definition sort_nat :: "int \<Rightarrow> nat" where
  "sort_nat k = nat (if k < 0 then 2 ^ 63 - 1 + k else 2 ^ 63 + k)"

lemma nearest_mag_pos: "0 < n \<Longrightarrow> 0 < nearest_mag n"
  unfolding nearest_mag_def Let_def by (simp add: mag_inf_def)

lemma prim_big_sign: "prim (Big n) < 0 \<longleftrightarrow> n < 0"
  using nearest_mag_pos [of "nat (- n)"] by auto

lemma bigint_parts:
  assumes "\<bar>n\<bar> < 2 ^ 116"
  obtains p where "sscaled (prim (Big n)) = p * 2 ^ 1074" "\<bar>n - p\<bar> \<le> 2 ^ 62" "resid (Big n) = n - p"
    "\<bar>prim (Big n)\<bar> < int mag_inf" "n < 0 \<Longrightarrow> p = - int (mag_scaled (nearest_mag (nat (- n))) div 2 ^ 1074)"
    "\<not> n < 0 \<Longrightarrow> p = int (mag_scaled (nearest_mag (nat n)) div 2 ^ 1074)"
    "2 ^ 1074 dvd mag_scaled (nearest_mag (nat \<bar>n\<bar>))"
proof -
  define N where "N = nat \<bar>n\<bar>"
  have "N < 2 ^ 116" using assms by (simp add: N_def nat_less_iff)
  then obtain q where q: "mag_scaled (nearest_mag N) = q * 2 ^ 1074" "\<bar>int N - int q\<bar> \<le> 2 ^ 62" "nearest_mag N < mag_inf"
    by (rule nearest_mag_residual)
  define U :: nat where "U = 2 ^ 1074"
  have U: "int U = 2 ^ 1074" "0 < U" by (simp_all add: U_def)
  have dq: "mag_scaled (nearest_mag N) div U = q" "int (mag_scaled (nearest_mag N)) = int q * int U"
    "U dvd mag_scaled (nearest_mag N)"
    using q(1) [folded U_def] U(2) by simp_all
  define p where "p = (if n < 0 then - int q else int q)"
  have sc: "sscaled (prim (Big n)) = p * int U"
  proof (cases "n < 0")
    case True
    then have "nat (- n) = N" "0 < N" by (simp_all add: N_def)
    then have "prim (Big n) = - int (nearest_mag N)" "0 < nearest_mag N" using True nearest_mag_pos [of N] by simp_all
    with True show ?thesis by (simp add: sscaled_def dq(2) p_def del: prim.simps)
  next
    case False
    then have "prim (Big n) = int (nearest_mag N)" by (simp add: N_def)
    with False show ?thesis by (simp add: sscaled_def dq(2) p_def del: prim.simps)
  qed
  show thesis
  proof (rule that [of p])
    show "sscaled (prim (Big n)) = p * 2 ^ 1074" using sc unfolding U(1) .
    show "\<bar>n - p\<bar> \<le> 2 ^ 62" using q(2) by (simp add: N_def p_def) arith
    show "resid (Big n) = n - p" using sc U(2) unfolding resid.simps U(1) [symmetric] by simp
    show "\<bar>prim (Big n)\<bar> < int mag_inf" using q(3) by (auto simp: N_def)
    show "p = - int (mag_scaled (nearest_mag (nat (- n))) div 2 ^ 1074)" if "n < 0"
      using dq(1) that unfolding U_def [symmetric] by (simp add: N_def p_def)
    show "p = int (mag_scaled (nearest_mag (nat n)) div 2 ^ 1074)" if "\<not> n < 0"
      using dq(1) that unfolding U_def [symmetric] by (simp add: N_def p_def)
    show "2 ^ 1074 dvd mag_scaled (nearest_mag (nat \<bar>n\<bar>))"
      using dq(3) unfolding U_def N_def .
  qed
qed

lemma unat_word_of_nat64: "k < 2 ^ 64 \<Longrightarrow> unat (word_of_nat k :: 64 word) = k"
  by (simp add: unat_of_nat)

lemma number_of_bigint_parts:
  assumes "\<bar>n\<bar> < 2 ^ 116"
  shows "dneg (number_of_bigint n) \<longleftrightarrow> n < 0" "dmag (number_of_bigint n) = nearest_mag (nat \<bar>n\<bar>)"
    and "dkey (number_of_bigint n) = prim (Big n)"
proof -
  have "nat \<bar>n\<bar> < 2 ^ 116" using assms by (simp add: nat_less_iff)
  then have m: "nearest_mag (nat \<bar>n\<bar>) < mag_inf" by (rule nearest_mag_residual)
  have "unat (number_of_bigint n) = (if n < 0 then 2 ^ 63 else 0) + nearest_mag (nat \<bar>n\<bar>)"
    unfolding number_of_bigint_def by (rule unat_word_of_nat64) (use m in \<open>cases "n < 0"; simp add: mag_inf_def\<close>)
  then show d: "dneg (number_of_bigint n) \<longleftrightarrow> n < 0" "dmag (number_of_bigint n) = nearest_mag (nat \<bar>n\<bar>)"
    using m by (cases "n < 0"; simp add: dneg_def dmag_def mag_inf_def)+
  then show "dkey (number_of_bigint n) = prim (Big n)" by (simp add: dkey_def)
qed

lemma bigint_of_number_of_bigint:
  assumes "\<bar>n\<bar> < 2 ^ 116"
  shows "bigint_of_number (number_of_bigint n) = Some (n - resid (Big n))"
proof -
  obtain p where p: "resid (Big n) = n - p" "\<bar>prim (Big n)\<bar> < int mag_inf"
    "n < 0 \<Longrightarrow> p = - int (mag_scaled (nearest_mag (nat (- n))) div 2 ^ 1074)"
    "\<not> n < 0 \<Longrightarrow> p = int (mag_scaled (nearest_mag (nat n)) div 2 ^ 1074)"
    "2 ^ 1074 dvd mag_scaled (nearest_mag (nat \<bar>n\<bar>))"
    using assms by (rule bigint_parts) blast
  note parts = number_of_bigint_parts [OF assms]
  have "nearest_mag (nat \<bar>n\<bar>) < mag_inf" using p(2) by (auto split: if_splits)
  then have "js_is_integer (number_of_bigint n)"
    using p(5) by (simp add: js_is_integer_def is_nan_def is_inf_def parts(2) dvd_eq_mod_eq_0 del: power_numeral)
  moreover have "n - resid (Big n) = p" using p(1) by simp
  moreover have "nat \<bar>n\<bar> = (if n < 0 then nat (- n) else nat n)" by simp
  ultimately show ?thesis
    unfolding bigint_of_number_def Let_def parts(1,2)
    by (cases "n < 0") (simp_all only: if_True if_False p(3) p(4) not_False_eq_True)
qed

lemma dneg_unat: "dneg w \<Longrightarrow> unat w = 2 ^ 63 + dmag w"
  using unat_word_less(3) [of w] by (simp add: dneg_def dmag_def le_mod_geq)

lemma writeSortableDouble_shape:
  assumes "\<not> is_nan w"
  shows "writeSortableDouble w = be_bytes 8 (sort_nat (dkey w))"
proof -
  define v where "v = (if w = neg_zero then 0 else w)"
  have zero: "dkey neg_zero = 0" "\<not> is_nan 0" "dkey 0 = 0"
    by (simp_all add: neg_zero_def dkey_def dneg_def dmag_def is_nan_def mag_inf_def)
  then have v: "\<not> is_nan v" "dkey v = dkey w" using assms by (auto simp: v_def)
  have neg: "js_less (Dbl v) (Dbl 0) \<longleftrightarrow> dkey v < 0"
    using num_value_dkey [OF v(1)] num_value_dkey [OF zero(2)] kval_less_iff [of "dkey v" 0] zero(3)
    by (simp add: js_less_def del: num_value.simps)
  have u: "unat v < 2 ^ 64" using unat_word_less(3) [of v] by simp
  show ?thesis
  proof (cases "dkey v < 0")
    case True
    then have d: "dneg v" by (simp add: dkey_def split: if_splits)
    have "unat v = 2 ^ 63 + dmag v" by (rule dneg_unat [OF d])
    moreover have "flip_all (be_bytes 8 (unat v)) = be_bytes 8 (256 ^ 8 - 1 - unat v)"
      by (rule flip_all_be_bytes) (use u in simp)
    moreover have "sort_nat (dkey v) = 2 ^ 63 - 1 - dmag v" using d True by (simp add: sort_nat_def dkey_def)
    ultimately show ?thesis
      using True neg v by (simp add: writeSortableDouble_def v_def [symmetric] float64_bits_def)
  next
    case False
    have "v \<noteq> neg_zero" by (simp add: v_def neg_zero_def)
    have "\<not> dneg v"
    proof
      assume d: "dneg v"
      then have "unat v = 2 ^ 63" using False dneg_unat [OF d] by (simp add: dkey_def)
      then have "unat v = unat neg_zero" by (simp add: neg_zero_def)
      with \<open>v \<noteq> neg_zero\<close> show False by (simp add: unat_inj)
    qed
    then have "unat v = dmag v" "dkey v = int (dmag v)" by (simp_all add: dneg_def dmag_def dkey_def)
    moreover have "sort_nat (int m) = 2 ^ 63 + m" for m by (simp add: sort_nat_def nat_add_distrib)
    ultimately show ?thesis
      using False neg v by (simp add: writeSortableDouble_def v_def [symmetric] float64_bits_def flip_top_8 add.commute)
  qed
qed

lemma residual_shape:
  assumes "- (2 ^ 63) \<le> r" "r < 2 ^ 63"
  shows "flip_top (set_bigint64 r) = be_bytes 8 (nat (r + 2 ^ 63))"
proof -
  have "unat (word_of_int r :: 64 word) = nat (r mod 2 ^ 64)"
    by (simp add: unat_eq_nat_uint uint_word_of_int)
  then have *: "flip_top (set_bigint64 r) = be_bytes 8 (nat (r mod 2 ^ 64) + 128 * 256 ^ 7)"
    by (simp only: set_bigint64_def flip_top_8) simp
  show ?thesis
  proof (cases "0 \<le> r")
    case True
    then have "r mod 2 ^ 64 = r" using assms by simp
    then have "nat (r mod 2 ^ 64) + 128 * 256 ^ 7 = nat (r + 2 ^ 63)" using True by (simp add: nat_add_distrib)
    then show ?thesis using * by (simp only:)
  next
    case False
    have "(r + 2 ^ 64) mod 2 ^ 64 = r + 2 ^ 64" using False assms by (intro mod_pos_pos_trivial) simp_all
    then have "r mod 2 ^ 64 = r + 2 ^ 64" by (simp only: mod_add_self2)
    then have "nat (r mod 2 ^ 64) + 128 * 256 ^ 7 = nat (r + 2 ^ 63) + 1 * 256 ^ 8"
      using False assms by simp
    then show ?thesis using * be_bytes_add [of 8 "nat (r + 2 ^ 63)" 1] by (simp only:)
  qed
qed

section \<open>Key order is numeric order\<close>

lemma prim_bound: "keyable_number x \<Longrightarrow> \<bar>prim x\<bar> \<le> int mag_inf"
proof (cases x)
  case (Big n)
  moreover assume "keyable_number x"
  ultimately show ?thesis using bigint_parts [of n] by (metis keyable_number.simps(2) less_imp_le)
qed (simp add: num_value_dkey)

lemma resid_bound: "keyable_number x \<Longrightarrow> - (2 ^ 63) \<le> resid x \<and> resid x < 2 ^ 63"
proof (cases x)
  case (Big n)
  moreover assume "keyable_number x"
  ultimately obtain p where "resid x = n - p" "\<bar>n - p\<bar> \<le> 2 ^ 62"
    using bigint_parts [of n] by (metis keyable_number.simps(2))
  then show ?thesis by (simp add: abs_le_iff)
qed simp

lemma encodeNumeric_shape:
  assumes "keyable_number x"
  shows "encodeNumeric x = Inr (1 # be_bytes 8 (sort_nat (prim x)) @ be_bytes 8 (nat (resid x + 2 ^ 63)))"
proof -
  note r = residual_shape [OF resid_bound [OF assms, THEN conjunct1] resid_bound [OF assms, THEN conjunct2]]
  show ?thesis
  proof (cases x)
    case (Dbl w)
    define v where "v = (if w = neg_zero then 0 else w)"
    have "\<not> is_nan v" "dkey v = dkey w"
      using assms Dbl by (auto simp: v_def neg_zero_def dkey_def dneg_def dmag_def is_nan_def mag_inf_def)
    then show ?thesis using r Dbl writeSortableDouble_shape [of v] by (simp add: v_def [symmetric])
  next
    case (Big n)
    then have n: "\<bar>n\<bar> < 2 ^ 116" using assms by simp
    have k: "dkey (number_of_bigint n) = prim x" using number_of_bigint_parts(3) [OF n] Big by simp
    then have "\<not> is_nan (number_of_bigint n)"
      using prim_bound [OF assms] by (auto simp: is_nan_def dkey_def split: if_splits)
    from writeSortableDouble_shape [OF this] k r bigint_of_number_of_bigint [OF n] show ?thesis
      unfolding Big by (simp only: encodeNumeric.simps Let_def option.case diff_diff_eq2 add_diff_cancel_left' Big)
  qed
qed

text \<open>
  A finite number lies no farther from its primary double than from any other double, so a
  larger number never has a smaller primary.
\<close>

fun exact :: "js_number \<Rightarrow> int" where
  "exact (Dbl w) = sscaled (dkey w)"
| "exact (Big n) = n * 2 ^ 1074"

lemma exact_split:
  assumes "keyable_number x"
  shows "exact x = sscaled (prim x) + resid x * 2 ^ 1074"
proof (cases x)
  case (Big n)
  then obtain p where "sscaled (prim (Big n)) = p * 2 ^ 1074" "resid (Big n) = n - p"
    using bigint_parts [of n] assms by (metis keyable_number.simps(2))
  then show ?thesis unfolding Big exact.simps by (simp only: left_diff_distrib)
qed simp

lemma abs_nearest_sign:
  fixes V M K :: int
  assumes "\<bar>M - V\<bar> \<le> \<bar>K - V\<bar>" "\<bar>M - V\<bar> \<le> V" "0 \<le> V" "0 \<le> K"
  shows "\<bar>(if s then - V else V) - (if s then - M else M)\<bar> \<le> \<bar>(if s then - V else V) - (if t then - K else K)\<bar>"
  using assms by (cases s; cases t) (auto simp: abs_if split: if_splits)

lemma prim_nearest:
  assumes "keyable_number x"
  shows "\<bar>exact x - sscaled (prim x)\<bar> \<le> \<bar>exact x - sscaled k\<bar>"
proof (cases x)
  case (Big n)
  define N U where "N = nat \<bar>n\<bar>" and "U = (2 ^ 1074 :: int)"
  have "N < 2 ^ 116" using assms Big by (simp add: N_def nat_less_iff)
  note near = nearest_mag_nearest [OF this, folded U_def]
  have U: "0 \<le> int N * U" by (simp add: U_def)
  have e: "exact x = (if n < 0 then - (int N * U) else int N * U)" using Big by (simp add: N_def U_def)
  have p: "sscaled (prim x) = (if n < 0 then - int (mag_scaled (nearest_mag N)) else int (mag_scaled (nearest_mag N)))"
    using prim_big_sign [of n] Big by (simp add: sscaled_def N_def)
  define K where "K = int (mag_scaled (nat \<bar>k\<bar>))"
  have k: "sscaled k = (if k < 0 then - K else K)" "0 \<le> K" by (simp_all add: sscaled_def K_def)
  show ?thesis
    unfolding e p k(1) by (rule abs_nearest_sign)
      (use near [of "nat \<bar>k\<bar>", folded K_def] near [of 0] U k(2) in simp_all)
qed simp

lemma prim_mono:
  assumes "keyable_number x" "keyable_number y" "exact x < exact y"
  shows "prim x \<le> prim y"
proof (rule ccontr)
  assume "\<not> prim x \<le> prim y"
  then have "sscaled (prim y) < sscaled (prim x)" by (simp add: sscaled_less_iff)
  moreover have "\<bar>exact x - sscaled (prim x)\<bar> \<le> \<bar>exact x - sscaled (prim y)\<bar>"
    "\<bar>exact y - sscaled (prim y)\<bar> \<le> \<bar>exact y - sscaled (prim x)\<bar>"
    using prim_nearest assms by blast+
  ultimately show False using assms(3) by linarith
qed

lemma prim_exact_eq:
  assumes "keyable_number x" "keyable_number y" "exact x = exact y"
  shows "prim x = prim y"
proof -
  have same: "prim x = prim y" if "keyable_number x" "keyable_number y" "exact x = exact y" "resid y = 0" for x y
  proof -
    have "exact x = sscaled (prim y)" using exact_split [OF that(2)] that(3,4) by simp
    then have "sscaled (prim x) = sscaled (prim y)" using prim_nearest [OF that(1), of "prim y"] by simp
    then show ?thesis by (simp add: sscaled_eq_iff)
  qed
  show ?thesis
  proof (cases x; cases y)
    fix m n assume "x = Big m" "y = Big n"
    then show ?thesis using assms(3) by simp
  next
    fix n w assume "x = Big n" "y = Dbl w"
    then show ?thesis using same [OF assms] by simp
  next
    fix n w assume "x = Dbl w" "y = Big n"
    then show ?thesis using same [OF assms(2,1) assms(3) [symmetric]] by simp
  next
    fix v w assume "x = Dbl v" "y = Dbl w"
    then show ?thesis using same [OF assms] by simp
  qed
qed

text \<open>The number is infinite exactly when its primary is.\<close>

lemma num_value_prim:
  assumes "keyable_number x"
  shows "num_value x = Some (if \<bar>prim x\<bar> = int mag_inf then kval (prim x) else Fin (exact x))"
proof (cases x)
  case (Dbl w)
  then show ?thesis using num_value_dkey [of w] assms by (auto simp: kval_def)
next
  case (Big n)
  have "\<bar>prim x\<bar> < int mag_inf"
    using bigint_parts [of n] assms Big by (metis keyable_number.simps(2))
  then show ?thesis using Big by simp
qed

lemma infinite_resid:
  assumes "keyable_number x" "\<bar>prim x\<bar> = int mag_inf"
  shows "resid x = 0"
proof (cases x)
  case (Big n)
  then show ?thesis using bigint_parts [of n] assms by (metis keyable_number.simps(2) less_irrefl)
qed simp

text \<open>The verdict of the numeric comparator in terms of primary and residual.\<close>

lemma compareNumbers_prim:
  assumes "keyable_number x" "keyable_number y"
  shows "compareNumbers x y < 0 \<longleftrightarrow> prim x < prim y \<or> prim x = prim y \<and> resid x < resid y"
    and "compareNumbers x y = 0 \<longleftrightarrow> prim x = prim y \<and> resid x = resid y"
proof -
  note bounds = prim_bound [OF assms(1)] prim_bound [OF assms(2)]
  define vx vy where "vx = (if \<bar>prim x\<bar> = int mag_inf then kval (prim x) else Fin (exact x))"
    and "vy = (if \<bar>prim y\<bar> = int mag_inf then kval (prim y) else Fin (exact y))"
  have c: "compareNumbers x y = ord_cmp vx vy"
    using num_value_prim [OF assms(1)] num_value_prim [OF assms(2)]
    by (intro compareNumbers_ord) (simp_all add: vx_def vy_def)
  have fin: "exact x < exact y \<longleftrightarrow> prim x < prim y \<or> prim x = prim y \<and> resid x < resid y"
    "exact x = exact y \<longleftrightarrow> prim x = prim y \<and> resid x = resid y"
  proof -
    have U: "(0 :: int) < 2 ^ 1074" by simp
    have same: "exact x < exact y \<longleftrightarrow> resid x < resid y" "exact x = exact y \<longleftrightarrow> resid x = resid y"
      if "prim x = prim y"
      unfolding exact_split [OF assms(1)] exact_split [OF assms(2)] that
      using U by (simp_all only: add_less_cancel_left mult_less_cancel_right_pos add_left_cancel mult_cancel_right) auto
    consider "prim x < prim y" | "prim x = prim y" | "prim y < prim x" by linarith
    then show "exact x < exact y \<longleftrightarrow> prim x < prim y \<or> prim x = prim y \<and> resid x < resid y"
      "exact x = exact y \<longleftrightarrow> prim x = prim y \<and> resid x = resid y"
    proof (atomize (full), cases)
      case 1
      then have "exact x < exact y" using prim_mono [OF assms(2,1)] prim_exact_eq [OF assms] by linarith
      with 1 show "(exact x < exact y \<longleftrightarrow> prim x < prim y \<or> prim x = prim y \<and> resid x < resid y) \<and>
        (exact x = exact y \<longleftrightarrow> prim x = prim y \<and> resid x = resid y)" by simp
    next
      case 2
      with same show "(exact x < exact y \<longleftrightarrow> prim x < prim y \<or> prim x = prim y \<and> resid x < resid y) \<and>
        (exact x = exact y \<longleftrightarrow> prim x = prim y \<and> resid x = resid y)" by simp
    next
      case 3
      then have "exact y < exact x" using prim_mono [OF assms(1,2)] prim_exact_eq [OF assms] by linarith
      with 3 show "(exact x < exact y \<longleftrightarrow> prim x < prim y \<or> prim x = prim y \<and> resid x < resid y) \<and>
        (exact x = exact y \<longleftrightarrow> prim x = prim y \<and> resid x = resid y)" by simp
    qed
  qed
  show "compareNumbers x y < 0 \<longleftrightarrow> prim x < prim y \<or> prim x = prim y \<and> resid x < resid y"
    "compareNumbers x y = 0 \<longleftrightarrow> prim x = prim y \<and> resid x = resid y"
    unfolding c cmp_simps using fin bounds
  proof (atomize (full), goal_cases)
    case 1
    have M: "0 < int mag_inf" by (simp add: mag_inf_def)
    have v: "vx = (if prim x = int mag_inf then PosInf else if prim x = - int mag_inf then NegInf else Fin (exact x))"
      "vy = (if prim y = int mag_inf then PosInf else if prim y = - int mag_inf then NegInf else Fin (exact y))"
      by (auto simp: vx_def vy_def kval_def)
    have r: "prim x = int mag_inf \<or> prim x = - int mag_inf \<Longrightarrow> resid x = 0"
      "prim y = int mag_inf \<or> prim y = - int mag_inf \<Longrightarrow> resid y = 0"
      using infinite_resid [OF assms(1)] infinite_resid [OF assms(2)] by auto
    have "prim x = int mag_inf \<or> prim x = - int mag_inf \<or> - int mag_inf < prim x \<and> prim x < int mag_inf"
      "prim y = int mag_inf \<or> prim y = - int mag_inf \<or> - int mag_inf < prim y \<and> prim y < int mag_inf"
      using bounds by linarith+
    then show ?case using M r fin by (elim disjE) (simp_all add: v)
  qed
qed

text \<open>The bytes of a numeric key.\<close>

definition numeric_key :: "js_number \<Rightarrow> byte list" where
  "numeric_key x = 1 # be_bytes 8 (sort_nat (prim x)) @ be_bytes 8 (nat (resid x + 2 ^ 63))"

lemma sort_nat_less:
  assumes "\<bar>j\<bar> \<le> int mag_inf" "\<bar>k\<bar> \<le> int mag_inf" "j < k"
  shows "sort_nat j < sort_nat k" "sort_nat k < 256 ^ 8"
proof -
  have "- (2 ^ 63 - 1) < j" "j < 2 ^ 63 - 1" "- (2 ^ 63 - 1) < k" "k < 2 ^ 63 - 1"
    using assms(1,2) by (simp_all add: mag_inf_def)
  with assms(3) show "sort_nat j < sort_nat k" "sort_nat k < 256 ^ 8"
    by (simp_all add: sort_nat_def nat_less_iff)
qed

lemma numeric_key_sep:
  assumes "keyable_number x" "keyable_number y" "compareNumbers x y < 0"
  shows "sep (numeric_key x) (numeric_key y)"
proof -
  from assms consider "prim x < prim y" | "prim x = prim y" "resid x < resid y"
    by (auto simp: compareNumbers_prim)
  then show ?thesis
  proof cases
    case 1
    have "sep (be_bytes 8 (sort_nat (prim x))) (be_bytes 8 (sort_nat (prim y)))"
      using sort_nat_less [OF prim_bound [OF assms(1)] prim_bound [OF assms(2)] 1] by (intro be_bytes_sep)
    then show ?thesis unfolding numeric_key_def by (intro sep_Cons sep_append)
  next
    case 2
    have "sep (be_bytes 8 (nat (resid x + 2 ^ 63))) (be_bytes 8 (nat (resid y + 2 ^ 63)))"
      using resid_bound [OF assms(1)] resid_bound [OF assms(2)] 2 by (intro be_bytes_sep) (simp_all add: nat_less_iff)
    then show ?thesis unfolding numeric_key_def 2 by (intro sep_Cons sep_prepend)
  qed
qed

lemma compareNumbers_comparator: "comparator_on {x. num_value x \<noteq> None} compareNumbers"
proof -
  have "comparator_on {x. num_value x \<noteq> None} (\<lambda>a b. ord_cmp (the (num_value a)) (the (num_value b)))"
    using ord.vimage [of "\<lambda>v. the (num_value v)"] by simp
  then show ?thesis by (rule comparator_on_cong) (auto simp: compareNumbers_ord)
qed

lemma keyable_not_nan: "keyable_number x \<Longrightarrow> num_value x \<noteq> None"
  by (simp add: num_value_prim)

interpretation numeric: sep_encoder "{x. keyable_number x}" compareNumbers numeric_key
proof (intro sep_encoder.intro sep_encoder_axioms.intro)
  show "comparator_on {x. keyable_number x} compareNumbers"
    using keyable_not_nan by (intro comparator_on.subset [OF compareNumbers_comparator]) auto
  show "numeric_key x = numeric_key y"
    if "x \<in> {x. keyable_number x}" "y \<in> {x. keyable_number x}" "compareNumbers x y = 0" for x y
    using that by (simp add: compareNumbers_prim numeric_key_def)
qed (simp add: numeric_key_sep)

text \<open>
  The 64-bit tail is too short for larger bigints: the residual of a 119-bit integer can be a
  multiple of \<open>2 ^ 64\<close>, which \<open>setBigInt64\<close> stores as 0.
\<close>

lemma floorlog_118: "floorlog 2 (2 ^ 118) = 119" "floorlog 2 (2 ^ 118 + 2 ^ 64) = 119"
  by (simp_all add: compute_floorlog)

lemma nearest_118:
  "nearest_mag (2 ^ 118) = 1141 * 2 ^ 52" "nearest_mag (2 ^ 118 + 2 ^ 64) = 1141 * 2 ^ 52"
  unfolding nearest_mag_def Let_def floorlog_118 by (simp_all add: mag_inf_def)

section \<open>Decoding\<close>

datatype decode_error = Underflow | UnknownPrefix byte | NotAnInteger | JsonSyntax







section \<open>Properties\<close>

text \<open>
  C9. The key bytes of two numbers, bigint or double, compare as the numbers do under the
  in-memory comparator: doubles exactly, and bigints of up to 116 bits together with them.
  Every key is 17 bytes long.
\<close>

theorem encodeNumeric_order:
  assumes "keyable_number x" "keyable_number y"
  shows "\<exists>kx ky. encodeNumeric x = Inr kx \<and> encodeNumeric y = Inr ky \<and> length kx = 17 \<and> length ky = 17 \<and>
    sgn (compareBytes kx ky) = sgn (compareNumbers x y)"
proof -
  have "sgn (compareBytes (numeric_key x) (numeric_key y)) = sgn (compareNumbers x y)"
    using numeric.enc_sgn [of x y] assms compareBytes_sgn [of "numeric_key x" "numeric_key y"]
    by (metis mem_Collect_eq sgn_sgn)
  then show ?thesis
    using encodeNumeric_shape [OF assms(1)] encodeNumeric_shape [OF assms(2)]
    by (simp add: numeric_key_def del: encodeNumeric.simps)
qed

theorem encodeNumeric_order_witness:
  "\<exists>kx ky. encodeNumeric (Big (2 ^ 53 + 1)) = Inr kx \<and> encodeNumeric (Dbl 0x4340000000000000) = Inr ky \<and>
     length kx = 17 \<and> length ky = 17 \<and>
     sgn (compareBytes kx ky) = sgn (compareNumbers (Big (2 ^ 53 + 1)) (Dbl 0x4340000000000000))"
proof -
  have "keyable_number (Big (2 ^ 53 + 1))" "keyable_number (Dbl 0x4340000000000000)"
    by (simp_all add: is_nan_def dmag_def mag_inf_def)
  then show ?thesis by (rule encodeNumeric_order)
qed



text \<open>
  C11. The tail is too short for wider bigints: \<open>2 ^ 118\<close> and \<open>2 ^ 118 + 2 ^ 64\<close> are different
  numbers with the same key, although the function documents that key order matches
  \<open>compareNumbers\<close> for any numeric value.
\<close>

theorem encodeNumeric_wide_collision:
  "encodeNumeric (Big (2 ^ 118)) = encodeNumeric (Big (2 ^ 118 + 2 ^ 64)) \<and>
   compareNumbers (Big (2 ^ 118)) (Big (2 ^ 118 + 2 ^ 64)) < 0"
proof -
  have n: "number_of_bigint (2 ^ 118 + 2 ^ 64) = number_of_bigint (2 ^ 118)"
    using nearest_118 by (simp add: number_of_bigint_def)
  have r: "set_bigint64 (2 ^ 118 + 2 ^ 64 - p) = set_bigint64 (2 ^ 118 - p)" for p
  proof -
    have "(word_of_int (2 ^ 118 + 2 ^ 64 - p) :: 64 word) = word_of_int (2 ^ 118 - p)"
      by (simp add: word_of_int_eq_iff take_bit_eq_mod mod_diff_left_eq [symmetric, of "_ + _"])
    then show ?thesis by (simp only: set_bigint64_def)
  qed
  have "encodeNumeric (Big (2 ^ 118)) = encodeNumeric (Big (2 ^ 118 + 2 ^ 64))"
    unfolding encodeNumeric.simps Let_def n r ..
  moreover have "compareNumbers (Big (2 ^ 118)) (Big (2 ^ 118 + 2 ^ 64)) < 0"
    by (simp add: compareNumbers_def js_less_def)
  ultimately show ?thesis ..
qed

end
