(* ===== verification/Key_Encoding.thy ===== *)
theory Key_Encoding
  imports Num_Encoding Decimal_Text
begin

text \<open>
  Storage keys (quereus-store/src/common/encoding.ts): encoding of SQL values and of
  composite keys into byte strings whose order is the order of the values, and decoding.
\<close>

section \<open>Unpaired surrogates\<close>

definition HAS_SURROGATE :: "js_string \<Rightarrow> bool" where
  "HAS_SURROGATE s \<longleftrightarrow> list_ex (\<lambda>u. 0xD800 \<le> unat u \<and> unat u \<le> 0xDFFF) s"

text \<open>The loop of \<open>findUnpairedSurrogate\<close> from index \<open>i\<close> on; a pair advances it by two.\<close>

fun scan_surrogates :: "nat \<Rightarrow> js_string \<Rightarrow> int" where
  "scan_surrogates i [] = -1"
| "scan_surrogates i [u] =
     (if unat u < 0xD800 \<or> 0xDFFF < unat u then -1 else int i)"
| "scan_surrogates i (u # v # rest) =
     (if unat u < 0xD800 \<or> 0xDFFF < unat u then scan_surrogates (i + 1) (v # rest)
      else if 0xDC00 \<le> unat u then int i
      else if unat v < 0xDC00 \<or> 0xDFFF < unat v then int i
      else scan_surrogates (i + 2) rest)"

definition findUnpairedSurrogate :: "js_string \<Rightarrow> int" where
  "findUnpairedSurrogate s = (if \<not> HAS_SURROGATE s then -1 else scan_surrogates 0 s)"

text \<open>The error carries the code unit and its offset, which the message prints.\<close>

definition assertNoUnpairedSurrogate :: "js_string \<Rightarrow> encode_error option" where
  "assertNoUnpairedSurrogate s =
     (let i = findUnpairedSurrogate s in
      if i < 0 then None else Some (UnpairedSurrogate (unat (s ! nat i)) (nat i)))"

lemma scan_surrogates_well_formed: "scan_surrogates i s < 0 \<longleftrightarrow> well_formed s"
  by (induction i s rule: scan_surrogates.induct)
    (auto simp: is_high_surrogate_def is_low_surrogate_def)

lemma no_surrogate_well_formed: "\<not> HAS_SURROGATE s \<Longrightarrow> well_formed s"
  by (induction s rule: well_formed.induct)
    (auto simp: HAS_SURROGATE_def is_high_surrogate_def is_low_surrogate_def)

lemma findUnpairedSurrogate_iff: "findUnpairedSurrogate s < 0 \<longleftrightarrow> well_formed s"
  by (simp add: findUnpairedSurrogate_def scan_surrogates_well_formed no_surrogate_well_formed)

lemma assertNoUnpairedSurrogate_iff: "assertNoUnpairedSurrogate s = None \<longleftrightarrow> well_formed s"
  by (simp add: assertNoUnpairedSurrogate_def Let_def findUnpairedSurrogate_iff)

subsection \<open>JSON text never holds one\<close>

lemma well_formed_append: "well_formed a \<Longrightarrow> well_formed b \<Longrightarrow> well_formed (a @ b)"
proof (induction a rule: well_formed.induct)
  case (2 u)
  then show ?case by (cases b) simp_all
next
  case (3 u v s)
  then show ?case by (cases "is_high_surrogate (unat u)") simp_all
qed simp

definition ascii :: "js_string \<Rightarrow> bool" where
  "ascii s \<longleftrightarrow> (\<forall>u \<in> set s. unat u < 128)"

lemma ascii_simps [simp]:
  "ascii []" "ascii (u # s) \<longleftrightarrow> unat u < 128 \<and> ascii s" "ascii (s @ t) \<longleftrightarrow> ascii s \<and> ascii t"
  by (auto simp: ascii_def)

lemma ascii_well_formed: "ascii s \<Longrightarrow> well_formed s"
  by (rule no_surrogate_well_formed) (auto simp: HAS_SURROGATE_def ascii_def list_ex_iff)

lemma lit_ascii: "\<forall>c \<in> set s. of_char c < (128 :: nat) \<Longrightarrow> ascii (lit s)"
  by (auto simp: ascii_def lit_def unat_of_nat)

lemma hex_unit_ascii: "d < 16 \<Longrightarrow> unat (hex_unit d) < 128"
  by (simp add: hex_unit_def unat_of_nat)

lemma unicode_escape_ascii: "ascii (unicode_escape u)"
  by (simp add: unicode_escape_def hex_unit_ascii)

lemma quote_unit_well_formed:
  "\<not> is_high_surrogate (unat u) \<Longrightarrow> \<not> is_low_surrogate (unat u) \<Longrightarrow> well_formed (quote_unit u)"
proof -
  have "quote_unit u = [u] \<or> ascii (quote_unit u)" by (simp add: quote_unit_def unicode_escape_ascii)
  then show "\<not> is_high_surrogate (unat u) \<Longrightarrow> \<not> is_low_surrogate (unat u) \<Longrightarrow> well_formed (quote_unit u)"
    using ascii_well_formed by auto
qed

lemma quote_units_well_formed: "well_formed (quote_units s)"
proof (induction s rule: quote_units.induct)
  case (2 u)
  then show ?case by (simp add: quote_unit_well_formed ascii_well_formed unicode_escape_ascii)
next
  case (3 u v s)
  then show ?case
    by (auto intro!: well_formed_append simp: quote_unit_well_formed ascii_well_formed [OF unicode_escape_ascii])
qed simp

lemma quote_json_well_formed: "well_formed (quote_json s)"
  unfolding quote_json_def
  by (intro well_formed_append quote_units_well_formed) (simp_all add: is_high_surrogate_def is_low_surrogate_def)

lemma digit_units_ascii: "(\<And>d. d \<in> set ds \<Longrightarrow> d < 10) \<Longrightarrow> ascii (digit_units ds)"
proof -
  assume *: "\<And>d. d \<in> set ds \<Longrightarrow> d < 10"
  have "unat (word_of_nat (48 + d) :: 16 word) < 128" if "d \<in> set ds" for d
    using * [OF that] unat_digit_unit [of d] by (simp del: of_nat_add)
  then show "ascii (digit_units ds)" by (auto simp: ascii_def digit_units_def)
qed

lemma dec_digits_ascii: "ascii (digit_units (dec_digits n))"
  by (rule digit_units_ascii) (rule dec_digits_less)

lemma ascii_take_drop: "ascii s \<Longrightarrow> ascii (take n s)" "ascii s \<Longrightarrow> ascii (drop n s)"
  by (auto simp: ascii_def dest: in_set_takeD in_set_dropD)

lemma decimal_text_ascii: "ascii (digit_units ds) \<Longrightarrow> ascii (decimal_text ds n)"
  using digit_units_ascii [of "replicate (nat (n - int (length ds))) 0"] digit_units_ascii [of "replicate (nat (- n)) 0"]
  by (simp add: decimal_text_def Let_def lit_def ascii_take_drop dec_digits_ascii)

lemma number_to_string_ascii: "ascii (number_to_string w)"
  by (auto simp: number_to_string_def mag_text_def lit_def decimal_text_ascii dec_digits_ascii split: option.splits)

lemma comma_join_well_formed: "(\<And>x. x \<in> set xs \<Longrightarrow> well_formed x) \<Longrightarrow> well_formed (comma_join xs)"
proof (induction xs rule: comma_join.induct)
  case (3 x y xs)
  have "well_formed (lit '','')" by (rule ascii_well_formed) (simp add: lit_def)
  moreover have "well_formed (comma_join (y # xs))" by (rule 3(1)) (simp add: 3(2))
  ultimately show ?case using 3(2) [of x] by (simp add: well_formed_append)
qed simp_all

lemma stringify_well_formed: "well_formed (stringify v)"
proof (induction v)
  case JNull
  then show ?case by (intro ascii_well_formed) (simp add: lit_def)
next
  case (JBool b)
  then show ?case by (intro ascii_well_formed) (simp add: lit_def)
next
  case (JNum w)
  then show ?case by (intro ascii_well_formed) (simp add: lit_def number_to_string_ascii)
next
  case (JStr s)
  then show ?case by (simp add: quote_json_well_formed)
next
  case (JArr xs)
  then have "well_formed (comma_join (map stringify xs))" by (intro comma_join_well_formed) auto
  moreover have "well_formed (lit ''['')" "well_formed (lit '']'')"
    by (intro ascii_well_formed; simp add: lit_def)+
  ultimately show ?case by (simp add: well_formed_append)
next
  case (JObj ps)
  have lits: "well_formed (lit ''{'')" "well_formed (lit ''}'')" "well_formed (lit '':'')"
    by (intro ascii_well_formed; simp add: lit_def)+
  have "well_formed (stringify v)" if "(k, v) \<in> set ps" for k v
    using JObj [of "(k, v)" v] that by simp
  then have "well_formed (comma_join (map (\<lambda>(k, v). quote_json k @ lit '':'' @ stringify v) ps))"
    by (intro comma_join_well_formed) (auto intro!: well_formed_append quote_json_well_formed lits)
  then show ?case by (simp add: well_formed_append lits)
qed

section \<open>Key normalizers\<close>

text \<open>
  The built-in normalizers (quereus/src/util/key-serializer.ts) and the resolver over them.
  The Unicode case mappings are a parameter. A resolver throws on a name it cannot key: \<open>None\<close>.
\<close>

type_synonym key_normalizer = "js_string \<Rightarrow> js_string"

type_synonym normalizer_resolver = "js_string option \<Rightarrow> key_normalizer option"

record case_maps =
  toUpperCase :: "js_string \<Rightarrow> js_string"
  toLowerCase :: "js_string \<Rightarrow> js_string"

definition IDENTITY_NORMALIZER :: key_normalizer where
  "IDENTITY_NORMALIZER s = s"

definition RTRIM_NORMALIZER :: key_normalizer where
  "RTRIM_NORMALIZER s = (let n = trim_length s (length s) in if n = length s then s else take n s)"

definition NOCASE_NORMALIZER :: "case_maps \<Rightarrow> key_normalizer" where
  "NOCASE_NORMALIZER cm s = toLowerCase cm s"

definition BUILTIN_NORMALIZERS :: "case_maps \<Rightarrow> js_string \<Rightarrow> key_normalizer option" where
  "BUILTIN_NORMALIZERS cm name =
     (if name = lit ''BINARY'' then Some IDENTITY_NORMALIZER
      else if name = lit ''NOCASE'' then Some (NOCASE_NORMALIZER cm)
      else if name = lit ''RTRIM'' then Some RTRIM_NORMALIZER
      else None)"

definition BUILTIN_KEY_NORMALIZER_RESOLVER :: "case_maps \<Rightarrow> normalizer_resolver" where
  "BUILTIN_KEY_NORMALIZER_RESOLVER cm name =
     (case name of
        None \<Rightarrow> Some IDENTITY_NORMALIZER
      | Some n \<Rightarrow> if n = [] \<or> n = lit ''BINARY'' then Some IDENTITY_NORMALIZER
                 else BUILTIN_NORMALIZERS cm (toUpperCase cm n))"

section \<open>Encoding values\<close>

record encode_options =
  opt_collation :: "js_string option"
  opt_normalizers :: "normalizer_resolver option"

definition encodeText :: "js_string \<Rightarrow> js_string \<Rightarrow> normalizer_resolver \<Rightarrow> encode_error + byte list" where
  "encodeText value collation normalizers =
     (case normalizers (Some collation) of
        None \<Rightarrow> Inl (NoSuchCollation collation)
      | Some normalizer \<Rightarrow>
          (let sortValue = normalizer value in
           case assertNoUnpairedSurrogate sortValue of
             Some e \<Rightarrow> Inl e
           | None \<Rightarrow> Inr (writeEscapedWithTerminator 3 (text_encode sortValue))))"

definition encodeBlob :: "byte list \<Rightarrow> byte list" where
  "encodeBlob value = writeEscapedWithTerminator 4 value"

definition encodeObject :: "js_string \<Rightarrow> byte list" where
  "encodeObject jsonString = writeEscapedWithTerminator 5 (text_encode jsonString)"

fun encode_dispatch :: "js_string \<Rightarrow> normalizer_resolver \<Rightarrow> sql_value \<Rightarrow> encode_error + byte list" where
  "encode_dispatch collation normalizers SqlNull = Inr [0]"
| "encode_dispatch collation normalizers (SqlBig n) = encodeNumeric (Big n)"
| "encode_dispatch collation normalizers (SqlNum w) = encodeNumeric (Dbl w)"
| "encode_dispatch collation normalizers (SqlText s) = encodeText s collation normalizers"
| "encode_dispatch collation normalizers (SqlBlob b) = Inr (encodeBlob b)"
| "encode_dispatch collation normalizers (SqlBool b) = encodeNumeric (Big (if b then 1 else 0))"
| "encode_dispatch collation normalizers (SqlObject ps) = Inr (encodeObject (canonicalJsonString (JObj ps)))"
| "encode_dispatch collation normalizers (SqlArray xs) = Inr (encodeObject (canonicalJsonString (JArr xs)))"
| "encode_dispatch collation normalizers SqlUndefined = Inl CannotEncode"

definition encodeValue :: "case_maps \<Rightarrow> sql_value \<Rightarrow> encode_options \<Rightarrow> encode_error + byte list" where
  "encodeValue cm value options =
     (let collation = (case opt_collation options of None \<Rightarrow> lit ''NOCASE'' | Some c \<Rightarrow> c);
          normalizers = (case opt_normalizers options of
            None \<Rightarrow> BUILTIN_KEY_NORMALIZER_RESOLVER cm | Some r \<Rightarrow> r)
      in encode_dispatch collation normalizers value)"

section \<open>Composite keys\<close>

text \<open>
  The optional arrays \<open>directions\<close>, \<open>collations\<close> and \<open>transforms\<close> are lists read by position,
  short or absent ones defaulting; \<open>slot\<close> is the reading. The first part that throws ends the map.
\<close>

definition slot :: "'a list \<Rightarrow> nat \<Rightarrow> 'a \<Rightarrow> 'a" where
  "slot xs i d = (if i < length xs then xs ! i else d)"

definition encode_part ::
  "case_maps \<Rightarrow> encode_options \<Rightarrow> bool list \<Rightarrow> js_string option list \<Rightarrow> (sql_value \<Rightarrow> sql_value) option list \<Rightarrow>
   nat \<Rightarrow> sql_value \<Rightarrow> encode_error + byte list" where
  "encode_part cm options directions collations transforms i v =
     (let colOptions = (case slot collations i None of
            None \<Rightarrow> options | Some c \<Rightarrow> options\<lparr>opt_collation := Some c\<rparr>);
          v' = (case slot transforms i None of
            Some t \<Rightarrow> if v \<noteq> SqlNull then t v else v | None \<Rightarrow> v)
      in case encodeValue cm v' colOptions of
           Inl e \<Rightarrow> Inl e
         | Inr encoded \<Rightarrow> Inr (if slot directions i False then flip_all encoded else encoded))"

fun encode_parts ::
  "(nat \<Rightarrow> sql_value \<Rightarrow> encode_error + byte list) \<Rightarrow> nat \<Rightarrow> sql_value list \<Rightarrow> encode_error + byte list" where
  "encode_parts part i [] = Inr []"
| "encode_parts part i (v # vs) =
     (case part i v of
        Inl e \<Rightarrow> Inl e
      | Inr p \<Rightarrow> (case encode_parts part (i + 1) vs of Inl e \<Rightarrow> Inl e | Inr rest \<Rightarrow> Inr (p @ rest)))"

definition encodeCompositeKey ::
  "case_maps \<Rightarrow> sql_value list \<Rightarrow> encode_options \<Rightarrow> bool list \<Rightarrow> js_string option list \<Rightarrow>
   (sql_value \<Rightarrow> sql_value) option list \<Rightarrow> encode_error + byte list" where
  "encodeCompositeKey cm values options directions collations transforms =
     encode_parts (encode_part cm options directions collations transforms) 0 values"

section \<open>Key order is value order\<close>

text \<open>
  The contract between a collation and its key normalizer (the \<open>orderPreserving\<close> stamp): the
  normalized forms compare by code point as the strings do under the collation.
\<close>

definition order_normalizer :: "collation \<Rightarrow> key_normalizer \<Rightarrow> bool" where
  "order_normalizer coll N \<longleftrightarrow> (\<forall>a b. sgn (coll a b) = sgn (compareCodePoints (N a) (N b)))"

lemma builtin_order_normalizers:
  "order_normalizer BINARY_COLLATION IDENTITY_NORMALIZER"
  "order_normalizer (NOCASE_COLLATION (toLowerCase cm)) (NOCASE_NORMALIZER cm)"
  "order_normalizer RTRIM_COLLATION RTRIM_NORMALIZER"
proof -
  have "RTRIM_NORMALIZER s = rtrim s" for s
    using take_trim_length [of "length s" s] by (auto simp: RTRIM_NORMALIZER_def Let_def)
  then show "order_normalizer RTRIM_COLLATION RTRIM_NORMALIZER"
    by (simp add: order_normalizer_def RTRIM_COLLATION_rtrim)
qed (simp_all add: order_normalizer_def BINARY_COLLATION_def IDENTITY_NORMALIZER_def NOCASE_COLLATION_def NOCASE_NORMALIZER_def)

text \<open>The values a column can key under a normalizer.\<close>

fun keyable_value :: "key_normalizer \<Rightarrow> sql_value \<Rightarrow> bool" where
  "keyable_value N (SqlNum w) = (\<not> is_nan w)"
| "keyable_value N (SqlBig n) = (\<bar>n\<bar> < 2 ^ 116)"
| "keyable_value N (SqlText s) = well_formed (N s)"
| "keyable_value N SqlUndefined = False"
| "keyable_value N _ = True"

definition value_key :: "key_normalizer \<Rightarrow> sql_value \<Rightarrow> byte list" where
  "value_key N v =
     (case getStorageClass v of
        CNumeric \<Rightarrow> numeric_key (numeric_operand v)
      | CText \<Rightarrow> writeEscapedWithTerminator 3 (text_encode (N (text_operand v)))
      | CBlob \<Rightarrow> writeEscapedWithTerminator 4 (blob_operand v)
      | CObject \<Rightarrow> writeEscapedWithTerminator 5 (text_encode (objectCanonicalString v))
      | _ \<Rightarrow> [0])"

lemma keyable_number_operand: "keyable_value N v \<Longrightarrow> keyable_number (numeric_operand v)"
  by (cases v) (simp_all add: is_nan_def mag_inf_def dmag_def)

lemma keyable_text: "keyable_value N v \<Longrightarrow> getStorageClass v = CText \<Longrightarrow> well_formed (N (text_operand v))"
  by (cases v) simp_all

lemma keyable_class: "keyable_value N v \<Longrightarrow> getStorageClass v \<noteq> CUnknown"
  by (cases v) simp_all

lemma encodeNumeric_key: "keyable_number x \<Longrightarrow> encodeNumeric x = Inr (numeric_key x)"
  using encodeNumeric_shape [of x] by (simp only: numeric_key_def)

lemma bool_numeric_key: "numeric_key (Big (if b then 1 else 0)) = numeric_key (numeric_operand (SqlBool b))"
proof -
  have "compareNumbers (Big (if b then 1 else 0)) (numeric_operand (SqlBool b)) = 0"
    by (simp add: compareNumbers_def js_less_def is_nan_def is_inf_def mag_inf_def dmag_def dneg_def mag_scaled_def)
  then show ?thesis
    by (intro numeric.enc_eq) (simp_all add: is_nan_def mag_inf_def dmag_def)
qed

lemma encode_dispatch_key:
  assumes "keyable_value N v" "normalizers (Some c) = Some N"
  shows "encode_dispatch c normalizers v = Inr (value_key N v)"
proof (cases v)
  case (SqlBool b)
  have "keyable_number (Big (if b then 1 else 0))" by simp
  then show ?thesis
    using SqlBool encodeNumeric_key bool_numeric_key [of b]
    by (simp add: value_key_def del: encodeNumeric.simps numeric_operand.simps)
next
  case (SqlText s)
  then have "assertNoUnpairedSurrogate (N s) = None" using assms(1) by (simp add: assertNoUnpairedSurrogate_iff)
  then show ?thesis using SqlText assms(2) by (simp add: encodeText_def value_key_def)
qed (use assms(1) in \<open>simp_all add: value_key_def encodeNumeric_key encodeBlob_def encodeObject_def del: encodeNumeric.simps\<close>)

lemma text_encode_less:
  assumes "well_formed a" "well_formed b"
  shows "sgn (lex_cmp ord_cmp (text_encode a) (text_encode b)) = sgn (compareCodePoints a b)"
  by (simp add: compareCodePoints_lex text_encode_sgn lex_units_code_points [OF assms])

lemma objectCanonicalString_well_formed: "well_formed (objectCanonicalString v)"
  by (cases v) (simp_all add: canonicalJsonString_def stringify_well_formed del: stringify.simps canonicalize.simps)

text \<open>Each class writes its own tag, and the tags are in class order.\<close>

fun class_tag :: "storage_class \<Rightarrow> byte" where
  "class_tag CNumeric = 1"
| "class_tag CText = 3"
| "class_tag CBlob = 4"
| "class_tag CObject = 5"
| "class_tag _ = 0"

lemma value_key_tag: obtains r where "value_key N v = class_tag (getStorageClass v) # r"
  by (cases "getStorageClass v") (auto simp: value_key_def numeric_key_def writeEscapedWithTerminator_def)

lemma class_tag_less:
  "k \<noteq> CUnknown \<Longrightarrow> l \<noteq> CUnknown \<Longrightarrow> class_num k < class_num l \<Longrightarrow> class_tag k < class_tag l"
  by (cases k; cases l) simp_all

lemma value_key_same_class:
  assumes "order_normalizer coll N" "keyable_value N a" "keyable_value N b"
    and "getStorageClass a = k" "getStorageClass b = k"
  shows "compareSameType a b k coll < 0 \<Longrightarrow> sep (value_key N a) (value_key N b)"
    and "compareSameType a b k coll = 0 \<Longrightarrow> value_key N a = value_key N b"
proof (atomize (full), cases k)
  case CNumeric
  then show "(compareSameType a b k coll < 0 \<longrightarrow> sep (value_key N a) (value_key N b)) \<and>
    (compareSameType a b k coll = 0 \<longrightarrow> value_key N a = value_key N b)"
    using assms(2-5) numeric.enc_sep [of "numeric_operand a" "numeric_operand b"]
      numeric.enc_eq [of "numeric_operand a" "numeric_operand b"]
    by (simp add: value_key_def keyable_number_operand)
next
  case CText
  then have wf: "well_formed (N (text_operand a))" "well_formed (N (text_operand b))"
    using assms(2-5) keyable_text by blast+
  have "sgn (coll (text_operand a) (text_operand b)) =
      sgn (lex_cmp ord_cmp (text_encode (N (text_operand a))) (text_encode (N (text_operand b))))"
    using assms(1) text_encode_less [OF wf] by (simp add: order_normalizer_def)
  then have "coll (text_operand a) (text_operand b) < 0 \<longleftrightarrow>
      lex_cmp ord_cmp (text_encode (N (text_operand a))) (text_encode (N (text_operand b))) < 0"
    "coll (text_operand a) (text_operand b) = 0 \<longleftrightarrow>
      lex_cmp ord_cmp (text_encode (N (text_operand a))) (text_encode (N (text_operand b))) = 0"
    by (metis sgn_less sgn_0_0)+
  then show "(compareSameType a b k coll < 0 \<longrightarrow> sep (value_key N a) (value_key N b)) \<and>
    (compareSameType a b k coll = 0 \<longrightarrow> value_key N a = value_key N b)"
    using CText assms(4,5) by (auto simp: value_key_def writeEscaped_sep lex_ord_cmp_eq_iff)
next
  case CBlob
  then show "(compareSameType a b k coll < 0 \<longrightarrow> sep (value_key N a) (value_key N b)) \<and>
    (compareSameType a b k coll = 0 \<longrightarrow> value_key N a = value_key N b)"
    using assms(4,5) by (auto simp: value_key_def writeEscaped_sep compare_blobs_lex lex_ord_cmp_eq_iff)
next
  case CObject
  have "sgn (compareCodePoints (objectCanonicalString a) (objectCanonicalString b)) =
      sgn (lex_cmp ord_cmp (text_encode (objectCanonicalString a)) (text_encode (objectCanonicalString b)))"
    using text_encode_less [OF objectCanonicalString_well_formed objectCanonicalString_well_formed] by simp
  then have "compareCodePoints (objectCanonicalString a) (objectCanonicalString b) < 0 \<longleftrightarrow>
      lex_cmp ord_cmp (text_encode (objectCanonicalString a)) (text_encode (objectCanonicalString b)) < 0"
    by (metis sgn_less)
  then show "(compareSameType a b k coll < 0 \<longrightarrow> sep (value_key N a) (value_key N b)) \<and>
    (compareSameType a b k coll = 0 \<longrightarrow> value_key N a = value_key N b)"
    using CObject assms(4,5) by (auto simp: value_key_def writeEscaped_sep code_points.cmp_eq_iff)
qed (use assms(4,5) in \<open>simp_all add: value_key_def\<close>)

lemma compareSqlValuesFast_cases:
  "compareSqlValuesFast a b coll < 0 \<longleftrightarrow>
     class_num (getStorageClass a) < class_num (getStorageClass b) \<or>
     getStorageClass a = getStorageClass b \<and> compareSameType a b (getStorageClass a) coll < 0"
  "compareSqlValuesFast a b coll = 0 \<longleftrightarrow>
     getStorageClass a = getStorageClass b \<and> compareSameType a b (getStorageClass a) coll = 0"
  using compareSqlValuesFast_class_first [of a b coll]
  by (cases "class_num (getStorageClass a)" "class_num (getStorageClass b)" rule: linorder_cases;
      auto simp: class_first_def sgn_if split: if_splits)+

lemma value_key_encoder:
  assumes "order_normalizer coll N" "comparator_total coll"
  shows "sep_encoder {v. keyable_value N v} (\<lambda>a b. compareSqlValuesFast a b coll) (value_key N)"
proof (intro sep_encoder.intro sep_encoder_axioms.intro)
  have "not_nan v" if "keyable_value N v" for v using that by (cases v) simp_all
  then show "comparator_on {v. keyable_value N v} (\<lambda>a b. compareSqlValuesFast a b coll)"
    by (intro comparator_on.subset [OF compareSqlValuesFast_comparator [OF assms(2)]]) auto
  fix a b assume k: "a \<in> {v. keyable_value N v}" "b \<in> {v. keyable_value N v}"
  show "sep (value_key N a) (value_key N b)" if less: "compareSqlValuesFast a b coll < 0"
  proof (cases "getStorageClass a = getStorageClass b")
    case True
    then show ?thesis using less k value_key_same_class(1) [OF assms(1), of a b] by (simp add: compareSqlValuesFast_cases)
  next
    case False
    then have "class_tag (getStorageClass a) < class_tag (getStorageClass b)"
      using less k by (intro class_tag_less) (simp_all add: compareSqlValuesFast_cases keyable_class)
    moreover obtain r s where "value_key N a = class_tag (getStorageClass a) # r"
      "value_key N b = class_tag (getStorageClass b) # s"
      by (metis value_key_tag)
    ultimately show ?thesis by (simp add: sep_head)
  qed
  show "value_key N a = value_key N b" if "compareSqlValuesFast a b coll = 0"
    using that k value_key_same_class(2) [OF assms(1), of a b] by (auto simp: compareSqlValuesFast_cases)
qed

subsection \<open>Columns\<close>

text \<open>The value a column keys, its normalizer, and the comparator its key order realises.\<close>

definition column_value :: "(sql_value \<Rightarrow> sql_value) option list \<Rightarrow> nat \<Rightarrow> sql_value \<Rightarrow> sql_value" where
  "column_value transforms i v =
     (case slot transforms i None of Some t \<Rightarrow> if v \<noteq> SqlNull then t v else v | None \<Rightarrow> v)"

definition column_normalizer ::
  "case_maps \<Rightarrow> encode_options \<Rightarrow> js_string option list \<Rightarrow> nat \<Rightarrow> key_normalizer option" where
  "column_normalizer cm options collations i =
     (case opt_normalizers options of None \<Rightarrow> BUILTIN_KEY_NORMALIZER_RESOLVER cm | Some r \<Rightarrow> r)
       (Some (case slot collations i None of
          Some c \<Rightarrow> c | None \<Rightarrow> (case opt_collation options of None \<Rightarrow> lit ''NOCASE'' | Some c \<Rightarrow> c)))"

definition column_cmp ::
  "bool list \<Rightarrow> (sql_value \<Rightarrow> sql_value) option list \<Rightarrow> (nat \<Rightarrow> collation) \<Rightarrow> nat \<Rightarrow> sql_value comparator" where
  "column_cmp directions transforms colls i a b =
     (let c = compareSqlValuesFast (column_value transforms i a) (column_value transforms i b) (colls i)
      in if slot directions i False then - c else c)"

definition column_key ::
  "bool list \<Rightarrow> (sql_value \<Rightarrow> sql_value) option list \<Rightarrow> (nat \<Rightarrow> key_normalizer) \<Rightarrow> nat \<Rightarrow> sql_value \<Rightarrow> byte list" where
  "column_key directions transforms N i v =
     (let k = value_key (N i) (column_value transforms i v) in if slot directions i False then flip_all k else k)"

lemma byte_xor_antimono: "(a :: byte) < b \<Longrightarrow> b XOR 0xFF < a XOR 0xFF"
proof -
  assume "a < b"
  then have "unat a < unat b" by (simp add: word_less_nat_alt)
  then show ?thesis using unat_word_less(2) [of b] unfolding byte_xor_ff by (subst byte_of_nat_less) simp_all
qed

lemma encode_part_key:
  assumes "column_normalizer cm options collations i = Some (N i)" "keyable_value (N i) (column_value transforms i v)"
  shows "encode_part cm options directions collations transforms i v = Inr (column_key directions transforms N i v)"
proof -
  define c where "c = (case slot collations i None of
    Some c \<Rightarrow> c | None \<Rightarrow> (case opt_collation options of None \<Rightarrow> lit ''NOCASE'' | Some c \<Rightarrow> c))"
  define r where "r = (case opt_normalizers options of None \<Rightarrow> BUILTIN_KEY_NORMALIZER_RESOLVER cm | Some r \<Rightarrow> r)"
  have "r (Some c) = Some (N i)" using assms(1) by (simp add: column_normalizer_def c_def r_def)
  then have "encode_dispatch c r (column_value transforms i v) = Inr (value_key (N i) (column_value transforms i v))"
    using assms(2) by (intro encode_dispatch_key)
  then show ?thesis
    by (simp add: encode_part_def encodeValue_def column_key_def column_value_def [symmetric] c_def r_def Let_def
        split: option.splits)
qed

lemma column_key_encoder:
  assumes "order_normalizer (colls i) (N i)" "comparator_total (colls i)"
  shows "sep_encoder {v. keyable_value (N i) (column_value transforms i v)}
    (column_cmp directions transforms colls i) (column_key directions transforms N i)"
proof -
  let ?A = "{v. keyable_value (N i) (column_value transforms i v)}"
  let ?c = "\<lambda>a b. compareSqlValuesFast (column_value transforms i a) (column_value transforms i b) (colls i)"
  let ?k = "\<lambda>v. value_key (N i) (column_value transforms i v)"
  have base: "sep_encoder ?A ?c ?k"
    using sep_encoder_vimage [OF value_key_encoder [OF assms], of "column_value transforms i" ?A] by auto
  then have "sep_encoder ?A (\<lambda>a b. - ?c a b) (\<lambda>v. flip_all (?k v))"
    unfolding flip_all_def by (rule sep_encoder_antimono) (rule byte_xor_antimono)
  with base show ?thesis
    by (cases "slot directions i False")
      (simp_all add: column_cmp_def [abs_def] column_key_def [abs_def] Let_def)
qed

lemma encode_parts_order:
  assumes "\<And>i. i < n \<Longrightarrow> sep_encoder (A i) (c i) (e i)"
    and "\<And>i v. i < n \<Longrightarrow> v \<in> A i \<Longrightarrow> part i v = Inr (e i v)"
    and "length a = n" "length b = n" "\<And>i. i < n \<Longrightarrow> a ! i \<in> A i \<and> b ! i \<in> A i"
    and "k \<le> n"
  shows "\<exists>ka kb. encode_parts part k (drop k a) = Inr ka \<and> encode_parts part k (drop k b) = Inr kb \<and>
    sgn (lex_cmp ord_cmp ka kb) = sgn (compare_columns k (map c [k..<n]) a b)"
  using assms(6)
proof (induction k rule: inc_induct)
  case base
  then show ?case using assms(3,4) by simp
next
  case (step k)
  then obtain ka kb where rest: "encode_parts part (Suc k) (drop (Suc k) a) = Inr ka"
    "encode_parts part (Suc k) (drop (Suc k) b) = Inr kb"
    "sgn (lex_cmp ord_cmp ka kb) = sgn (compare_columns (Suc k) (map c [Suc k..<n]) a b)"
    by blast
  have drop: "drop k a = a ! k # drop (Suc k) a" "drop k b = b ! k # drop (Suc k) b"
    using step.hyps assms(3,4) by (simp_all add: Cons_nth_drop_Suc)
  have cols: "[k..<n] = k # [Suc k..<n]" using step.hyps by (simp add: upt_conv_Cons)
  have at: "row_at a k = a ! k" "row_at b k = b ! k" using step.hyps assms(3,4) by (simp_all add: row_at_def)
  have in_A: "a ! k \<in> A k" "b ! k \<in> A k" using assms(5) step.hyps by simp_all
  have "sgn (lex_cmp ord_cmp (e k (a ! k) @ ka) (e k (b ! k) @ kb)) =
    (if c k (a ! k) (b ! k) \<noteq> 0 then sgn (c k (a ! k) (b ! k)) else sgn (lex_cmp ord_cmp ka kb))"
    using sep_encoder.enc_append_sgn [OF assms(1) [OF step.hyps(2)] in_A] .
  then show ?case
    using rest assms(2) [OF step.hyps(2) in_A(1)] assms(2) [OF step.hyps(2) in_A(2)]
    by (simp add: drop cols at Let_def)
qed

section \<open>Properties\<close>

text \<open>
  C12. The bytes of composite keys compare as the rows do: column by column, each under its own
  collation and key transform, reversed where the column is DESC. It holds for every column
  whose normalizer realises its collation's order and for rows of keyable values: no NaN,
  bigints of up to 116 bits, and text whose normalized form is well formed.
\<close>

theorem encodeCompositeKey_order:
  assumes "length a = length b"
    and "\<And>i. i < length a \<Longrightarrow> column_normalizer cm options collations i = Some (N i) \<and>
      order_normalizer (colls i) (N i) \<and> comparator_total (colls i)"
    and "\<And>i. i < length a \<Longrightarrow> keyable_value (N i) (column_value transforms i (a ! i)) \<and>
      keyable_value (N i) (column_value transforms i (b ! i))"
  shows "\<exists>ka kb. encodeCompositeKey cm a options directions collations transforms = Inr ka \<and>
    encodeCompositeKey cm b options directions collations transforms = Inr kb \<and>
    sgn (compareBytes ka kb) = sgn (compare_columns 0 (map (column_cmp directions transforms colls) [0..<length a]) a b)"
proof -
  have "\<exists>ka kb. encode_parts (encode_part cm options directions collations transforms) 0 (drop 0 a) = Inr ka \<and>
      encode_parts (encode_part cm options directions collations transforms) 0 (drop 0 b) = Inr kb \<and>
      sgn (lex_cmp ord_cmp ka kb) = sgn (compare_columns 0 (map (column_cmp directions transforms colls) [0..<length a]) a b)"
    by (rule encode_parts_order [where A = "\<lambda>i. {v. keyable_value (N i) (column_value transforms i v)}"
          and e = "column_key directions transforms N"])
      (use assms in \<open>auto intro: column_key_encoder encode_part_key\<close>)
  then show ?thesis
    by (simp add: encodeCompositeKey_def flip: compareBytes_sgn)
qed

theorem encodeCompositeKey_order_witness:
  "\<exists>ka kb. encodeCompositeKey \<lparr>toUpperCase = id, toLowerCase = id\<rparr> [SqlText (lit ''k''), SqlBig 2]
      \<lparr>opt_collation = Some (lit ''BINARY''), opt_normalizers = None\<rparr> [False, True] [] [] = Inr ka \<and>
    encodeCompositeKey \<lparr>toUpperCase = id, toLowerCase = id\<rparr> [SqlText (lit ''k''), SqlNull]
      \<lparr>opt_collation = Some (lit ''BINARY''), opt_normalizers = None\<rparr> [False, True] [] [] = Inr kb \<and>
    sgn (compareBytes ka kb) = sgn (compare_columns 0
      (map (column_cmp [False, True] [] (\<lambda>_. BINARY_COLLATION)) [0..<length [SqlText (lit ''k''), SqlBig 2]])
      [SqlText (lit ''k''), SqlBig 2] [SqlText (lit ''k''), SqlNull])"
proof (rule encodeCompositeKey_order [where N = "\<lambda>_. IDENTITY_NORMALIZER"])
  fix i assume "i < length [SqlText (lit ''k''), SqlBig 2]"
  then have "i = 0 \<or> i = 1" by auto
  moreover have "well_formed (lit ''k'')" by (rule ascii_well_formed) (simp add: lit_def)
  ultimately show "keyable_value IDENTITY_NORMALIZER (column_value [] i ([SqlText (lit ''k''), SqlBig 2] ! i)) \<and>
      keyable_value IDENTITY_NORMALIZER (column_value [] i ([SqlText (lit ''k''), SqlNull] ! i))"
    by (auto simp: column_value_def slot_def IDENTITY_NORMALIZER_def)
qed (simp_all add: column_normalizer_def slot_def BUILTIN_KEY_NORMALIZER_RESOLVER_def builtin_order_normalizers builtin_comparators)

end
