(* ===== verification/Key_Serializer.thy ===== *)
theory Key_Serializer
  imports Key_Encoding Fd_Keys
begin

text \<open>
  The text keys of hash-based operations (quereus/src/util/key-serializer.ts): the tagged text of
  a value, the composite keys built from it, and the primary-key identity recipe shared by the
  isolation overlay and the sync engine.
\<close>

section \<open>Values\<close>

text \<open>\<open>BigInt(w).toString()\<close> of an integer-valued double is the text of the integer.\<close>

definition int_of_double :: "double \<Rightarrow> int" where
  "int_of_double w = (let n = int (mag_scaled (dmag w) div 2 ^ 1074) in if dneg w then - n else n)"

fun canonicalNumeric :: "sql_value \<Rightarrow> js_string" where
  "canonicalNumeric (SqlBool b) = (if b then lit ''1'' else lit ''0'')"
| "canonicalNumeric (SqlBig n) = int_text n"
| "canonicalNumeric (SqlNum w) = (if js_is_integer w then int_text (int_of_double w) else number_to_string w)"
| "canonicalNumeric _ = []"

fun appendValue :: "sql_value \<Rightarrow> key_normalizer \<Rightarrow> js_string option" where
  "appendValue SqlNull normalizer = None"
| "appendValue SqlUndefined normalizer = None"
| "appendValue (SqlText s) normalizer = Some (lit ''s:'' @ normalizer s)"
| "appendValue (SqlBlob b) normalizer = Some (lit ''x:'' @ join_indices (map unat b))"
| "appendValue (SqlObject ps) normalizer = Some (lit ''o:'' @ canonicalJsonString (JObj ps))"
| "appendValue (SqlArray xs) normalizer = Some (lit ''o:'' @ canonicalJsonString (JArr xs))"
| "appendValue v normalizer = Some (lit ''n:'' @ canonicalNumeric v)"

section \<open>Composite keys\<close>

text \<open>The loops carry the index \<open>i\<close> (a separator precedes every part but the first) and the key so far.\<close>

fun serialize_loop :: "nat \<Rightarrow> js_string \<Rightarrow> (sql_value \<times> key_normalizer) list \<Rightarrow> js_string option" where
  "serialize_loop i key [] = Some key"
| "serialize_loop i key ((v, N) # rest) = (case appendValue v N of
     None \<Rightarrow> None
   | Some part \<Rightarrow> serialize_loop (Suc i) ((if 0 < i then key @ [0] else key) @ part) rest)"

definition serializeKey :: "sql_value list \<Rightarrow> key_normalizer list \<Rightarrow> js_string option" where
  "serializeKey values normalizers = serialize_loop 0 [] (zip values normalizers)"

fun grouping_loop :: "nat \<Rightarrow> js_string \<Rightarrow> (sql_value \<times> key_normalizer) list \<Rightarrow> js_string" where
  "grouping_loop i key [] = key"
| "grouping_loop i key ((v, N) # rest) = grouping_loop (Suc i)
     ((if 0 < i then key @ [0] else key) @ (case appendValue v N of None \<Rightarrow> lit ''N:'' | Some part \<Rightarrow> part)) rest"

definition serializeKeyNullGrouping :: "sql_value list \<Rightarrow> key_normalizer list \<Rightarrow> js_string" where
  "serializeKeyNullGrouping values normalizers = grouping_loop 0 [] (zip values normalizers)"

definition serializeRowKey :: "row \<Rightarrow> nat list \<Rightarrow> key_normalizer list \<Rightarrow> js_string option" where
  "serializeRowKey r indices normalizers = serialize_loop 0 [] (zip (map (row_at r) indices) normalizers)"

section \<open>Primary-key identity\<close>

text \<open>
  A primary-key column as the recipe reads it. \<open>pkKeyCollationName\<close> (comparison-collation.ts) is
  a parameter, as is the database's normalizer resolver.
\<close>

record pk_column =
  pk_logicalType :: "logical_type option"
  pk_collation :: "js_string option"

record pk_identity_table =
  pk_columns :: "pk_column list"
  pk_definition :: "nat list option"

record pk_identity_keying =
  pk_normalizers :: "key_normalizer list"
  pk_transforms :: "(sql_value \<Rightarrow> sql_value) option list"

definition pk_column_at :: "pk_identity_table \<Rightarrow> nat \<Rightarrow> pk_column option" where
  "pk_column_at t i = (if i < length (pk_columns t) then Some (pk_columns t ! i) else None)"

definition resolvePkIdentityKeying ::
  "(logical_type \<Rightarrow> js_string option \<Rightarrow> js_string) \<Rightarrow> (js_string option \<Rightarrow> key_normalizer) \<Rightarrow> pk_identity_table \<Rightarrow> pk_identity_keying" where
  "resolvePkIdentityKeying collName resolveNormalizer t =
     (let pkDef = (case pk_definition t of None \<Rightarrow> [] | Some d \<Rightarrow> d);
          type_at = (\<lambda>i. case pk_column_at t i of None \<Rightarrow> None | Some c \<Rightarrow> pk_logicalType c)
      in \<lparr>pk_normalizers = map (\<lambda>i. resolveNormalizer (case type_at i of
             None \<Rightarrow> None | Some lt \<Rightarrow> Some (collName lt (case pk_column_at t i of None \<Rightarrow> None | Some c \<Rightarrow> pk_collation c)))) pkDef,
          pk_transforms = map (\<lambda>i. semanticKeyTransform (type_at i)) pkDef\<rparr>)"

definition slot_at :: "'a list \<Rightarrow> nat \<Rightarrow> 'a option" where
  "slot_at xs i = (if i < length xs then Some (xs ! i) else None)"

definition makePkIdentitySerializer ::
  "(logical_type \<Rightarrow> js_string option \<Rightarrow> js_string) \<Rightarrow> (js_string option \<Rightarrow> key_normalizer) \<Rightarrow> pk_identity_table \<Rightarrow>
   sql_value list \<Rightarrow> js_string" where
  "makePkIdentitySerializer collName resolveNormalizer t pk =
     (let keying = resolvePkIdentityKeying collName resolveNormalizer t in
      serializeKeyNullGrouping
        (map (\<lambda>(i, v). case slot_at (pk_transforms keying) i of
             Some (Some transform) \<Rightarrow> if v \<noteq> SqlNull then transform v else v
           | _ \<Rightarrow> v) (enumerate 0 pk))
        (pk_normalizers keying))"

section \<open>One value: equal keys are equal values\<close>

text \<open>
  The numbers whose text is exact by construction: bigints, booleans and integer-valued doubles.
\<close>

fun exact_key_value :: "sql_value \<Rightarrow> bool" where
  "exact_key_value (SqlNum w) = js_is_integer w"
| "exact_key_value SqlUndefined = False"
| "exact_key_value _ = True"

fun exact_int :: "sql_value \<Rightarrow> int" where
  "exact_int (SqlBool b) = (if b then 1 else 0)"
| "exact_int (SqlBig n) = n"
| "exact_int (SqlNum w) = int_of_double w"
| "exact_int _ = 0"

lemma int_text_inj: "int_text a = int_text b \<longleftrightarrow> a = b"
  by (metis bigint_of_text_int_text option.inject)

lemma int_text_bits: "lit ''1'' = int_text 1" "lit ''0'' = int_text 0"
  by code_simp+

lemma canonicalNumeric_exact:
  "exact_key_value v \<Longrightarrow> getStorageClass v = CNumeric \<Longrightarrow> canonicalNumeric v = int_text (exact_int v)"
  by (cases v) (auto simp: int_text_bits)

lemma num_value_exact:
  assumes "exact_key_value v" "getStorageClass v = CNumeric"
  shows "num_value (numeric_operand v) = Some (Fin (exact_int v * 2 ^ 1074))"
proof (cases v)
  case (SqlNum w)
  define P :: nat where "P = 2 ^ 1074"
  have int: "\<not> is_nan w" "\<not> is_inf w" "mag_scaled (dmag w) mod P = 0"
    using assms SqlNum by (simp_all add: js_is_integer_def P_def)
  then have "mag_scaled (dmag w) = mag_scaled (dmag w) div P * P" by (simp add: mod_0_imp_dvd)
  then have "int (mag_scaled (dmag w)) = int (mag_scaled (dmag w) div P) * int P" by (metis of_nat_mult)
  moreover have "int P = 2 ^ 1074" by (simp add: P_def)
  ultimately have "int (mag_scaled (dmag w)) = int (mag_scaled (dmag w) div 2 ^ 1074) * 2 ^ 1074"
    by (simp only: P_def)
  then show ?thesis using int(1,2) unfolding SqlNum numeric_operand.simps num_value.simps exact_int.simps int_of_double_def Let_def
    by (cases "dneg w") (simp_all only: if_False if_True simp_thms minus_mult_left)
next
  case (SqlBool b)
  then show ?thesis by (simp add: is_nan_def is_inf_def mag_inf_def dmag_def dneg_def mag_scaled_def)
qed (use assms in auto)

lemma power_factor_inj: "(a :: int) * 2 ^ n = b * 2 ^ n \<longleftrightarrow> a = b"
  by simp

lemma tags [simp]:
  "lit ''s:'' @ u \<noteq> lit ''x:'' @ v" "lit ''s:'' @ u \<noteq> lit ''o:'' @ v" "lit ''s:'' @ u \<noteq> lit ''n:'' @ v"
  "lit ''x:'' @ u \<noteq> lit ''s:'' @ v" "lit ''x:'' @ u \<noteq> lit ''o:'' @ v" "lit ''x:'' @ u \<noteq> lit ''n:'' @ v"
  "lit ''o:'' @ u \<noteq> lit ''s:'' @ v" "lit ''o:'' @ u \<noteq> lit ''x:'' @ v" "lit ''o:'' @ u \<noteq> lit ''n:'' @ v"
  "lit ''n:'' @ u \<noteq> lit ''s:'' @ v" "lit ''n:'' @ u \<noteq> lit ''x:'' @ v" "lit ''n:'' @ u \<noteq> lit ''o:'' @ v"
  by (simp_all add: lit_def)

text \<open>The tag of a value's key names its storage class.\<close>

fun class_payload :: "sql_value \<Rightarrow> key_normalizer \<Rightarrow> js_string" where
  "class_payload (SqlText s) N = N s"
| "class_payload (SqlBlob b) N = join_indices (map unat b)"
| "class_payload v N = (if getStorageClass v = CObject then objectCanonicalString v else canonicalNumeric v)"

fun class_prefix :: "storage_class \<Rightarrow> js_string" where
  "class_prefix CText = lit ''s:''"
| "class_prefix CBlob = lit ''x:''"
| "class_prefix CObject = lit ''o:''"
| "class_prefix _ = lit ''n:''"

lemma appendValue_parts:
  "v \<noteq> SqlNull \<Longrightarrow> v \<noteq> SqlUndefined \<Longrightarrow> appendValue v N = Some (class_prefix (getStorageClass v) @ class_payload v N)"
  by (cases v) simp_all

lemma storage_class_cases:
  "v \<noteq> SqlNull \<Longrightarrow> v \<noteq> SqlUndefined \<Longrightarrow> getStorageClass v \<in> {CNumeric, CText, CBlob, CObject}"
  by (cases v) simp_all

lemma appendValue_eq_iff:
  assumes "a \<noteq> SqlNull" "a \<noteq> SqlUndefined" "b \<noteq> SqlNull" "b \<noteq> SqlUndefined"
  shows "appendValue a N = appendValue b N \<longleftrightarrow>
    getStorageClass a = getStorageClass b \<and> class_payload a N = class_payload b N"
  using storage_class_cases [OF assms(1,2)] storage_class_cases [OF assms(3,4)]
  by (auto simp: appendValue_parts assms)

lemma map_unat_inj: "map unat (xs :: byte list) = map unat ys \<longleftrightarrow> xs = ys"
  by (rule inj_map_eq_map) (simp add: inj_def unat_inj)

lemma join_indices_eq_iff [simp]: "join_indices xs = join_indices ys \<longleftrightarrow> xs = ys"
  using join_indices_inj by blast

lemma appendValue_compare:
  assumes norm: "order_normalizer coll N" and ok: "exact_key_value a" "exact_key_value b" "a \<noteq> SqlNull" "b \<noteq> SqlNull"
  shows "appendValue a N = appendValue b N \<longleftrightarrow> compareSqlValuesFast a b coll = 0"
proof -
  have def: "a \<noteq> SqlUndefined" "b \<noteq> SqlUndefined" using ok by auto
  note cases = storage_class_cases [OF ok(3) def(1)]
  have nn: "getStorageClass a \<noteq> CNull" "getStorageClass b \<noteq> CNull" using ok def by auto
  show ?thesis
  proof (cases "getStorageClass a = getStorageClass b")
    case True
    consider "getStorageClass a = CNumeric" | "getStorageClass a = CText" | "getStorageClass a = CBlob" | "getStorageClass a = CObject"
      using cases by auto
    then show ?thesis
    proof cases
      case 1
      have pay: "class_payload v N = int_text (exact_int v)" if "exact_key_value v" "getStorageClass v = CNumeric" for v
        using that canonicalNumeric_exact [OF that] by (cases v) simp_all
      have num: "num_value (numeric_operand a) = Some (Fin (exact_int a * 2 ^ 1074))"
        "num_value (numeric_operand b) = Some (Fin (exact_int b * 2 ^ 1074))"
        using num_value_exact ok(1,2) 1 True by (simp_all del: exact_int.simps)
      have "compareSqlValuesFast a b coll = 0 \<longleftrightarrow> exact_int a * 2 ^ 1074 = exact_int b * 2 ^ 1074"
        using compareNumbers_ord [OF num] 1 True nn
        by (simp only: compareSqlValuesFast_def Let_def if_False simp_thms compareSameType.simps if_True cmp_simps num_val.inject)
      then show ?thesis
        using pay ok(1,2) 1 True unfolding power_factor_inj appendValue_eq_iff [OF ok(3) def(1) ok(4) def(2)]
        by (simp add: int_text_inj)
    next
      case 2
      then obtain s t where st: "a = SqlText s" "b = SqlText t" using True by (cases a; cases b) auto
      have "coll s t = 0 \<longleftrightarrow> N s = N t"
        using norm code_points.cmp_eq_iff [of "N s" "N t"] sgn_eq_iff(1) [of "coll s t" "compareCodePoints (N s) (N t)"]
        by (simp add: order_normalizer_def)
      then show ?thesis by (simp add: st compareSqlValuesFast_def Let_def)
    next
      case 3
      then obtain s t where st: "a = SqlBlob s" "b = SqlBlob t" using True by (cases a; cases b) auto
      show ?thesis by (simp add: st compareSqlValuesFast_def Let_def compare_blobs_lex lex_ord_cmp_eq_iff map_unat_inj)
    next
      case 4
      have pay: "class_payload v N = objectCanonicalString v" if "getStorageClass v = CObject" for v
        using that by (cases v) simp_all
      then show ?thesis using 4 True unfolding appendValue_eq_iff [OF ok(3) def(1) ok(4) def(2)]
        by (simp add: compareSqlValuesFast_def Let_def code_points.cmp_eq_iff)
    qed
  next
    case False
    then show ?thesis using nn unfolding appendValue_eq_iff [OF ok(3) def(1) ok(4) def(2)]
      by (simp add: compareSqlValuesFast_def Let_def)
  qed
qed

section \<open>Composite keys: equal texts are equal lists\<close>

fun join_nul :: "js_string list \<Rightarrow> js_string" where
  "join_nul [] = []"
| "join_nul [p] = p"
| "join_nul (p # q # r) = p @ 0 # join_nul (q # r)"

lemma join_nul_Cons: "join_nul (p # ps) = p @ (if ps = [] then [] else 0 # join_nul ps)"
  by (cases ps) simp_all

lemma join_nul_inj:
  "length ps = length qs \<Longrightarrow> (\<forall>p \<in> set ps. 0 \<notin> set p) \<Longrightarrow> (\<forall>p \<in> set qs. 0 \<notin> set p) \<Longrightarrow>
   join_nul ps = join_nul qs \<longleftrightarrow> ps = qs"
proof (induction ps qs rule: list_induct2)
  case (Cons p ps q qs)
  show ?case
  proof (cases "ps = []")
    case True
    then show ?thesis using Cons by (simp add: join_nul_Cons)
  next
    case False
    then have "qs \<noteq> []" using Cons.hyps by auto
    then show ?thesis using False Cons append_sep_eq [of 0 p q "join_nul ps" "join_nul qs"] by (auto simp: join_nul_Cons)
  qed
qed simp

lemma serialize_loop_parts:
  "serialize_loop i key kvs = map_option (\<lambda>parts. key @ (if 0 < i \<and> parts \<noteq> [] then 0 # join_nul parts else join_nul parts))
     (map_all (\<lambda>(v, N). appendValue v N) kvs)"
proof (induction i key kvs rule: serialize_loop.induct)
  case (2 i key v N rest)
  show ?case
  proof (cases "appendValue v N")
    case (Some part)
    then show ?thesis using 2 [OF Some]
      by (cases "map_all (\<lambda>(v, N). appendValue v N) rest") (auto simp: join_nul_Cons)
  qed simp
qed simp

lemma serializeKey_parts:
  "serializeKey vs Ns = map_option join_nul (map_all (\<lambda>(v, N). appendValue v N) (zip vs Ns))"
  by (cases "map_all (\<lambda>(v, N). appendValue v N) (zip vs Ns)") (simp_all add: serializeKey_def serialize_loop_parts)

lemma serializeRowKey_values: "serializeRowKey r indices Ns = serializeKey (map (row_at r) indices) Ns"
  by (simp add: serializeRowKey_def serializeKey_def)

lemma map_all_Some: "map_all f xs = Some ys \<longleftrightarrow> list_all2 (\<lambda>x y. f x = Some y) xs ys"
proof (induction xs arbitrary: ys)
  case (Cons x xs)
  have "map_all f (x # xs) = Some (y # zs) \<longleftrightarrow> f x = Some y \<and> map_all f xs = Some zs" for y zs
    by (auto split: option.splits)
  moreover have "map_all f (x # xs) \<noteq> Some []" by (auto split: option.splits)
  ultimately show ?case using Cons.IH by (cases ys) simp_all
qed auto

lemma map_all_None: "map_all f xs = None \<longleftrightarrow> (\<exists>x \<in> set xs. f x = None)"
  by (induction xs) (auto split: option.splits)

text \<open>
  A list of key values without NULL, NUL characters or inexact numbers: its key text determines
  the list up to the comparison of each column.
\<close>

definition keyable_part :: "sql_value \<Rightarrow> key_normalizer \<Rightarrow> bool" where
  "keyable_part v N \<longleftrightarrow> exact_key_value v \<and> (case appendValue v N of None \<Rightarrow> True | Some p \<Rightarrow> 0 \<notin> set p)"

lemma serializeKey_None:
  "serializeKey vs Ns = None \<longleftrightarrow> (\<exists>(v, N) \<in> set (zip vs Ns). appendValue v N = None)"
  by (force simp: serializeKey_parts map_all_None)

lemma serializeKey_eq_iff:
  assumes len: "length vs = length Ns" "length ws = length Ns" "length colls = length Ns"
    and norm: "\<forall>i < length Ns. order_normalizer (colls ! i) (Ns ! i)"
    and ok: "\<forall>i < length Ns. keyable_part (vs ! i) (Ns ! i) \<and> keyable_part (ws ! i) (Ns ! i)"
    and nn: "\<forall>i < length Ns. vs ! i \<noteq> SqlNull \<and> ws ! i \<noteq> SqlNull"
  shows "\<exists>k. serializeKey vs Ns = Some k" "\<exists>k. serializeKey ws Ns = Some k"
    "serializeKey vs Ns = serializeKey ws Ns \<longleftrightarrow> (\<forall>i < length Ns. compareSqlValuesFast (vs ! i) (ws ! i) (colls ! i) = 0)"
proof -
  have def: "exact_key_value v \<Longrightarrow> v \<noteq> SqlNull \<Longrightarrow> appendValue v N \<noteq> None" for v N by (cases v) auto
  have some: "map_all (\<lambda>(v, N). appendValue v N) (zip us Ns) \<noteq> None"
    if "length us = length Ns" "\<forall>i < length Ns. keyable_part (us ! i) (Ns ! i) \<and> us ! i \<noteq> SqlNull" for us
    using that def by (auto simp: map_all_None set_zip keyable_part_def)
  obtain ps where ps: "map_all (\<lambda>(v, N). appendValue v N) (zip vs Ns) = Some ps" using some [of vs] len ok nn by auto
  obtain qs where qs: "map_all (\<lambda>(v, N). appendValue v N) (zip ws Ns) = Some qs" using some [of ws] len ok nn by auto
  show "\<exists>k. serializeKey vs Ns = Some k" "\<exists>k. serializeKey ws Ns = Some k" using ps qs by (simp_all add: serializeKey_parts)
  have P: "length ps = length Ns" "\<forall>i < length Ns. appendValue (vs ! i) (Ns ! i) = Some (ps ! i)"
    using ps len by (auto simp: map_all_Some list_all2_conv_all_nth)
  have Q: "length qs = length Ns" "\<forall>i < length Ns. appendValue (ws ! i) (Ns ! i) = Some (qs ! i)"
    using qs len by (auto simp: map_all_Some list_all2_conv_all_nth)
  have clean: "\<forall>p \<in> set ps. 0 \<notin> set p" "\<forall>q \<in> set qs. 0 \<notin> set q"
    using P Q ok by (auto simp: in_set_conv_nth [of _ ps] in_set_conv_nth [of _ qs] keyable_part_def)
  have "serializeKey vs Ns = serializeKey ws Ns \<longleftrightarrow> ps = qs"
    using join_nul_inj [OF _ clean] P(1) Q(1) by (simp add: serializeKey_parts ps qs)
  also have "\<dots> \<longleftrightarrow> (\<forall>i < length Ns. ps ! i = qs ! i)" using P(1) Q(1) by (auto simp: list_eq_iff_nth_eq)
  also have "\<dots> \<longleftrightarrow> (\<forall>i < length Ns. appendValue (vs ! i) (Ns ! i) = appendValue (ws ! i) (Ns ! i))"
    using P(2) Q(2) by auto
  also have "\<dots> \<longleftrightarrow> (\<forall>i < length Ns. compareSqlValuesFast (vs ! i) (ws ! i) (colls ! i) = 0)"
  proof -
    have "appendValue (vs ! i) (Ns ! i) = appendValue (ws ! i) (Ns ! i) \<longleftrightarrow>
        compareSqlValuesFast (vs ! i) (ws ! i) (colls ! i) = 0" if "i < length Ns" for i
      by (rule appendValue_compare) (use that norm ok nn in \<open>auto simp: keyable_part_def\<close>)
    then show ?thesis by auto
  qed
  finally show "serializeKey vs Ns = serializeKey ws Ns \<longleftrightarrow> (\<forall>i < length Ns. compareSqlValuesFast (vs ! i) (ws ! i) (colls ! i) = 0)" .
qed

text \<open>
  The separator is not escaped: texts that contain NUL and a tag make two different composite
  keys equal.
\<close>

lemma serializeKey_collision:
  "\<exists>a b. a = [SqlText (lit ''a'' @ 0 # lit ''s:b''), SqlText (lit ''c'')] \<and>
     b = [SqlText (lit ''a''), SqlText (lit ''b'' @ 0 # lit ''s:c'')] \<and>
     serializeKey a [IDENTITY_NORMALIZER, IDENTITY_NORMALIZER] = serializeKey b [IDENTITY_NORMALIZER, IDENTITY_NORMALIZER] \<and>
     compareSqlValues (a ! 0) (b ! 0) \<noteq> 0"
  by (intro exI conjI, rule refl, rule refl)
    (simp_all add: serializeKey_def IDENTITY_NORMALIZER_def compareSqlValues_def compareSqlValuesFast_def Let_def
      BINARY_COLLATION_def code_points.cmp_eq_iff lit_def)

end
