(* ===== verification/Join_Exec.thy ===== *)
theory Join_Exec
  imports Key_Serializer "HOL-Library.AList"
begin

text \<open>
  Join execution (quereus/src/runtime/emit): the nested loop join, the hash (bloom) join and the
  merge join. A source is the list of rows it yields, a compiled condition the function it
  computes on the two current rows, and an emitter's output the list of rows it yields. The row
  slots, which only publish the current rows to the condition, and the logging are not modelled.
\<close>

section \<open>Conditions\<close>

datatype join_type = Inner | LeftJoin | RightJoin | FullJoin | Cross | Semi | Anti

datatype join_side = LeftSide | RightSide

type_synonym condition = "row \<Rightarrow> row \<Rightarrow> sql_value"

text \<open>JavaScript truthiness (\<open>!!v\<close>) of a value.\<close>

fun js_truthy :: "sql_value \<Rightarrow> bool" where
  "js_truthy SqlNull = False"
| "js_truthy SqlUndefined = False"
| "js_truthy (SqlBool b) = b"
| "js_truthy (SqlNum w) = (\<not> is_nan w \<and> dmag w \<noteq> 0)"
| "js_truthy (SqlBig n) = (n \<noteq> 0)"
| "js_truthy (SqlText s) = (s \<noteq> [])"
| "js_truthy _ = True"

text \<open>
  SQL truthiness, the test of filters, CASE and logical operators. \<open>Number\<close> of a text is a
  parameter.
\<close>

fun isTruthy :: "(js_string \<Rightarrow> double) \<Rightarrow> sql_value \<Rightarrow> bool" where
  "isTruthy number SqlNull = False"
| "isTruthy number (SqlBool b) = b"
| "isTruthy number (SqlNum w) = (is_nan w \<or> dmag w \<noteq> 0)"
| "isTruthy number (SqlBig n) = (n \<noteq> 0)"
| "isTruthy number (SqlText s) = (let trimmed = js_trim s in
     if trimmed = [] then False else let n = number trimmed in \<not> is_nan n \<and> dmag n \<noteq> 0)"
| "isTruthy number _ = False"

definition conditionMet :: "condition option \<Rightarrow> row \<Rightarrow> row \<Rightarrow> bool" where
  "conditionMet cond l r = (case cond of None \<Rightarrow> True | Some f \<Rightarrow> js_truthy (f l r))"

section \<open>Nested loop join\<close>

definition matchedFlags :: "join_side list option \<Rightarrow> row" where
  "matchedFlags existence = (case existence of None \<Rightarrow> [] | Some specs \<Rightarrow> map (\<lambda>_. SqlBool True) specs)"

definition flagsForDroppedSide :: "join_side list option \<Rightarrow> join_side \<Rightarrow> row" where
  "flagsForDroppedSide existence dropped =
     (case existence of None \<Rightarrow> [] | Some specs \<Rightarrow> map (\<lambda>s. SqlBool (s \<noteq> dropped)) specs)"

definition joinOutputRow :: "join_type \<Rightarrow> bool \<Rightarrow> bool \<Rightarrow> row \<Rightarrow> nat \<Rightarrow> row option" where
  "joinOutputRow joinType matched isSemiOrAnti leftRow rightColCount =
     (if isSemiOrAnti
      then (if joinType = Semi \<and> matched \<or> joinType = Anti \<and> \<not> matched then Some leftRow else None)
      else if \<not> matched \<and> joinType = LeftJoin then Some (leftRow @ replicate rightColCount SqlNull)
      else None)"

definition isSemiOrAnti :: "join_type \<Rightarrow> bool" where
  "isSemiOrAnti joinType \<longleftrightarrow> joinType = Semi \<or> joinType = Anti"

text \<open>The scan of the right side for one left row: what it yields and whether it matched.\<close>

fun scan_right :: "(row \<Rightarrow> bool) \<Rightarrow> bool \<Rightarrow> row \<Rightarrow> row \<Rightarrow> row list \<Rightarrow> row list \<times> bool" where
  "scan_right met semi leftRow flags [] = ([], False)"
| "scan_right met semi leftRow flags (rightRow # rest) =
     (if met rightRow
      then (if semi then ([], True)
            else ((leftRow @ rightRow @ flags) # fst (scan_right met semi leftRow flags rest), True))
      else scan_right met semi leftRow flags rest)"

definition driveFromLeft ::
  "join_type \<Rightarrow> join_side list option \<Rightarrow> condition option \<Rightarrow> nat \<Rightarrow> row list \<Rightarrow> row list \<Rightarrow> row list" where
  "driveFromLeft joinType existence cond rightColCount leftRows rightRows = concat (map (\<lambda>leftRow.
     let semi = isSemiOrAnti joinType;
         scanned = scan_right (conditionMet cond leftRow) semi leftRow (matchedFlags existence) rightRows
     in fst scanned @
        (case joinOutputRow joinType (snd scanned) semi leftRow rightColCount of
           None \<Rightarrow> [] | Some post \<Rightarrow> [post @ flagsForDroppedSide existence RightSide])) leftRows)"

text \<open>One right row against the buffered left rows; \<open>leftMatched\<close> is tracked for FULL only.\<close>

definition right_step :: "join_type \<Rightarrow> join_side list option \<Rightarrow> condition option \<Rightarrow> nat \<Rightarrow> row list \<Rightarrow> row \<Rightarrow>
    row list \<times> bool list \<Rightarrow> row list \<times> bool list" where
  "right_step joinType existence cond leftColCount leftRows rightRow st =
     (let met = map (\<lambda>l. conditionMet cond l rightRow) leftRows;
          out = concat (map (\<lambda>l. if conditionMet cond l rightRow then [l @ rightRow @ matchedFlags existence] else []) leftRows);
          padded = (if list_ex id met then []
                    else [replicate leftColCount SqlNull @ rightRow @ flagsForDroppedSide existence LeftSide])
      in (fst st @ out @ padded, map2 (\<or>) (snd st) met))"

definition driveFromRight ::
  "join_type \<Rightarrow> join_side list option \<Rightarrow> condition option \<Rightarrow> nat \<Rightarrow> nat \<Rightarrow> row list \<Rightarrow> row list \<Rightarrow> row list" where
  "driveFromRight joinType existence cond leftColCount rightColCount leftRows rightRows =
     (let st = fold (right_step joinType existence cond leftColCount leftRows) rightRows ([], map (\<lambda>_. False) leftRows)
      in fst st @ (if joinType = FullJoin
           then concat (map2 (\<lambda>l matched. if matched then []
                  else [l @ replicate rightColCount SqlNull @ flagsForDroppedSide existence RightSide]) leftRows (snd st))
           else []))"

definition loop_join ::
  "join_type \<Rightarrow> join_side list option \<Rightarrow> condition option \<Rightarrow> nat \<Rightarrow> nat \<Rightarrow> row list \<Rightarrow> row list \<Rightarrow> row list" where
  "loop_join joinType existence cond leftColCount rightColCount leftRows rightRows =
     (if joinType = RightJoin \<or> joinType = FullJoin
      then driveFromRight joinType existence cond leftColCount rightColCount leftRows rightRows
      else driveFromLeft joinType existence cond rightColCount leftRows rightRows)"

section \<open>Hash join\<close>

text \<open>
  The key extractor for resolved normalizers and per-pair semantic canonicalizers
  (\<open>buildJoinKeyExtractor\<close>); \<open>effectiveCollationOfTypes\<close> and the resolver behind the
  normalizers are parameters.
\<close>

definition extractKey :: "key_normalizer list \<Rightarrow> (sql_value \<Rightarrow> sql_value) option list \<Rightarrow> row \<Rightarrow> nat list \<Rightarrow> js_string option" where
  "extractKey keyNormalizers keyCanonicalizers r indices =
     (if \<not> list_ex (\<lambda>c. c \<noteq> None) keyCanonicalizers then serializeRowKey r indices keyNormalizers
      else serializeKey (map2 (\<lambda>idx c. case c of None \<Rightarrow> row_at r idx | Some f \<Rightarrow> f (row_at r idx)) indices keyCanonicalizers)
             keyNormalizers)"

text \<open>Canonicalizers of the pairs: active only when both sides declare the same logical type.\<close>

definition key_canonicalizers :: "(logical_type option \<times> logical_type option) list \<Rightarrow> (sql_value \<Rightarrow> sql_value) option list" where
  "key_canonicalizers pairTypes = map (\<lambda>(l, r). if map_option type_id l = map_option type_id r
     then semanticKeyTransform l else None) pairTypes"

type_synonym hash_map = "(js_string \<times> row list) list"

definition build_row :: "(row \<Rightarrow> js_string option) \<Rightarrow> row \<Rightarrow> hash_map \<Rightarrow> hash_map" where
  "build_row key rightRow m = (case key rightRow of
     None \<Rightarrow> m
   | Some k \<Rightarrow> (case map_of m k of
        Some bucket \<Rightarrow> AList.update k (bucket @ [rightRow]) m
      | None \<Rightarrow> AList.update k [rightRow] m))"

definition residual_met :: "condition option \<Rightarrow> row \<Rightarrow> row \<Rightarrow> bool" where
  "residual_met residual l r = (case residual of None \<Rightarrow> True | Some f \<Rightarrow> js_truthy (f l r))"

definition hash_join ::
  "join_type \<Rightarrow> (row \<Rightarrow> js_string option) \<Rightarrow> (row \<Rightarrow> js_string option) \<Rightarrow> condition option \<Rightarrow> nat \<Rightarrow> row list \<Rightarrow> row list \<Rightarrow> row list" where
  "hash_join joinType leftKey rightKey residual rightColCount leftRows rightRows =
     (let hashMap = fold (build_row rightKey) rightRows [];
          semi = isSemiOrAnti joinType
      in concat (map (\<lambda>leftRow.
           let bucket = (case leftKey leftRow of None \<Rightarrow> [] | Some k \<Rightarrow>
                 (case map_of hashMap k of None \<Rightarrow> [] | Some rows \<Rightarrow> rows));
               scanned = scan_right (residual_met residual leftRow) semi leftRow [] bucket
           in fst scanned @
              (case joinOutputRow joinType (snd scanned) semi leftRow rightColCount of None \<Rightarrow> [] | Some post \<Rightarrow> [post])) leftRows))"

section \<open>Merge join\<close>









section \<open>The scan of one left row\<close>

lemma scan_right_eq:
  "scan_right met semi l flags rs = (if semi then [] else map (\<lambda>r. l @ r @ flags) (filter met rs), list_ex met rs)"
  by (induction rs) auto

text \<open>What every left-driven join emits for a left row, given the right rows that match it.\<close>

definition emit_left :: "join_type \<Rightarrow> nat \<Rightarrow> row \<Rightarrow> row list \<Rightarrow> row list" where
  "emit_left jt n l matches = (if isSemiOrAnti jt then [] else map (\<lambda>r. l @ r) matches) @
     (case joinOutputRow jt (matches \<noteq> []) (isSemiOrAnti jt) l n of None \<Rightarrow> [] | Some post \<Rightarrow> [post])"

lemma list_ex_filter: "list_ex P xs \<longleftrightarrow> filter P xs \<noteq> []"
  by (induction xs) auto

lemma loop_join_emit:
  assumes "jt \<noteq> RightJoin" "jt \<noteq> FullJoin"
  shows "loop_join jt None cond lc n L R = concat (map (\<lambda>l. emit_left jt n l (filter (conditionMet cond l) R)) L)"
  using assms by (simp add: loop_join_def driveFromLeft_def scan_right_eq emit_left_def matchedFlags_def
      flagsForDroppedSide_def list_ex_filter Let_def cong: if_cong option.case_cong)

section \<open>Hash join\<close>

lemma build_buckets:
  "map_of (fold (build_row key) rs m) k =
     (case filter (\<lambda>r. key r = Some k) rs of [] \<Rightarrow> map_of m k
      | matches \<Rightarrow> Some ((case map_of m k of None \<Rightarrow> [] | Some b \<Rightarrow> b) @ matches))"
proof (induction rs arbitrary: m)
  case (Cons r rs)
  have "map_of (build_row key r m) k = (if key r = Some k
      then Some ((case map_of m k of None \<Rightarrow> [] | Some b \<Rightarrow> b) @ [r]) else map_of m k)"
    by (auto simp: build_row_def update_conv' split: option.splits)
  then show ?case using Cons.IH [of "build_row key r m"] by (auto split: list.splits option.splits)
qed simp

lemma hash_join_emit:
  "hash_join jt leftKey rightKey residual n L R = concat (map (\<lambda>l. emit_left jt n l
     (filter (\<lambda>r. leftKey l \<noteq> None \<and> rightKey r = leftKey l \<and> residual_met residual l r) R)) L)"
proof -
  have bucket: "filter (residual_met residual l) (case leftKey l of None \<Rightarrow> [] | Some k \<Rightarrow>
      (case map_of (fold (build_row rightKey) R []) k of None \<Rightarrow> [] | Some rows \<Rightarrow> rows)) =
      filter (\<lambda>r. leftKey l \<noteq> None \<and> rightKey r = leftKey l \<and> residual_met residual l r) R" for l
  proof (cases "leftKey l")
    case (Some k)
    have "(case map_of (fold (build_row rightKey) R []) k of None \<Rightarrow> [] | Some rows \<Rightarrow> rows) = filter (\<lambda>r. rightKey r = Some k) R"
      by (simp add: build_buckets split: list.splits)
    then show ?thesis using Some by (simp add: conj_commute)
  qed simp
  show ?thesis unfolding hash_join_def Let_def scan_right_eq emit_left_def list_ex_filter bucket by (simp cong: if_cong)
qed

text \<open>The match a hash key stands for: no NULL, and every pair equal under its collation.\<close>

definition equi_match :: "nat list \<Rightarrow> nat list \<Rightarrow> collation list \<Rightarrow> row \<Rightarrow> row \<Rightarrow> bool" where
  "equi_match leftIndices rightIndices colls l r \<longleftrightarrow> (\<forall>i < length colls.
     row_at l (leftIndices ! i) \<noteq> SqlNull \<and> row_at r (rightIndices ! i) \<noteq> SqlNull \<and>
     compareSqlValuesFast (row_at l (leftIndices ! i)) (row_at r (rightIndices ! i)) (colls ! i) = 0)"

definition equi_condition :: "nat list \<Rightarrow> nat list \<Rightarrow> collation list \<Rightarrow> condition option \<Rightarrow> condition" where
  "equi_condition leftIndices rightIndices colls residual l r =
     SqlBool (equi_match leftIndices rightIndices colls l r \<and> residual_met residual l r)"

definition keyable_rows :: "row list \<Rightarrow> nat list \<Rightarrow> key_normalizer list \<Rightarrow> bool" where
  "keyable_rows R indices Ns \<longleftrightarrow> (\<forall>r \<in> set R. \<forall>i < length Ns. keyable_part (row_at r (indices ! i)) (Ns ! i))"

lemma extractKey_plain: "extractKey Ns (replicate n None) r indices = serializeKey (map (row_at r) indices) Ns"
  by (simp add: extractKey_def list_ex_iff serializeRowKey_values)

lemma extractKey_None:
  assumes "length indices = length Ns" "\<forall>i < length Ns. keyable_part (row_at r (indices ! i)) (Ns ! i)"
  shows "serializeKey (map (row_at r) indices) Ns = None \<longleftrightarrow> (\<exists>i < length Ns. row_at r (indices ! i) = SqlNull)"
proof -
  have "appendValue v N = None \<longleftrightarrow> v = SqlNull" if "keyable_part v N" for v N
    using that by (cases v) (auto simp: keyable_part_def)
  then show ?thesis using assms by (auto simp: serializeKey_None set_zip) (metis nth_map)+
qed

lemma key_match:
  assumes len: "length leftIndices = length Ns" "length rightIndices = length Ns" "length colls = length Ns"
    and norm: "\<forall>i < length Ns. order_normalizer (colls ! i) (Ns ! i)"
    and ok: "\<forall>i < length Ns. keyable_part (row_at l (leftIndices ! i)) (Ns ! i)"
      "\<forall>i < length Ns. keyable_part (row_at r (rightIndices ! i)) (Ns ! i)"
  shows "(serializeKey (map (row_at l) leftIndices) Ns \<noteq> None \<and>
      serializeKey (map (row_at r) rightIndices) Ns = serializeKey (map (row_at l) leftIndices) Ns) \<longleftrightarrow>
    equi_match leftIndices rightIndices colls l r"
proof (cases "\<forall>i < length Ns. row_at l (leftIndices ! i) \<noteq> SqlNull \<and> row_at r (rightIndices ! i) \<noteq> SqlNull")
  case True
  from serializeKey_eq_iff [of "map (row_at l) leftIndices" Ns "map (row_at r) rightIndices" colls] True len norm ok
  show ?thesis by (auto simp: equi_match_def)
next
  case False
  then show ?thesis using extractKey_None [OF len(1) ok(1)] extractKey_None [OF len(2) ok(2)] len
    by (auto simp: equi_match_def)
qed

text \<open>
  C36. The hash join emits the same rows in the same order as the nested loop join on the
  condition it stands for, whatever the residual condition, for inner, cross, left, semi and anti
  joins, under these conditions on the keys: no key column has a semantic key transform (its
  canonicalizer is undefined), each collation calls two texts equal exactly when its normalizer
  maps them to one, the numbers among the key values are integers, and no serialized part
  contains a NUL character. NULL keys may occur on either side and match nothing.
\<close>

theorem hash_join_is_loop_join:
  assumes "length leftIndices = length Ns" "length rightIndices = length Ns" "length colls = length Ns"
    and "\<forall>i < length Ns. order_normalizer (colls ! i) (Ns ! i)"
    and "keyable_rows L leftIndices Ns" "keyable_rows R rightIndices Ns"
    and "jt \<noteq> RightJoin" "jt \<noteq> FullJoin"
  shows "hash_join jt (\<lambda>l. extractKey Ns (replicate (length Ns) None) l leftIndices)
      (\<lambda>r. extractKey Ns (replicate (length Ns) None) r rightIndices) residual n L R =
    loop_join jt None (Some (equi_condition leftIndices rightIndices colls residual)) lc n L R"
proof -
  have "filter (\<lambda>r. serializeKey (map (row_at l) leftIndices) Ns \<noteq> None \<and>
        serializeKey (map (row_at r) rightIndices) Ns = serializeKey (map (row_at l) leftIndices) Ns \<and> residual_met residual l r) R =
      filter (conditionMet (Some (equi_condition leftIndices rightIndices colls residual)) l) R" if "l \<in> set L" for l
  proof (rule filter_cong [OF refl])
    fix r assume r: "r \<in> set R"
    have ok: "\<forall>i < length Ns. keyable_part (row_at l (leftIndices ! i)) (Ns ! i)"
      "\<forall>i < length Ns. keyable_part (row_at r (rightIndices ! i)) (Ns ! i)"
      using assms(5,6) that r by (simp_all add: keyable_rows_def)
    show "(serializeKey (map (row_at l) leftIndices) Ns \<noteq> None \<and>
        serializeKey (map (row_at r) rightIndices) Ns = serializeKey (map (row_at l) leftIndices) Ns \<and> residual_met residual l r) \<longleftrightarrow>
      conditionMet (Some (equi_condition leftIndices rightIndices colls residual)) l r"
      using key_match [OF assms(1-4) ok] by (simp add: conditionMet_def equi_condition_def conj_assoc [symmetric])
  qed
  then show ?thesis unfolding hash_join_emit loop_join_emit [OF assms(7,8)] extractKey_plain
    by (intro arg_cong [of _ _ concat] map_cong) simp_all
qed

theorem hash_join_is_loop_join_witness:
  "\<exists>L R. L = [[SqlBig 1, SqlText (lit ''x'')], [SqlNull, SqlNull]] \<and> R = [[SqlBig 1], [SqlBig 2], [SqlBig 1]] \<and>
     hash_join LeftJoin (\<lambda>l. extractKey [IDENTITY_NORMALIZER] (replicate (length [IDENTITY_NORMALIZER]) None) l [0])
       (\<lambda>r. extractKey [IDENTITY_NORMALIZER] (replicate (length [IDENTITY_NORMALIZER]) None) r [0]) None 1 L R =
     loop_join LeftJoin None (Some (equi_condition [0] [0] [BINARY_COLLATION] None)) 2 1 L R"
proof (intro exI conjI)
  have int: "0 \<notin> set (lit ''n:'' @ int_text n)" for n
    using int_text_unit [of 0 n] by (auto simp: lit_def)
  show "hash_join LeftJoin (\<lambda>l. extractKey [IDENTITY_NORMALIZER] (replicate (length [IDENTITY_NORMALIZER]) None) l [0])
       (\<lambda>r. extractKey [IDENTITY_NORMALIZER] (replicate (length [IDENTITY_NORMALIZER]) None) r [0]) None 1
       [[SqlBig 1, SqlText (lit ''x'')], [SqlNull, SqlNull]] [[SqlBig 1], [SqlBig 2], [SqlBig 1]] =
     loop_join LeftJoin None (Some (equi_condition [0] [0] [BINARY_COLLATION] None)) 2 1
       [[SqlBig 1, SqlText (lit ''x'')], [SqlNull, SqlNull]] [[SqlBig 1], [SqlBig 2], [SqlBig 1]]"
    by (rule hash_join_is_loop_join)
      (use int in \<open>simp_all add: builtin_order_normalizers keyable_rows_def keyable_part_def row_at_def\<close>)
qed (rule refl)+

section \<open>Merge join\<close>



















text \<open>
  The joins test a condition by JavaScript truthiness, the filter by SQL truthiness: a blob (and
  a text such as \<open>'0'\<close>) as ON condition matches every pair, as WHERE condition it rejects every row.
\<close>

lemma join_condition_truthiness:
  "loop_join Inner None (Some (\<lambda>l r. SqlBlob [0])) 1 1 [[SqlBig 1]] [[SqlBig 2]] = [[SqlBig 1, SqlBig 2]] \<and>
   \<not> isTruthy number (SqlBlob [0]) \<and> js_truthy (SqlText (lit ''0''))"
  by (simp add: loop_join_emit emit_left_def isSemiOrAnti_def joinOutputRow_def conditionMet_def lit_def)

end
