(* ===== verification/Fd_Join.thy ===== *)
theory Fd_Join
  imports Fd_Facts Join_Exec
begin

text \<open>
  What the planner claims about the output of a join (planner/util/key-utils.ts and
  planner/nodes/join-utils.ts): which keys survive, and how dependencies, equivalence classes,
  bindings, domains and inclusion dependencies of the inputs propagate.
\<close>

section \<open>Keys\<close>

definition projectKeys :: "col_ref list list \<Rightarrow> col_map \<Rightarrow> col_ref list list" where
  "projectKeys sourceKeys projectionMap = List.map_filter (\<lambda>key. map_all (\<lambda>col.
     map_option (\<lambda>i. \<lparr>ref_index = i, ref_desc = ref_desc col\<rparr>) (map_of projectionMap (ref_index col))) key) sourceKeys"

definition joinPairsCoverKey :: "col_ref list list \<Rightarrow> nat list \<Rightarrow> bool" where
  "joinPairsCoverKey keys eqIndices = list_ex (\<lambda>k. list_all (\<lambda>c. ref_index c \<in> set eqIndices) k) keys"

definition ref_signature :: "col_ref \<Rightarrow> js_string" where
  "ref_signature c = digit_units (dec_digits (ref_index c)) @ lit '':'' @
     (case ref_desc c of None \<Rightarrow> [] | Some True \<Rightarrow> lit ''true'' | Some False \<Rightarrow> lit ''false'')"

fun key_signature :: "col_ref list \<Rightarrow> js_string" where
  "key_signature [] = []"
| "key_signature [c] = ref_signature c"
| "key_signature (c # d # cs) = ref_signature c @ lit '','' @ key_signature (d # cs)"

definition dedupeKeys :: "col_ref list list \<Rightarrow> col_ref list list" where
  "dedupeKeys keys = fst (fold (\<lambda>k st. if key_signature k \<in> set (snd st) then st
     else (fst st @ [k], set_add (key_signature k) (snd st))) keys ([], []))"

definition better_key :: "('k \<Rightarrow> nat) \<Rightarrow> 'k list \<Rightarrow> 'k list option \<Rightarrow> 'k list option" where
  "better_key indexOf key best = (if key = [] then best
     else case best of None \<Rightarrow> Some key
        | Some b \<Rightarrow> if length key < length b \<or> length key = length b \<and> indexOf (hd key) < indexOf (hd b) then Some key else best)"

definition selectLexMinKey :: "'k list list \<Rightarrow> ('k \<Rightarrow> nat) \<Rightarrow> 'k list option" where
  "selectLexMinKey keys indexOf = fold (better_key indexOf) keys None"

type_synonym equi_pair = "nat \<times> nat"

definition shift_ref :: "nat \<Rightarrow> col_ref \<Rightarrow> col_ref" where
  "shift_ref offset c = \<lparr>ref_index = ref_index c + offset, ref_desc = ref_desc c\<rparr>"

definition combineJoinKeys ::
  "col_ref list list \<Rightarrow> col_ref list list \<Rightarrow> join_type \<Rightarrow> nat \<Rightarrow> equi_pair list option \<Rightarrow> col_ref list list" where
  "combineJoinKeys leftKeys rightKeys joinType leftColumnCount equiPairs =
     (let pairs = (case equiPairs of None \<Rightarrow> [] | Some ps \<Rightarrow> ps);
          leftEqSet = new_set (map fst pairs); rightEqSet = new_set (map snd pairs);
          shifted = map (map (shift_ref leftColumnCount)) rightKeys
      in if joinType = Inner \<or> joinType = Cross then
           (let leftKeysSurvive = joinPairsCoverKey rightKeys rightEqSet;
                rightKeysSurvive = joinPairsCoverKey leftKeys leftEqSet
            in dedupeKeys ((if leftKeysSurvive then leftKeys else []) @ (if rightKeysSurvive then shifted else []) @
                 (if \<not> leftKeysSurvive \<and> \<not> rightKeysSurvive
                  then (case (selectLexMinKey leftKeys ref_index, selectLexMinKey rightKeys ref_index) of
                          (Some l, Some r) \<Rightarrow> [l @ map (shift_ref leftColumnCount) r] | _ \<Rightarrow> [])
                  else [])))
         else if joinType = LeftJoin then
           (if \<not> joinPairsCoverKey rightKeys rightEqSet then [] else dedupeKeys leftKeys)
         else if joinType = RightJoin then
           (if \<not> joinPairsCoverKey leftKeys leftEqSet then [] else dedupeKeys shifted)
         else if joinType = Semi \<or> joinType = Anti then leftKeys
         else [])"

text \<open>The coverage analysis. Row estimates are numbers of any linear order.\<close>

record 'n coverage_result =
  leftKeyCovered :: bool
  rightKeyCovered :: bool
  preservedKeys :: "nat list list"
  estimatedRows :: "'n option"

definition coversLogicalKey :: "nat list list \<Rightarrow> nat list \<Rightarrow> bool" where
  "coversLogicalKey keys eqSet = list_ex (\<lambda>key. 0 < length key \<and> list_all (\<lambda>idx. idx \<in> set eqSet) key) keys"

definition side_keys :: "physical_props option \<Rightarrow> relation_type option \<Rightarrow> nat list list" where
  "side_keys phys type = (case type of None \<Rightarrow> [] | Some t \<Rightarrow> keysOf \<lparr>rel_type = t, rel_physical = phys\<rparr>)"

definition side_covered :: "physical_props option \<Rightarrow> relation_type option \<Rightarrow> nat \<Rightarrow> nat list \<Rightarrow> bool" where
  "side_covered phys type colCount cols = (case type of
     None \<Rightarrow> coversLogicalKey [] (new_set cols) \<or>
       isUniqueDeterminant (new_set cols) (case phys of None \<Rightarrow> None | Some p \<Rightarrow> phys_fds p) colCount False
   | Some t \<Rightarrow> isUnique cols \<lparr>rel_type = t, rel_physical = phys\<rparr>)"

definition side_singleton :: "physical_props option \<Rightarrow> relation_type option \<Rightarrow> bool" where
  "side_singleton phys type = (case type of None \<Rightarrow> False | Some t \<Rightarrow> isAtMostOneRow \<lparr>rel_type = t, rel_physical = phys\<rparr>)"

definition no_coverage :: "nat list list \<Rightarrow> 'n coverage_result" where
  "no_coverage keys = \<lparr>leftKeyCovered = False, rightKeyCovered = False, preservedKeys = keys, estimatedRows = None\<rparr>"

definition analyzeJoinKeyCoverage ::
  "join_type \<Rightarrow> physical_props option \<Rightarrow> physical_props option \<Rightarrow> relation_type option \<Rightarrow> relation_type option \<Rightarrow>
   equi_pair list \<Rightarrow> ('n :: linorder) option \<Rightarrow> 'n option \<Rightarrow> nat \<Rightarrow> 'n coverage_result" where
  "analyzeJoinKeyCoverage joinType leftPhys rightPhys leftType rightType equiPairs leftRows rightRows leftColumnCount =
     (let leftColCount = (case leftType of None \<Rightarrow> leftColumnCount | Some t \<Rightarrow> columnCount t);
          rightColCount = (case rightType of None \<Rightarrow> 0 | Some t \<Rightarrow> columnCount t);
          leftKeys = side_keys leftPhys leftType;
          rightKeysShifted = map (map (\<lambda>i. i + leftColumnCount)) (side_keys rightPhys rightType);
          leftCovered = side_covered leftPhys leftType leftColCount (map fst equiPairs);
          rightCovered = side_covered rightPhys rightType rightColCount (map snd equiPairs);
          single = (if side_singleton leftPhys leftType \<and> side_singleton rightPhys rightType then [[]] else []);
          capLeft = (if rightCovered then leftRows else None);
          capRight = (if leftCovered then rightRows else None)
      in case joinType of
           Semi \<Rightarrow> no_coverage leftKeys
         | Anti \<Rightarrow> no_coverage leftKeys
         | FullJoin \<Rightarrow> no_coverage []
         | LeftJoin \<Rightarrow> \<lparr>leftKeyCovered = leftCovered, rightKeyCovered = rightCovered,
             preservedKeys = (if rightCovered then leftKeys else []) @ single, estimatedRows = capLeft\<rparr>
         | RightJoin \<Rightarrow> \<lparr>leftKeyCovered = leftCovered, rightKeyCovered = rightCovered,
             preservedKeys = (if leftCovered then rightKeysShifted else []) @ single, estimatedRows = capRight\<rparr>
         | _ \<Rightarrow> \<lparr>leftKeyCovered = leftCovered, rightKeyCovered = rightCovered,
             preservedKeys = (if rightCovered then leftKeys else []) @ (if leftCovered then rightKeysShifted else []) @ single @
               (if \<not> leftCovered \<and> \<not> rightCovered
                then (case (selectLexMinKey leftKeys id, selectLexMinKey rightKeysShifted id) of
                        (Some l, Some r) \<Rightarrow> [l @ r] | _ \<Rightarrow> [])
                else []),
             estimatedRows = (case (capLeft, capRight) of
                 (None, e) \<Rightarrow> e | (e, None) \<Rightarrow> e | (Some l, Some r) \<Rightarrow> Some (min l r))\<rparr>)"

section \<open>Facts\<close>

definition downgradeUniqueFds :: "fd list \<Rightarrow> fd list" where
  "downgradeUniqueFds fds = map (\<lambda>f. if fd_kind f = Unique then f\<lparr>fd_kind := Determination\<rparr> else f) fds"

definition opt_list :: "'a list option \<Rightarrow> 'a list" where
  "opt_list xs = (case xs of None \<Rightarrow> [] | Some ys \<Rightarrow> ys)"

definition phys_list :: "(physical_props \<Rightarrow> 'a list option) \<Rightarrow> physical_props option \<Rightarrow> 'a list" where
  "phys_list field p = (case p of None \<Rightarrow> [] | Some props \<Rightarrow> opt_list (field props))"

definition non_empty :: "'a list \<Rightarrow> 'a list option" where
  "non_empty xs = (if xs = [] then None else Some xs)"

definition join_opts :: "nat list list \<Rightarrow> add_fd_options" where
  "join_opts keys = \<lparr>keyHints = Some keys, fd_cap = None\<rparr>"

definition withKeyFds :: "js_refs \<Rightarrow> nat list list \<Rightarrow> nat \<Rightarrow> fd list \<Rightarrow> fd list" where
  "withKeyFds I keys totalColumnCount fds = fold (\<lambda>key out. case superkeyToFd key totalColumnCount of
     None \<Rightarrow> out | Some f \<Rightarrow> addFd I out f (join_opts keys)) keys fds"

definition wrap_facts :: "fd list \<Rightarrow> nat list list \<Rightarrow> constant_binding list \<Rightarrow> domain_constraint list \<Rightarrow> physical_props" where
  "wrap_facts fds ecs bindings domains = \<lparr>phys_fds = non_empty fds, equivClasses = non_empty ecs,
     constantBindings = non_empty bindings, domainConstraints = non_empty domains, phys_inds = None\<rparr>"

definition no_facts :: physical_props where
  "no_facts = \<lparr>phys_fds = None, equivClasses = None, constantBindings = None, domainConstraints = None, phys_inds = None\<rparr>"

definition add_pair :: "js_refs \<Rightarrow> nat list list \<Rightarrow> nat \<Rightarrow> equi_pair \<Rightarrow> fd list \<times> nat list list \<Rightarrow> fd list \<times> nat list list" where
  "add_pair I keys leftColumnCount p st =
     (let rShifted = snd p + leftColumnCount;
          fds1 = addFd I (fst st) (new_fd [fst p] [rShifted] Determination) (join_opts keys);
          fds2 = addFd I fds1 (new_fd [rShifted] [fst p] Determination) (join_opts keys)
      in (fds2, addEquivalence (snd st) (fst p) rShifted))"

definition join_inner ::
  "js_refs \<Rightarrow> equi_pair list \<Rightarrow> nat \<Rightarrow> nat \<Rightarrow> nat list list \<Rightarrow> fd list \<Rightarrow> fd list \<Rightarrow> nat list list \<Rightarrow> nat list list \<Rightarrow>
   constant_binding list \<Rightarrow> constant_binding list \<Rightarrow> domain_constraint list \<Rightarrow> domain_constraint list \<Rightarrow> physical_props" where
  "join_inner I equiPairs leftColumnCount totalColumnCount keys
     keptLeftFds keptRightFds leftEC rightEC leftBindings rightBindings leftDomains rightDomains =
     (let fds = mergeFds I keptLeftFds (shiftFds keptRightFds leftColumnCount) (join_opts keys);
          ecs = mergeEquivClasses leftEC (shiftEquivClasses rightEC leftColumnCount);
          paired = fold (add_pair I keys leftColumnCount) equiPairs (fds, ecs);
          bindings = closeConstantBindingsOverEcs I
            (mergeConstantBindings I leftBindings (shiftConstantBindings rightBindings leftColumnCount)) (snd paired);
          domains = mergeDomainConstraints I leftDomains (shiftDomainConstraints rightDomains leftColumnCount)
      in wrap_facts (withKeyFds I keys totalColumnCount (fst paired)) (snd paired) bindings domains)"

definition propagateJoinFds ::
  "js_refs \<Rightarrow> join_type \<Rightarrow> physical_props option \<Rightarrow> physical_props option \<Rightarrow> equi_pair list \<Rightarrow> nat \<Rightarrow> nat \<Rightarrow>
   nat list list \<Rightarrow> physical_props" where
  "propagateJoinFds I joinType leftPhys rightPhys equiPairs leftColumnCount totalColumnCount keys =
     (let leftFds = phys_list phys_fds leftPhys; rightFds = phys_list phys_fds rightPhys;
          leftEC = phys_list equivClasses leftPhys; rightEC = phys_list equivClasses rightPhys;
          leftBindings = phys_list constantBindings leftPhys; rightBindings = phys_list constantBindings rightPhys;
          leftDomains = phys_list domainConstraints leftPhys; rightDomains = phys_list domainConstraints rightPhys;
          leftPreserved = list_ex (list_all (\<lambda>i. i < leftColumnCount)) keys;
          rightPreserved = list_ex (list_all (\<lambda>i. leftColumnCount \<le> i)) keys;
          keptLeftFds = (if leftPreserved then leftFds else downgradeUniqueFds leftFds);
          keptRightFds = (if rightPreserved then rightFds else downgradeUniqueFds rightFds)
      in case joinType of
           Inner \<Rightarrow> join_inner I equiPairs leftColumnCount totalColumnCount keys
             keptLeftFds keptRightFds leftEC rightEC leftBindings rightBindings leftDomains rightDomains
         | Cross \<Rightarrow> join_inner I equiPairs leftColumnCount totalColumnCount keys
             keptLeftFds keptRightFds leftEC rightEC leftBindings rightBindings leftDomains rightDomains
         | LeftJoin \<Rightarrow> wrap_facts (withKeyFds I keys totalColumnCount keptLeftFds) leftEC leftBindings leftDomains
         | RightJoin \<Rightarrow> wrap_facts (withKeyFds I keys totalColumnCount (shiftFds keptRightFds leftColumnCount))
             (shiftEquivClasses rightEC leftColumnCount) (shiftConstantBindings rightBindings leftColumnCount)
             (shiftDomainConstraints rightDomains leftColumnCount)
         | FullJoin \<Rightarrow> no_facts
         | Semi \<Rightarrow> wrap_facts (withKeyFds I keys totalColumnCount leftFds) leftEC leftBindings leftDomains
         | Anti \<Rightarrow> wrap_facts (withKeyFds I keys totalColumnCount leftFds) leftEC leftBindings leftDomains)"

definition propagateJoinInds ::
  "join_type \<Rightarrow> physical_props option \<Rightarrow> physical_props option \<Rightarrow> nat \<Rightarrow> inclusion_dep list option" where
  "propagateJoinInds joinType leftPhys rightPhys leftColumnCount =
     (let leftInds = phys_list phys_inds leftPhys; rightInds = phys_list phys_inds rightPhys
      in non_empty (case joinType of
           Inner \<Rightarrow> mergeInds leftInds (shiftInds rightInds leftColumnCount) None
         | Cross \<Rightarrow> mergeInds leftInds (shiftInds rightInds leftColumnCount) None
         | LeftJoin \<Rightarrow> leftInds | Semi \<Rightarrow> leftInds | Anti \<Rightarrow> leftInds
         | RightJoin \<Rightarrow> shiftInds rightInds leftColumnCount
         | FullJoin \<Rightarrow> []))"

end
