(* ===== verification/Fd_Join_Sound.thy ===== *)
theory Fd_Join_Sound
  imports Fd_Join
begin

text \<open>
  The facts claimed about a join hold on the rows the nested loop join emits: a side's facts
  carry over to the rows they come from, keys survive exactly when the other side matches at
  most once, and the equi-pairs add value equalities.
\<close>

section \<open>Facts under a shift of columns\<close>

text \<open>An output row carries the columns of its origin, moved by an offset.\<close>

definition carries :: "nat \<Rightarrow> nat \<Rightarrow> row \<Rightarrow> row \<Rightarrow> bool" where
  "carries n k r j \<longleftrightarrow> (\<forall>c < n. row_at j (c + k) = row_at r c)"

definition shift_sem :: "nat \<Rightarrow> col_sem \<Rightarrow> col_sem" where
  "shift_sem k S = \<lparr>col_cmp = (\<lambda>c. col_cmp S (c + k)), pair_eq = (\<lambda>a b. pair_eq S (a + k) (b + k))\<rparr>"

lemma shift_sem_sel [simp]:
  "col_cmp (shift_sem k S) c = col_cmp S (c + k)" "pair_eq (shift_sem k S) a b = pair_eq S (a + k) (b + k)"
  by (simp_all add: shift_sem_def)

lemma shift_sem_0 [simp]: "shift_sem 0 S = S"
  by (simp add: shift_sem_def)

lemma lawful_shift: "lawful_columns I S \<Longrightarrow> lawful_columns I (shift_sem k S)"
  by (simp add: lawful_columns_def)

fun clause_cols :: "guard_clause \<Rightarrow> nat set" where
  "clause_cols (EqLiteral c v) = {c}"
| "clause_cols (EqColumn a b) = {a, b}"
| "clause_cols (IsNullClause c n) = {c}"
| "clause_cols (RangeClause c mn mx mnInc mxInc) = {c}"
| "clause_cols (OrOf cs) = (\<Union>c \<in> set cs. clause_cols c)"

definition fd_cols :: "fd \<Rightarrow> nat set" where
  "fd_cols f = set (determinants f) \<union> set (dependents f) \<union>
     (case fd_guard f of None \<Rightarrow> {} | Some g \<Rightarrow> (\<Union>c \<in> set (clauses g). clause_cols c))"

lemma carries_at: "carries n k r j \<Longrightarrow> c < n \<Longrightarrow> row_at j (c + k) = row_at r c"
  by (simp add: carries_def)

lemma clause_sat_shift:
  assumes "carries n k r j"
  shows "clause_cols c \<subseteq> {..<n} \<Longrightarrow> clause_sat S (shiftClause c k) j = clause_sat (shift_sem k S) c r"
  by (induction c) (auto simp: carries_at [OF assms] SUP_le_iff)

lemma agree_shift:
  assumes "carries n k r j" "carries n k r' j'" "D \<subseteq> {..<n}"
  shows "agree S ((\<lambda>c. c + k) ` D) j j' = agree (shift_sem k S) D r r'"
  using assms(3) carries_at [OF assms(1)] carries_at [OF assms(2)] by (auto simp: agree_def subset_iff)

lemma guard_sat_shift:
  assumes "carries n k r j" "\<forall>c \<in> set (clauses g). clause_cols c \<subseteq> {..<n}"
  shows "guard_sat S (Some (shiftGuard g k)) j = guard_sat (shift_sem k S) (Some g) r"
  using assms(2) clause_sat_shift [OF assms(1)] by (simp add: guard_sat_def shiftGuard_def)

lemma list_all2_filter:
  "list_all2 P xs ys \<Longrightarrow> (\<And>x y. x \<in> set xs \<Longrightarrow> P x y \<Longrightarrow> f x = g y) \<Longrightarrow> list_all2 P (filter f xs) (filter g ys)"
  by (induction xs ys rule: list_all2_induct) auto

lemma shift_fd_sel [simp]:
  "determinants (shift_fd k f) = map (\<lambda>c. c + k) (determinants f)"
  "dependents (shift_fd k f) = map (\<lambda>c. c + k) (dependents f)"
  "fd_guard (shift_fd k f) = map_option (\<lambda>g. shiftGuard g k) (fd_guard f)"
  "fd_kind (shift_fd k f) = fd_kind f"
  by (simp_all add: shift_fd_def Let_def split: option.splits)

lemma row_unique_shift:
  assumes "list_all2 (carries n k) Os J" "D \<subseteq> {..<n}"
  shows "row_unique S J ((\<lambda>c. c + k) ` D) = row_unique (shift_sem k S) Os D"
  using assms(1)
proof (induction Os J rule: list_all2_induct)
  case (Cons r Os j J)
  have "(\<forall>j' \<in> set J. \<not> agree S ((\<lambda>c. c + k) ` D) j j') = (\<forall>r' \<in> set Os. \<not> agree (shift_sem k S) D r r')"
    using Cons(2) agree_shift [OF Cons(1) _ assms(2)] by (auto simp: list_all2_conv_all_nth in_set_conv_nth) (metis nth_mem)+
  then show ?case using Cons by (simp add: row_unique_def)
qed (simp add: row_unique_def)

lemma list_all2_origin: "list_all2 P xs ys \<Longrightarrow> y \<in> set ys \<Longrightarrow> \<exists>x \<in> set xs. P x y"
  by (induction xs ys rule: list_all2_induct) auto

lemma determination_shift:
  assumes "list_all2 (carries n k) Os J" "D \<subseteq> {..<n}" "E \<subseteq> {..<n}" "determination (shift_sem k S) Os D E"
  shows "determination S J ((\<lambda>c. c + k) ` D) ((\<lambda>c. c + k) ` E)"
  unfolding determination_def
proof (intro ballI impI)
  fix j j' assume j: "j \<in> set J" "j' \<in> set J" "agree S ((\<lambda>c. c + k) ` D) j j'"
  obtain r where r: "r \<in> set Os" "carries n k r j" using list_all2_origin [OF assms(1) j(1)] by blast
  obtain r' where r': "r' \<in> set Os" "carries n k r' j'" using list_all2_origin [OF assms(1) j(2)] by blast
  show "agree S ((\<lambda>c. c + k) ` E) j j'"
    using assms(4) j(3) r(1) r'(1) unfolding agree_shift [OF r(2) r'(2) assms(2)] agree_shift [OF r(2) r'(2) assms(3)]
    by (simp add: determination_def)
qed

lemma fd_holds_shift:
  assumes "list_all2 (carries n k) Os J" "fd_cols f \<subseteq> {..<n}" "fd_holds (shift_sem k S) Os f"
  shows "fd_holds S J (shift_fd k f)"
proof -
  have sc: "list_all2 (carries n k) (scope (shift_sem k S) (fd_guard f) Os) (scope S (fd_guard (shift_fd k f)) J)"
  proof (cases "fd_guard f")
    case (Some g)
    then have "\<forall>c \<in> set (clauses g). clause_cols c \<subseteq> {..<n}" using assms(2) by (auto simp: fd_cols_def)
    then show ?thesis unfolding scope_def using Some
      by (intro list_all2_filter [OF assms(1)]) (simp add: guard_sat_shift)
  qed (simp add: assms(1))
  have D: "set (determinants f) \<subseteq> {..<n}" "set (dependents f) \<subseteq> {..<n}" using assms(2) by (auto simp: fd_cols_def)
  show ?thesis using assms(3) unfolding fd_holds_def
    by (simp add: row_unique_shift [OF sc D(1)] determination_shift [OF sc D] del: shift_fd_sel(3))
qed

lemma shiftFds_shift: "shiftFds fs k = map (shift_fd k) fs"
proof -
  have "shiftClause c 0 = c" for c by (induction c) (auto intro: map_idI)
  then have "shift_fd 0 f = f" for f by (cases f) (simp add: shift_fd_def shiftGuard_def Let_def split: option.split)
  then show ?thesis by (auto simp: shiftFds_def intro!: map_idI [symmetric])
qed

section \<open>Rows that come from one side\<close>

lemma row_unique_short: "length R \<le> 1 \<Longrightarrow> row_unique S R D"
  by (cases R rule: remdups_adj.cases) (auto simp: row_unique_def)

lemma short_of_clash:
  assumes "sorted_wrt (\<lambda>r s. \<not> Q r s) xs" "\<And>r s. r \<in> set xs \<Longrightarrow> s \<in> set xs \<Longrightarrow> Q r s"
  shows "length xs \<le> 1"
  using assms by (cases xs rule: remdups_adj.cases) auto

context column_world
begin

lemma agree_refl: "(\<And>c. not_nan (row_at r c)) \<Longrightarrow> agree S D r r"
  using comparator_on.cmp_refl [OF columns_comparator] by (simp add: agree_def)

lemma agree_sym:
  assumes "\<And>c. not_nan (row_at r c)" "\<And>c. not_nan (row_at s c)" "agree S D r s"
  shows "agree S D s r"
  using assms by (simp add: agree_def comparator_on.cmp_flip(2) [OF columns_comparator, of "row_at r _"])

lemma unique_eq:
  assumes "rows_ok R" "row_unique S R D" "r \<in> set R" "s \<in> set R" "agree S D r s"
  shows "r = s"
proof -
  have *: "\<forall>i < length R. \<forall>j < length R. agree S D (R ! i) (R ! j) \<longrightarrow> i = j"
    using assms(1,2) row_unique_sym [of R S D] agree_sym rows_ok_at by blast
  obtain i j where "i < length R" "j < length R" "r = R ! i" "s = R ! j" using assms(3,4) by (auto simp: in_set_conv_nth)
  then show ?thesis using * assms(5) by auto
qed

lemma unique_determination: "rows_ok R \<Longrightarrow> row_unique S R D \<Longrightarrow> determination S R D E"
  unfolding determination_def using unique_eq agree_refl rows_ok_at by blast

text \<open>
  A dependency of a side holds on the rows drawn from it; a uniqueness claim needs the draw to
  repeat no row, which any key of the drawn rows shows.
\<close>

lemma fd_holds_drawn:
  assumes ok: "rows_ok R" and sub: "set Os \<subseteq> set R" and f: "fd_holds S R f"
    and u: "fd_kind f = Unique \<Longrightarrow> \<exists>K. row_unique S Os K"
  shows "fd_holds S Os f"
proof -
  let ?R = "scope S (fd_guard f) R" and ?O = "scope S (fd_guard f) Os" and ?D = "set (determinants f)"
  have sub': "set ?O \<subseteq> set ?R" using sub by (auto simp: scope_def)
  have ok': "rows_ok ?R" using ok by (simp add: scope_def rows_ok_filter)
  have "row_unique S ?O ?D" if k: "fd_kind f = Unique"
  proof -
    obtain K where K: "row_unique S Os K" using u [OF k] by blast
    have "row_unique S ?O K" using K by (simp add: scope_def row_unique_filter)
    then show ?thesis
    proof (rule row_unique_mono)
      fix r s assume rs: "r \<in> set ?O" "s \<in> set ?O" "agree S ?D r s"
      have "row_unique S ?R ?D" using f k by (simp add: fd_holds_def)
      then have "r = s" by (rule unique_eq [OF ok' _ _ _ rs(3)]) (use rs sub' in auto)
      then show "agree S K r s" using agree_refl rows_ok_at [OF ok'] rs(1) sub' by blast
    qed
  qed
  then show ?thesis using f sub' unfolding fd_holds_def determination_def by blast
qed

end

text \<open>Outputs grouped by the row they come from.\<close>

definition origins :: "(row \<Rightarrow> row list) \<Rightarrow> row list \<Rightarrow> row list" where
  "origins out X = concat (map (\<lambda>x. map (\<lambda>_. x) (out x)) X)"

lemma set_origins: "set (origins out X) \<subseteq> set X"
  by (auto simp: origins_def)

lemma list_all2_const: "list_all2 P (map (\<lambda>_. x) ys) ys \<longleftrightarrow> (\<forall>y \<in> set ys. P x y)"
  by (induction ys) auto

lemma origins_carried:
  "(\<And>x j. x \<in> set X \<Longrightarrow> j \<in> set (out x) \<Longrightarrow> P x j) \<Longrightarrow> list_all2 P (origins out X) (concat (map out X))"
  by (induction X) (auto simp: origins_def list_all2_const intro!: list_all2_appendI)

lemma row_unique_concat:
  assumes "\<And>x. x \<in> set X \<Longrightarrow> row_unique S (out x) K"
    "sorted_wrt (\<lambda>x y. \<forall>a \<in> set (out x). \<forall>b \<in> set (out y). \<not> agree S K a b) X"
  shows "row_unique S (concat (map out X)) K"
  using assms by (induction X) (auto simp: row_unique_def sorted_wrt_append)

text \<open>A key of one side is a key of the output when every row of that side emits at most one row.\<close>

lemma side_key_survives:
  assumes out: "\<And>x j. x \<in> set X \<Longrightarrow> j \<in> set (out x) \<Longrightarrow> carries n k x j"
    and one: "\<And>x. x \<in> set X \<Longrightarrow> length (out x) \<le> 1" and K: "row_unique (shift_sem k S) X K" "K \<subseteq> {..<n}"
  shows "row_unique S (concat (map out X)) ((\<lambda>c. c + k) ` K)"
proof (rule row_unique_concat)
  show "row_unique S (out x) ((\<lambda>c. c + k) ` K)" if "x \<in> set X" for x using one [OF that] by (rule row_unique_short)
  show "sorted_wrt (\<lambda>x y. \<forall>a \<in> set (out x). \<forall>b \<in> set (out y). \<not> agree S ((\<lambda>c. c + k) ` K) a b) X"
    using K(1) [unfolded row_unique_def]
    by (rule sorted_wrt_mono_rel [rotated]) (use agree_shift [OF out out K(2)] in blast)
qed

section \<open>Equality of values across columns\<close>

text \<open>
  What an equivalence class claims of two columns. A value equality lets a constant that one
  column compares equal to stand for the other's.
\<close>

type_synonym value_eq = "nat \<Rightarrow> nat \<Rightarrow> sql_value \<Rightarrow> sql_value \<Rightarrow> bool"

definition lawful_values :: "col_sem \<Rightarrow> value_eq \<Rightarrow> bool" where
  "lawful_values S V \<longleftrightarrow> (\<forall>a x. not_nan x \<longrightarrow> V a a x x) \<and> (\<forall>a b x y. V a b x y \<longrightarrow> V b a y x) \<and>
     (\<forall>a b c x y z. V a b x y \<longrightarrow> V b c y z \<longrightarrow> V a c x z) \<and>
     (\<forall>a b x y v. V a b x y \<longrightarrow> not_nan v \<longrightarrow> col_cmp S a x v = 0 \<longrightarrow> col_cmp S b y v = 0)"

locale value_world = column_world +
  fixes V :: value_eq
  assumes value_refl: "not_nan v \<Longrightarrow> V c c v v"
    and value_sym: "V l m x y \<Longrightarrow> V m l y x"
    and value_trans: "V l m x y \<Longrightarrow> V m p y z \<Longrightarrow> V l p x z"
    and value_const: "V l m x y \<Longrightarrow> not_nan v \<Longrightarrow> col_cmp S l x v = 0 \<Longrightarrow> col_cmp S m y v = 0"
begin

lemma value_transfer:
  assumes "V l m x y" "V l m x' y'" "not_nan x" "not_nan y" "not_nan x'" "not_nan y'" "col_cmp S l x x' = 0"
  shows "col_cmp S m y y' = 0"
proof -
  have "col_cmp S m y x' = 0" using value_const assms by blast
  moreover have "col_cmp S l x' x' = 0" using comparator_on.cmp_refl [OF columns_comparator] assms(5) by simp
  then have "col_cmp S m y' x' = 0" using value_const assms by blast
  then have "col_cmp S m x' y' = 0" using comparator_on.cmp_flip(2) [OF columns_comparator, of x' y'] assms by simp
  ultimately show ?thesis using comparator_on.cmp_eq_trans [OF columns_comparator, of y x' y'] assms by simp
qed

lemma value_refines: "V c c x y \<Longrightarrow> not_nan x \<Longrightarrow> not_nan y \<Longrightarrow> col_cmp S c x y = 0"
  using value_transfer [of c c x x x y] value_refl comparator_on.cmp_refl [OF columns_comparator] by simp

end

lemma value_worldI: "lawful_columns I S \<Longrightarrow> lawful_values S V \<Longrightarrow> value_world I S V"
proof (intro value_world.intro value_world_axioms.intro column_worldI)
  assume V: "lawful_values S V"
  note law = V [unfolded lawful_values_def]
  show "V c c v v" if "not_nan v" for c v using law [THEN conjunct1, rule_format, OF that] .
  show "V m l y x" if "V l m x y" for l m x y
    using law [THEN conjunct2, THEN conjunct1, rule_format, OF that] .
  show "V l p x z" if "V l m x y" "V m p y z" for l m p x y z
    using law [THEN conjunct2, THEN conjunct2, THEN conjunct1, rule_format, OF that] .
  show "col_cmp S m y v = 0" if "V l m x y" "not_nan v" "col_cmp S l x v = 0" for l m x y v
    using law [THEN conjunct2, THEN conjunct2, THEN conjunct2, rule_format, OF that] .
qed

text \<open>Columns of one collation hold equal values when the collation says so.\<close>

definition collated_values :: "(nat \<Rightarrow> collation) \<Rightarrow> value_eq" where
  "collated_values colls a b x y \<longleftrightarrow> colls a = colls b \<and> not_nan x \<and> not_nan y \<and> compareSqlValuesFast x y (colls a) = 0"

lemma lawful_collated_values:
  assumes "\<And>c. comparator_total (colls c)"
  shows "lawful_values (collated_sem colls pairs) (collated_values colls)"
proof -
  note cmp = compareSqlValuesFast_comparator [OF assms]
  show ?thesis unfolding lawful_values_def collated_values_def collated_sem_def
  proof (intro conjI allI impI; (elim conjE)?)
    fix a x assume "not_nan x"
    then show "compareSqlValuesFast x x (colls a) = 0" by (simp add: comparator_on.cmp_refl [OF cmp])
  next
    fix a b x y assume *: "colls a = colls b" "not_nan x" "not_nan y" "compareSqlValuesFast x y (colls a) = 0"
    show "compareSqlValuesFast y x (colls b) = 0"
      using * comparator_on.cmp_flip(2) [OF cmp, of x y b] by simp
  next
    fix a b c x y z
    assume *: "colls a = colls b" "not_nan x" "not_nan y" "compareSqlValuesFast x y (colls a) = 0"
      "colls b = colls c" "not_nan z" "compareSqlValuesFast y z (colls b) = 0"
    show "compareSqlValuesFast x z (colls a) = 0"
      using * comparator_on.cmp_eq_trans [OF cmp, of x y z a] by simp
  next
    fix a b x y v
    assume *: "colls a = colls b" "not_nan x" "not_nan y" "compareSqlValuesFast x y (colls a) = 0" "not_nan v"
      "col_cmp \<lparr>col_cmp = \<lambda>c a b. compareSqlValuesFast a b (colls c),
         pair_eq = \<lambda>l m a b. not_nan a \<and> not_nan b \<and> compareSqlValuesFast a b (pairs l m) = 0\<rparr> a x v = 0"
    have "compareSqlValuesFast y x (colls b) = 0" using * comparator_on.cmp_flip(2) [OF cmp, of x y b] by simp
    then show "col_cmp \<lparr>col_cmp = \<lambda>c a b. compareSqlValuesFast a b (colls c),
         pair_eq = \<lambda>l m a b. not_nan a \<and> not_nan b \<and> compareSqlValuesFast a b (pairs l m) = 0\<rparr> b y v = 0"
      using * comparator_on.cmp_eq_trans [OF cmp, of y x v b] by simp
  qed simp_all
qed

lemma lawful_binary_values: "lawful_values binary_columns (collated_values (\<lambda>_. BINARY_COLLATION))"
  unfolding binary_columns_def using builtin_comparators by (intro lawful_collated_values) simp

interpretation binary_vals: value_world structural_refs binary_columns "collated_values (\<lambda>_. BINARY_COLLATION)"
  by (rule value_worldI [OF lawful_binary lawful_binary_values]) simp

section \<open>What a join emits\<close>

definition left_out :: "join_type \<Rightarrow> join_side list option \<Rightarrow> condition option \<Rightarrow> nat \<Rightarrow> row list \<Rightarrow> row \<Rightarrow> row list" where
  "left_out jt ex cond rc R l = (let matches = filter (conditionMet cond l) R in
     (if isSemiOrAnti jt then [] else map (\<lambda>r. l @ r @ matchedFlags ex) matches) @
     (case joinOutputRow jt (matches \<noteq> []) (isSemiOrAnti jt) l rc of None \<Rightarrow> []
      | Some post \<Rightarrow> [post @ flagsForDroppedSide ex RightSide]))"

definition right_out :: "join_side list option \<Rightarrow> condition option \<Rightarrow> nat \<Rightarrow> row list \<Rightarrow> row \<Rightarrow> row list" where
  "right_out ex cond lc L r = (let matches = filter (\<lambda>l. conditionMet cond l r) L in
     map (\<lambda>l. l @ r @ matchedFlags ex) matches @
     (if matches \<noteq> [] then [] else [replicate lc SqlNull @ r @ flagsForDroppedSide ex LeftSide]))"

lemma loop_join_left:
  assumes "jt \<noteq> RightJoin" "jt \<noteq> FullJoin"
  shows "loop_join jt ex cond lc rc L R = concat (map (left_out jt ex cond rc R) L)"
  using assms by (simp add: loop_join_def driveFromLeft_def scan_right_eq left_out_def [abs_def] list_ex_filter Let_def
      cong: if_cong option.case_cong)

lemma concat_if_filter: "concat (map (\<lambda>l. if P l then [f l] else []) L) = map f (filter P L)"
  by (induction L) auto

lemma right_step_fst: "fst (right_step RightJoin ex cond lc L r st) = fst st @ right_out ex cond lc L r"
  by (auto simp: right_step_def right_out_def Let_def concat_if_filter filter_empty_conv list_ex_iff)

lemma loop_join_right: "loop_join RightJoin ex cond lc rc L R = concat (map (right_out ex cond lc L) R)"
proof -
  have "fst (fold (right_step RightJoin ex cond lc L) R st) = fst st @ concat (map (right_out ex cond lc L) R)" for st
    by (induction R arbitrary: st) (simp_all add: right_step_fst)
  then show ?thesis by (simp add: loop_join_def driveFromRight_def Let_def)
qed

lemma row_at_append: "row_at (xs @ ys) c = (if c < length xs then row_at xs c else row_at ys (c - length xs))"
  by (simp add: row_at_def nth_append) arith

lemma carries_left: "carries (length l) 0 l (l @ xs)"
  by (simp add: carries_def row_at_append)

lemma carries_right: "carries (length r) (length l) r (l @ r @ xs)"
  by (simp add: carries_def row_at_append)

lemma left_out_carries: "j \<in> set (left_out jt ex cond rc R l) \<Longrightarrow> length l = lc \<Longrightarrow> carries lc 0 l j"
  using carries_left [of l]
  by (auto simp: left_out_def joinOutputRow_def Let_def split: option.splits if_splits)

lemma right_out_carries:
  assumes "j \<in> set (right_out ex cond lc L r)" "length r = rc" "\<forall>l \<in> set L. length l = lc"
  shows "carries rc lc r j"
  using assms carries_right [of r "replicate lc SqlNull"] carries_right [of r]
  by (auto simp: right_out_def Let_def split: if_splits)

lemma inner_out: "jt = Inner \<or> jt = Cross \<Longrightarrow>
    left_out jt ex cond rc R l = map (\<lambda>r. l @ r @ matchedFlags ex) (filter (conditionMet cond l) R)"
  by (auto simp: left_out_def isSemiOrAnti_def joinOutputRow_def Let_def)

section \<open>Keys that survive\<close>

text \<open>The inputs of a join: well-formed rows, and a condition that makes every equi-pair a value equality.\<close>

definition join_inputs ::
  "value_eq \<Rightarrow> nat \<Rightarrow> nat \<Rightarrow> row list \<Rightarrow> row list \<Rightarrow> condition option \<Rightarrow> equi_pair list \<Rightarrow> bool" where
  "join_inputs V lc rc L R cond pairs \<longleftrightarrow> rows_ok L \<and> rows_ok R \<and>
     (\<forall>l \<in> set L. length l = lc) \<and> (\<forall>r \<in> set R. length r = rc) \<and> (\<forall>p \<in> set pairs. fst p < lc \<and> snd p < rc) \<and>
     (\<forall>l \<in> set L. \<forall>r \<in> set R. conditionMet cond l r \<longrightarrow>
        (\<forall>p \<in> set pairs. V (fst p) (snd p + lc) (row_at l (fst p)) (row_at r (snd p))))"

lemma join_inputsD:
  assumes "join_inputs V lc rc L R cond pairs"
  shows "rows_ok L" "rows_ok R" "\<forall>l \<in> set L. length l = lc" "\<forall>r \<in> set R. length r = rc"
    "p \<in> set pairs \<Longrightarrow> fst p < lc \<and> snd p < rc"
    "l \<in> set L \<Longrightarrow> r \<in> set R \<Longrightarrow> conditionMet cond l r \<Longrightarrow> p \<in> set pairs \<Longrightarrow>
       V (fst p) (snd p + lc) (row_at l (fst p)) (row_at r (snd p))"
  using assms by (simp_all add: join_inputs_def)

context value_world
begin

lemma matches_agree:
  assumes J: "join_inputs V lc rc L R cond pairs" and l: "l \<in> set L" "l' \<in> set L" and r: "r \<in> set R" "r' \<in> set R"
    and m: "conditionMet cond l r" "conditionMet cond l' r'"
  shows "l = l' \<Longrightarrow> agree (shift_sem lc S) (set (map snd pairs)) r r'"
    "r = r' \<Longrightarrow> agree S (set (map fst pairs)) l l'"
proof -
  have nn: "not_nan (row_at l c)" "not_nan (row_at l' c)" "not_nan (row_at r c)" "not_nan (row_at r' c)" for c
    using rows_ok_at [OF join_inputsD(1) [OF J]] rows_ok_at [OF join_inputsD(2) [OF J]] l r by blast+
  have V: "V (fst p) (snd p + lc) (row_at l (fst p)) (row_at r (snd p))"
    "V (fst p) (snd p + lc) (row_at l' (fst p)) (row_at r' (snd p))" if "p \<in> set pairs" for p
    using join_inputsD(6) [OF J] l r m that by blast+
  show "agree (shift_sem lc S) (set (map snd pairs)) r r'" if "l = l'"
    using value_refines [OF value_trans [OF value_sym]] V nn that by (fastforce simp: agree_def)
  show "agree S (set (map fst pairs)) l l'" if "r = r'"
    using value_refines [OF value_trans [OF _ value_sym]] V nn that by (fastforce simp: agree_def)
qed

lemma right_matches_once:
  assumes J: "join_inputs V lc rc L R cond pairs" and u: "row_unique (shift_sem lc S) R (set (map snd pairs))" and l: "l \<in> set L"
  shows "length (filter (conditionMet cond l) R) \<le> 1"
  by (rule short_of_clash [OF row_unique_filter [OF u, unfolded row_unique_def]])
    (use matches_agree(1) [OF J l l] in auto)

lemma left_matches_once:
  assumes J: "join_inputs V lc rc L R cond pairs" and u: "row_unique S L (set (map fst pairs))" and r: "r \<in> set R"
  shows "length (filter (\<lambda>l. conditionMet cond l r) L) \<le> 1"
  by (rule short_of_clash [OF row_unique_filter [OF u, unfolded row_unique_def]])
    (use matches_agree(2) [OF J _ _ r r] in auto)

lemma left_key_survives:
  assumes J: "join_inputs V lc rc L R cond pairs" and jt: "jt \<noteq> RightJoin" "jt \<noteq> FullJoin"
    and cov: "isSemiOrAnti jt \<or> row_unique (shift_sem lc S) R (set (map snd pairs))"
    and K: "row_unique S L K" "K \<subseteq> {..<lc}"
  shows "row_unique S (loop_join jt ex cond lc rc L R) K"
proof -
  have "length (left_out jt ex cond rc R l) \<le> 1" if "l \<in> set L" for l
    using cov right_matches_once [OF J _ that]
    by (auto simp: left_out_def Let_def joinOutputRow_def split: option.splits)
  then have "row_unique S (concat (map (left_out jt ex cond rc R) L)) ((\<lambda>c. c + 0) ` K)"
    using join_inputsD(3) [OF J] K by (intro side_key_survives [where n = lc]) (auto intro: left_out_carries)
  then show ?thesis by (simp add: loop_join_left [OF jt])
qed

lemma right_key_survives:
  assumes J: "join_inputs V lc rc L R cond pairs" and cov: "row_unique S L (set (map fst pairs))"
    and K: "row_unique (shift_sem lc S) R K" "K \<subseteq> {..<rc}"
  shows "row_unique S (loop_join RightJoin ex cond lc rc L R) ((\<lambda>c. c + lc) ` K)"
proof -
  have "length (right_out ex cond lc L r) \<le> 1" if "r \<in> set R" for r
    using left_matches_once [OF J cov that] by (auto simp: right_out_def Let_def)
  then show ?thesis unfolding loop_join_right
    using join_inputsD(3,4) [OF J] K by (intro side_key_survives [where n = rc]) (auto intro: right_out_carries)
qed

lemma inner_columns:
  assumes J: "join_inputs V lc rc L R cond pairs" and "l \<in> set L" "l' \<in> set L" "r \<in> set R" "r' \<in> set R"
  shows "K \<subseteq> {..<lc} \<Longrightarrow> agree S K (l @ r @ xs) (l' @ r' @ xs) = agree S K l l'"
    "K \<subseteq> {..<rc} \<Longrightarrow> agree S ((\<lambda>c. c + lc) ` K) (l @ r @ xs) (l' @ r' @ xs) = agree (shift_sem lc S) K r r'"
proof -
  have len: "length l = lc" "length l' = lc" "length r = rc" "length r' = rc" using join_inputsD(3,4) [OF J] assms by auto
  show "K \<subseteq> {..<lc} \<Longrightarrow> agree S K (l @ r @ xs) (l' @ r' @ xs) = agree S K l l'"
    using agree_shift [OF carries_left [of l, unfolded len] carries_left [of l', unfolded len], of K S] by simp
  show "K \<subseteq> {..<rc} \<Longrightarrow> agree S ((\<lambda>c. c + lc) ` K) (l @ r @ xs) (l' @ r' @ xs) = agree (shift_sem lc S) K r r'"
    using agree_shift [OF carries_right [of r l, unfolded len] carries_right [of r' l', unfolded len]] by simp
qed

text \<open>Within one left row the outputs differ on a key of the right side.\<close>

lemma inner_within:
  assumes J: "join_inputs V lc rc L R cond pairs" and l: "l \<in> set L"
    and K: "row_unique (shift_sem lc S) R K" "K \<subseteq> {..<rc}"
  shows "row_unique S (map (\<lambda>r. l @ r @ xs) (filter (conditionMet cond l) R)) ((\<lambda>c. c + lc) ` K)"
proof -
  have "sorted_wrt (\<lambda>r r'. \<not> agree (shift_sem lc S) K r r') (filter (conditionMet cond l) R)"
    using row_unique_filter [OF K(1)] by (simp add: row_unique_def)
  then show ?thesis unfolding row_unique_def sorted_wrt_map
    by (rule sorted_wrt_mono_rel [rotated]) (use inner_columns(2) [OF J l l _ _ K(2)] in auto)
qed

lemma inner_right_key_survives:
  assumes J: "join_inputs V lc rc L R cond pairs" and jt: "jt = Inner \<or> jt = Cross"
    and cov: "row_unique S L (set (map fst pairs))" and K: "row_unique (shift_sem lc S) R K" "K \<subseteq> {..<rc}"
  shows "row_unique S (loop_join jt ex cond lc rc L R) ((\<lambda>c. c + lc) ` K)"
proof -
  have law: "column_world I (shift_sem lc S)"
    using columns_comparator columns_strict columns_pair_sym by (intro column_world.intro) simp_all
  have jt': "jt \<noteq> RightJoin" "jt \<noteq> FullJoin" using jt by auto
  show ?thesis unfolding loop_join_left [OF jt']
  proof (rule row_unique_concat)
    show "row_unique S (left_out jt ex cond rc R l) ((\<lambda>c. c + lc) ` K)" if "l \<in> set L" for l
      unfolding inner_out [OF jt] by (rule inner_within [OF J that K])
    show "sorted_wrt (\<lambda>l l'. \<forall>a \<in> set (left_out jt ex cond rc R l). \<forall>b \<in> set (left_out jt ex cond rc R l').
        \<not> agree S ((\<lambda>c. c + lc) ` K) a b) L"
      using cov [unfolded row_unique_def]
    proof (rule sorted_wrt_mono_rel [rotated], intro ballI notI)
      fix l l' a b assume l: "l \<in> set L" "l' \<in> set L" and n: "\<not> agree S (set (map fst pairs)) l l'"
        and a: "a \<in> set (left_out jt ex cond rc R l)" and b: "b \<in> set (left_out jt ex cond rc R l')"
        and ag: "agree S ((\<lambda>c. c + lc) ` K) a b"
      obtain r where r: "a = l @ r @ matchedFlags ex" "r \<in> set R" "conditionMet cond l r" using a by (auto simp: inner_out [OF jt])
      obtain r' where r': "b = l' @ r' @ matchedFlags ex" "r' \<in> set R" "conditionMet cond l' r'" using b by (auto simp: inner_out [OF jt])
      have "agree (shift_sem lc S) K r r'" using ag inner_columns(2) [OF J l r(2) r'(2) K(2)] r r' by simp
      then have "r = r'" using column_world.unique_eq [OF law join_inputsD(2) [OF J] K(1) r(2) r'(2)] by blast
      then show False using n matches_agree(2) [OF J l r(2) r'(2) r(3) r'(3)] by blast
    qed
  qed
qed

lemma product_key_survives:
  assumes J: "join_inputs V lc rc L R cond pairs" and jt: "jt = Inner \<or> jt = Cross"
    and K: "row_unique S L K" "K \<subseteq> {..<lc}" and M: "row_unique (shift_sem lc S) R M" "M \<subseteq> {..<rc}"
  shows "row_unique S (loop_join jt ex cond lc rc L R) (K \<union> (\<lambda>c. c + lc) ` M)"
proof -
  have jt': "jt \<noteq> RightJoin" "jt \<noteq> FullJoin" using jt by auto
  show ?thesis unfolding loop_join_left [OF jt']
  proof (rule row_unique_concat)
    show "row_unique S (left_out jt ex cond rc R l) (K \<union> (\<lambda>c. c + lc) ` M)" if "l \<in> set L" for l
      unfolding inner_out [OF jt] by (rule row_unique_superset [OF inner_within [OF J that M]]) auto
    show "sorted_wrt (\<lambda>l l'. \<forall>a \<in> set (left_out jt ex cond rc R l). \<forall>b \<in> set (left_out jt ex cond rc R l').
        \<not> agree S (K \<union> (\<lambda>c. c + lc) ` M) a b) L"
      using K(1) [unfolded row_unique_def]
    proof (rule sorted_wrt_mono_rel [rotated])
      fix l l' assume l: "l \<in> set L" "l' \<in> set L" and n: "\<not> agree S K l l'"
      have "\<not> agree S K (l @ r @ xs) (l' @ r' @ xs)" if "r \<in> set R" "r' \<in> set R" for r r' xs
        using n inner_columns(1) [OF J l that K(2)] by blast
      then show "\<forall>a \<in> set (left_out jt ex cond rc R l). \<forall>b \<in> set (left_out jt ex cond rc R l').
          \<not> agree S (K \<union> (\<lambda>c. c + lc) ` M) a b"
        by (auto simp: inner_out [OF jt] agree_Un)
    qed
  qed
qed

end

text \<open>Two sides of at most one row join to at most one row, except in a full join.\<close>

lemma length_filter_one: "length xs \<le> 1 \<Longrightarrow> length (filter P xs) \<le> 1"
  using length_filter_le [of P xs] by linarith

lemma single_join:
  assumes "length L \<le> 1" "length R \<le> 1" "jt \<noteq> FullJoin"
  shows "length (loop_join jt ex cond lc rc L R) \<le> 1"
proof (cases "jt = RightJoin")
  case True
  have "length (right_out ex cond lc L r) \<le> 1" for r
    using length_filter_one [OF assms(1), of "\<lambda>l. conditionMet cond l r"] by (auto simp: right_out_def Let_def)
  then show ?thesis using assms(2) True by (cases R) (auto simp: loop_join_right)
next
  case False
  have "length (left_out jt ex cond rc R l) \<le> 1" for l
    using length_filter_one [OF assms(2), of "conditionMet cond l"]
    by (auto simp: left_out_def Let_def joinOutputRow_def isSemiOrAnti_def split: option.splits)
  then show ?thesis using assms(1) by (cases L) (auto simp: loop_join_left [OF False assms(3)])
qed

text \<open>Columns of a side's facts and keys lie within it.\<close>

definition side_ok :: "col_sem \<Rightarrow> rows \<Rightarrow> nat \<Rightarrow> physical_props \<Rightarrow> relation_type \<Rightarrow> bool" where
  "side_ok S R n p t \<longleftrightarrow> columnCount t = n \<and> type_sound S R t \<and> fds_hold S R (opt_list (phys_fds p)) \<and>
     (\<forall>k \<in> set (type_keys t). \<forall>c \<in> set k. ref_index c < n) \<and> (\<forall>f \<in> set (opt_list (phys_fds p)). fd_cols f \<subseteq> {..<n})"

lemma side_rel_sound: "side_ok S R n p t \<Longrightarrow> rel_sound S R \<lparr>rel_type = t, rel_physical = Some p\<rparr>"
  by (simp add: side_ok_def rel_sound_def rel_fds_def fd_list_def opt_list_def)

lemma minimalCover_subset: "set (minimalCover attrs fds) \<subseteq> set attrs"
  using cover_fold [of "computeClosure attrs fds" "set attrs" fds "new_set attrs" "new_set attrs"]
  by (simp add: minimalCover_def Let_def)

lemma keysOf_range:
  assumes "side_ok S R n p t" "k \<in> set (keysOf \<lparr>rel_type = t, rel_physical = Some p\<rparr>)"
  shows "set k \<subseteq> {..<n}"
proof -
  let ?f = "phys_fds p"
  let ?keys = "map (map ref_index) (type_keys t) @ (if hasSingletonFd ?f n (isSet t) then [[]] else []) @ deriveKeysFromFds ?f n (isSet t)"
  have n: "columnCount t = n" using assms(1) by (simp add: side_ok_def)
  have der: "set k' \<subseteq> {..<n}" if k': "k' \<in> set (deriveKeysFromFds ?f n (isSet t))" for k'
  proof -
    obtain fs where fs: "?f = Some fs" using k' by (cases ?f) (auto simp: deriveKeys_set)
    obtain f :: fd where "f \<in> set fs" "k' = sort (minimalCover (new_set (determinants f)) fs)"
      using k' unfolding fs deriveKeys_set option.case mem_Collect_eq by blast
    with fs show ?thesis using assms(1) minimalCover_subset [of "new_set (determinants f)" fs]
      by (fastforce simp: side_ok_def opt_list_def fd_cols_def)
  qed
  have all: "set k' \<subseteq> {..<n}" if "k' \<in> set ?keys" for k'
    using that der assms(1) by (auto simp: side_ok_def split: if_splits)
  have "k \<in> set (normalizeKeys ?keys) \<or> k = [0..<n]"
    using assms(2) by (auto simp: keysOf_def rel_fds_def Let_def allColumns_def n split: if_splits)
  then show ?thesis
  proof
    assume "k \<in> set (normalizeKeys ?keys)"
    then obtain k' where "k' \<in> set ?keys" "set k = set k'" using normalizeKeys_props(1) by blast
    with all show ?thesis by simp
  qed auto
qed

lemma selectLexMinKey_mem: "selectLexMinKey keys ix = Some k \<Longrightarrow> k \<in> set keys"
proof -
  have "fold (better_key ix) keys b = Some k \<Longrightarrow> k \<in> set keys \<or> b = Some k" for b
    by (induction keys arbitrary: b) (force simp: better_key_def split: if_splits option.splits)+
  then show "selectLexMinKey keys ix = Some k \<Longrightarrow> k \<in> set keys" by (fastforce simp: selectLexMinKey_def)
qed

lemma product_pick:
  assumes "k \<in> set (case (selectLexMinKey A f, selectLexMinKey (map h B) g) of (Some l, Some r) \<Rightarrow> [l @ r] | _ \<Rightarrow> [])"
  shows "\<exists>l \<in> set A. \<exists>r \<in> set B. k = l @ h r"
proof -
  obtain l r where lr: "selectLexMinKey A f = Some l" "selectLexMinKey (map h B) g = Some r" "k = l @ r"
    using assms by (cases "selectLexMinKey A f"; cases "selectLexMinKey (map h B) g") simp_all
  show ?thesis using selectLexMinKey_mem [OF lr(1)] selectLexMinKey_mem [OF lr(2)] lr(3) by auto
qed

lemma set_if_list: "x \<in> set (if P then xs else []) \<longleftrightarrow> P \<and> x \<in> set xs"
  by simp

text \<open>Where a preserved key comes from.\<close>

lemma preserved_cases:
  assumes "k \<in> set (preservedKeys (analyzeJoinKeyCoverage jt (Some lp) (Some rp) (Some lt) (Some rt) pairs a b lc))"
  obtains (left) "jt \<noteq> RightJoin" "jt \<noteq> FullJoin" "k \<in> set (keysOf \<lparr>rel_type = lt, rel_physical = Some lp\<rparr>)"
      "isSemiOrAnti jt \<or> isUnique (map snd pairs) \<lparr>rel_type = rt, rel_physical = Some rp\<rparr>"
    | (right) k' where "jt = Inner \<or> jt = Cross \<or> jt = RightJoin" "k = map (\<lambda>i. i + lc) k'"
      "k' \<in> set (keysOf \<lparr>rel_type = rt, rel_physical = Some rp\<rparr>)" "isUnique (map fst pairs) \<lparr>rel_type = lt, rel_physical = Some lp\<rparr>"
    | (single) "k = []" "jt \<noteq> FullJoin" "isAtMostOneRow \<lparr>rel_type = lt, rel_physical = Some lp\<rparr>"
      "isAtMostOneRow \<lparr>rel_type = rt, rel_physical = Some rp\<rparr>"
    | (product) l r where "jt = Inner \<or> jt = Cross" "k = l @ map (\<lambda>i. i + lc) r"
      "l \<in> set (keysOf \<lparr>rel_type = lt, rel_physical = Some lp\<rparr>)" "r \<in> set (keysOf \<lparr>rel_type = rt, rel_physical = Some rp\<rparr>)"
proof -
  let ?lk = "keysOf \<lparr>rel_type = lt, rel_physical = Some lp\<rparr>" and ?rk = "keysOf \<lparr>rel_type = rt, rel_physical = Some rp\<rparr>"
  have prod: "\<exists>l \<in> set ?lk. \<exists>r \<in> set ?rk. k = l @ map (\<lambda>i. i + lc) r"
    if "k \<in> set (case (selectLexMinKey ?lk id, selectLexMinKey (map (map (\<lambda>i. i + lc)) ?rk) id) of
        (Some l, Some r) \<Rightarrow> [l @ r] | _ \<Rightarrow> [])"
    using product_pick [OF that] .
  note keys = assms [unfolded analyzeJoinKeyCoverage_def Let_def no_coverage_def side_keys_def side_covered_def
      side_singleton_def option.case]
  have inner: thesis if jt: "jt = Inner \<or> jt = Cross"
  proof -
    have "k \<in> set (preservedKeys (analyzeJoinKeyCoverage Inner (Some lp) (Some rp) (Some lt) (Some rt) pairs a b lc))"
      using jt assms by (elim disjE) (simp_all only: analyzeJoinKeyCoverage_def Let_def join_type.case)
    then consider "isUnique (map snd pairs) \<lparr>rel_type = rt, rel_physical = Some rp\<rparr>" "k \<in> set ?lk"
      | "isUnique (map fst pairs) \<lparr>rel_type = lt, rel_physical = Some lp\<rparr>" "k \<in> map (\<lambda>i. i + lc) ` set ?rk"
      | "isAtMostOneRow \<lparr>rel_type = lt, rel_physical = Some lp\<rparr>" "isAtMostOneRow \<lparr>rel_type = rt, rel_physical = Some rp\<rparr>" "k = []"
      | "k \<in> set (case (selectLexMinKey ?lk id, selectLexMinKey (map (map (\<lambda>i. i + lc)) ?rk) id) of
          (Some l, Some r) \<Rightarrow> [l @ r] | _ \<Rightarrow> [])"
      unfolding analyzeJoinKeyCoverage_def Let_def side_keys_def side_covered_def side_singleton_def option.case
        join_type.case coverage_result.select_convs set_append Un_iff set_if_list set_map list.set(1) list.set(2)
      by blast
    then show thesis
    proof cases
      case 4
      then show thesis using prod product jt by blast
    qed (use jt left right single in blast)+
  qed
  show thesis
  proof (cases jt)
    case Inner
    then show thesis using inner by simp
  next
    case Cross
    then show thesis using inner by simp
  next
    case LeftJoin
    then show thesis using keys left single by (auto simp: set_if_list simp del: if_split)
  next
    case RightJoin
    then show thesis using keys right single by (auto simp: set_if_list simp del: if_split)
  qed (use keys in \<open>auto intro: left simp: isSemiOrAnti_def\<close>)
qed

context value_world
begin

lemma preserved_unique:
  assumes J: "join_inputs V lc rc L R cond pairs"
    and L: "side_ok S L lc lp lt" and R: "side_ok (shift_sem lc S) R rc rp rt"
    and k: "k \<in> set (preservedKeys (analyzeJoinKeyCoverage jt (Some lp) (Some rp) (Some lt) (Some rt) pairs a b lc))"
  shows "row_unique S (loop_join jt ex cond lc rc L R) (set k)" "set k \<subseteq> {..<lc + rc}"
proof -
  note ls = side_rel_sound [OF L] and rs = side_rel_sound [OF R]
  note lr = keysOf_range [OF L] and rr = keysOf_range [OF R]
  have "row_unique S (loop_join jt ex cond lc rc L R) (set k) \<and> set k \<subseteq> {..<lc + rc}"
    using k
  proof (cases rule: preserved_cases)
    case left
    have cov: "isSemiOrAnti jt \<or> row_unique (shift_sem lc S) R (set (map snd pairs))"
      using left(4) isUnique_row_unique [OF rs] by blast
    show ?thesis using left_key_survives [OF J left(1,2) cov keysOf_row_unique [OF ls left(3)] lr [OF left(3)]] lr [OF left(3)]
      by (simp add: subset_iff trans_less_add1)
  next
    case (right k')
    note cov = isUnique_row_unique [OF ls right(4)] and K = keysOf_row_unique [OF rs right(3)] rr [OF right(3)]
    have "set k = (\<lambda>c. c + lc) ` set k'" using right(2) by simp
    moreover have "row_unique S (loop_join jt ex cond lc rc L R) ((\<lambda>c. c + lc) ` set k')"
      using right(1) inner_right_key_survives [OF J _ cov K] right_key_survives [OF J cov K] by blast
    ultimately show ?thesis using K(2) by (auto simp: add.commute)
  next
    case single
    have "length L \<le> 1" "length R \<le> 1"
      using single(3,4) isUnique_row_unique [OF ls, of "[]"] isUnique_row_unique [OF rs, of "[]"]
      by (simp_all add: isAtMostOneRow_def row_unique_empty)
    then show ?thesis using single_join [of L R jt] single(1,2) row_unique_short by auto
  next
    case (product l r)
    note K = keysOf_row_unique [OF ls product(3)] lr [OF product(3)] keysOf_row_unique [OF rs product(4)] rr [OF product(4)]
    have "set k = set l \<union> (\<lambda>c. c + lc) ` set r" using product(2) by simp
    then show ?thesis using product_key_survives [OF J product(1) K] K(2,4) by (auto simp: subset_iff)
  qed
  then show "row_unique S (loop_join jt ex cond lc rc L R) (set k)" "set k \<subseteq> {..<lc + rc}" by simp_all
qed

lemma length_concat_le: "(\<And>x. x \<in> set X \<Longrightarrow> length (out x) \<le> 1) \<Longrightarrow> length (concat (map out X)) \<le> length X"
  by (induction X) (auto, fastforce)

lemma count_pairs:
  "sum_list (map (\<lambda>l. length (filter (P l) R)) L) = sum_list (map (\<lambda>r. length (filter (\<lambda>l. P l r) L)) R)"
proof (induction L)
  case (Cons l L)
  have "sum_list (map (\<lambda>r. length (filter (\<lambda>l. P l r) (l # L))) R) =
      sum_list (map (\<lambda>r. (if P l r then 1 else 0) + length (filter (\<lambda>l. P l r) L)) R)"
    by (rule arg_cong [where f = sum_list]) simp
  also have "\<dots> = length (filter (P l) R) + sum_list (map (\<lambda>r. length (filter (\<lambda>l. P l r) L)) R)"
    by (simp add: sum_list_addf) (induction R, simp_all)
  finally show ?case using Cons by simp
qed simp

text \<open>The row cap, for counts that bound the inputs.\<close>

lemma estimated_cap:
  assumes J: "join_inputs V lc rc L R cond pairs"
    and L: "side_ok S L lc lp lt" and R: "side_ok (shift_sem lc S) R rc rp rt"
    and ab: "\<And>m. a = Some m \<Longrightarrow> length L \<le> m" "\<And>m. b = Some m \<Longrightarrow> length R \<le> m"
    and est: "estimatedRows (analyzeJoinKeyCoverage jt (Some lp) (Some rp) (Some lt) (Some rt) pairs a b lc) = Some m"
  shows "length (loop_join jt ex cond lc rc L R) \<le> m"
proof -
  let ?lcov = "isUnique (map fst pairs) \<lparr>rel_type = lt, rel_physical = Some lp\<rparr>"
  let ?rcov = "isUnique (map snd pairs) \<lparr>rel_type = rt, rel_physical = Some rp\<rparr>"
  have left: "length (loop_join jt ex cond lc rc L R) \<le> length L" if "?rcov" "jt = Inner \<or> jt = Cross \<or> jt = LeftJoin"
  proof -
    have "length (left_out jt ex cond rc R l) \<le> 1" if "l \<in> set L" for l
      using right_matches_once [OF J isUnique_row_unique [OF side_rel_sound [OF R] \<open>?rcov\<close>] that]
      by (auto simp: left_out_def Let_def joinOutputRow_def isSemiOrAnti_def split: option.splits)
    then have "length (concat (map (left_out jt ex cond rc R) L)) \<le> length L" by (rule length_concat_le)
    then show ?thesis using that(2) by (auto simp: loop_join_left)
  qed
  have right: "length (loop_join jt ex cond lc rc L R) \<le> length R" if lcov: "?lcov" and jt: "jt = Inner \<or> jt = Cross \<or> jt = RightJoin"
  proof -
    have once: "length (filter (\<lambda>l. conditionMet cond l r) L) \<le> 1" if "r \<in> set R" for r
      using left_matches_once [OF J isUnique_row_unique [OF side_rel_sound [OF L] lcov] that] .
    have "length (right_out ex cond lc L r) \<le> 1" if "r \<in> set R" for r
      using once [OF that] by (auto simp: right_out_def Let_def)
    then have r: "length (concat (map (right_out ex cond lc L) R)) \<le> length R" by (rule length_concat_le)
    have "length (concat (map (left_out jt ex cond rc R) L)) = sum_list (map (\<lambda>l. length (filter (conditionMet cond l) R)) L)"
      if "jt = Inner \<or> jt = Cross" by (simp add: inner_out [OF that] length_concat o_def)
    also have "\<dots> = sum_list (map (\<lambda>r. length (filter (\<lambda>l. conditionMet cond l r) L)) R)" by (rule count_pairs)
    also have "\<dots> \<le> sum_list (map (\<lambda>_. 1) R)" by (rule sum_list_mono) (rule once)
    finally have "length (concat (map (left_out jt ex cond rc R) L)) \<le> length R" if "jt = Inner \<or> jt = Cross"
      using that by (simp add: sum_list_triv)
    then show ?thesis using jt r by (auto simp: loop_join_left loop_join_right)
  qed
  have cap: "length (loop_join jt ex cond lc rc L R) \<le> n"
    if "(?rcov \<and> a = Some n \<and> (jt = Inner \<or> jt = Cross \<or> jt = LeftJoin)) \<or> (?lcov \<and> b = Some n \<and> (jt = Inner \<or> jt = Cross \<or> jt = RightJoin))" for n
    using that
  proof (elim disjE [where P = "?rcov \<and> _"] conjE)
    assume "?rcov" "a = Some n" "jt = Inner \<or> jt = Cross \<or> jt = LeftJoin"
    then show ?thesis using left ab(1) le_trans by blast
  next
    assume "?lcov" "b = Some n" "jt = Inner \<or> jt = Cross \<or> jt = RightJoin"
    then show ?thesis using right ab(2) le_trans by blast
  qed
  show ?thesis
  proof (cases "jt = Inner \<or> jt = Cross")
    case True
    have "(case (if ?rcov then a else None, if ?lcov then b else None) of
        (None, e) \<Rightarrow> e | (e, None) \<Rightarrow> e | (Some l, Some r) \<Rightarrow> Some (min l r)) = Some m"
      using True est by (elim disjE) (simp_all only: analyzeJoinKeyCoverage_def Let_def join_type.case
        coverage_result.select_convs side_covered_def option.case)
    then show ?thesis using cap True by (auto simp: min_def split: option.splits if_splits)
  next
    case False
    have "(if ?rcov then a else None) = Some m \<and> jt = LeftJoin \<or> (if ?lcov then b else None) = Some m \<and> jt = RightJoin"
      using False est by (cases jt) (simp_all only: analyzeJoinKeyCoverage_def Let_def join_type.case
        coverage_result.select_convs side_covered_def option.case no_coverage_def simp_thms join_type.distinct option.distinct)
    then show ?thesis using cap by (auto split: if_splits)
  qed
qed

end

end
