(* ===== verification/Fd_Join_Facts.thy ===== *)
theory Fd_Join_Facts
  imports Fd_Join_Sound
begin

text \<open>
  The facts a join advertises hold on its output: every dependency, class, binding, domain and
  inclusion dependency the propagation keeps is true of the rows the join emits.
\<close>

section \<open>What the facts claim\<close>

definition const_value :: "(param_ref \<Rightarrow> sql_value) \<Rightarrow> constant_value \<Rightarrow> sql_value" where
  "const_value env v = (case v of ConstLiteral w \<Rightarrow> w | ConstParam p \<Rightarrow> env p)"

definition ecs_hold :: "value_eq \<Rightarrow> rows \<Rightarrow> nat list list \<Rightarrow> bool" where
  "ecs_hold V R classes \<longleftrightarrow> (\<forall>r \<in> set R. \<forall>(x, y) \<in> ec_rel classes. V x y (row_at r x) (row_at r y))"

definition binding_holds :: "(param_ref \<Rightarrow> sql_value) \<Rightarrow> col_sem \<Rightarrow> rows \<Rightarrow> constant_binding \<Rightarrow> bool" where
  "binding_holds env S R b \<longleftrightarrow> not_nan (const_value env (bind_value b)) \<and>
     (\<forall>r \<in> set R. \<forall>c \<in> set (bind_attrs b). col_cmp S c (row_at r c) (const_value env (bind_value b)) = 0)"

definition domain_holds :: "col_sem \<Rightarrow> rows \<Rightarrow> domain_constraint \<Rightarrow> bool" where
  "domain_holds S R d \<longleftrightarrow> (\<forall>r \<in> set R. let c = dom_column d; v = row_at r c in v = SqlNull \<or>
     (case dom_shape d of
        DomRange mn mx mnInc mxInc \<Rightarrow> in_range (col_cmp S c) mn mx mnInc mxInc v
      | DomEnum ws \<Rightarrow> (\<exists>w \<in> set ws. col_cmp S c v w = 0)))"

text \<open>An inclusion dependency, for the tuples the target holds.\<close>

definition ind_holds :: "(ind_target \<Rightarrow> row \<Rightarrow> bool) \<Rightarrow> rows \<Rightarrow> inclusion_dep \<Rightarrow> bool" where
  "ind_holds T R i \<longleftrightarrow> (\<forall>r \<in> set R. let t = map (row_at r) (ind_cols i) in
     nullRejecting i \<and> SqlNull \<in> set t \<or> T (ind_to i) t)"

definition facts_hold ::
  "(param_ref \<Rightarrow> sql_value) \<Rightarrow> (ind_target \<Rightarrow> row \<Rightarrow> bool) \<Rightarrow> col_sem \<Rightarrow> value_eq \<Rightarrow> rows \<Rightarrow> physical_props \<Rightarrow> bool" where
  "facts_hold env T S V R p \<longleftrightarrow> fds_hold S R (opt_list (phys_fds p)) \<and> ecs_hold V R (opt_list (equivClasses p)) \<and>
     (\<forall>b \<in> set (opt_list (constantBindings p)). binding_holds env S R b) \<and>
     (\<forall>d \<in> set (opt_list (domainConstraints p)). domain_holds S R d) \<and>
     (\<forall>i \<in> set (opt_list (phys_inds p)). ind_holds T R i)"

text \<open>The facts speak of existing columns, and determinants are sets.\<close>

definition facts_ok :: "nat \<Rightarrow> physical_props \<Rightarrow> bool" where
  "facts_ok n p \<longleftrightarrow> (\<forall>f \<in> set (opt_list (phys_fds p)). fd_cols f \<subseteq> {..<n} \<and> distinct (determinants f)) \<and>
     class_members (opt_list (equivClasses p)) \<subseteq> {..<n} \<and>
     (\<forall>b \<in> set (opt_list (constantBindings p)). set (bind_attrs b) \<subseteq> {..<n}) \<and>
     (\<forall>d \<in> set (opt_list (domainConstraints p)). dom_column d < n) \<and>
     (\<forall>i \<in> set (opt_list (phys_inds p)). set (ind_cols i) \<subseteq> {..<n})"

definition shift_values :: "nat \<Rightarrow> value_eq \<Rightarrow> value_eq" where
  "shift_values k V = (\<lambda>a b. V (a + k) (b + k))"

lemma shift_values_0 [simp]: "shift_values 0 V = V"
  by (simp add: shift_values_def)

subsection \<open>Facts of the rows an output is drawn from\<close>

lemma drawn_origin:
  "list_all2 (carries n k) Os J \<Longrightarrow> set Os \<subseteq> set R \<Longrightarrow> j \<in> set J \<Longrightarrow> \<exists>r \<in> set R. carries n k r j"
  using list_all2_origin [of "carries n k" Os J j] by blast

lemma ecs_drawn:
  assumes "list_all2 (carries n k) Os J" "set Os \<subseteq> set R" "ecs_hold (shift_values k V) R cs" "class_members cs \<subseteq> {..<n}"
  shows "ecs_hold V J (map (map (\<lambda>x. x + k)) cs)"
  unfolding ecs_hold_def
proof clarify
  fix j x y assume j: "j \<in> set J" and xy: "(x, y) \<in> ec_rel (map (map (\<lambda>x. x + k)) cs)"
  obtain x' y' where x: "x = x' + k" "y = y' + k" "(x', y') \<in> ec_rel cs" using xy by (auto simp: ec_rel_def)
  then have lt: "x' < n" "y' < n" using assms(4) by (auto simp: ec_rel_def class_members_def)
  obtain r where "r \<in> set R" "carries n k r j" using drawn_origin [OF assms(1,2) j] by blast
  then show "V x y (row_at j x) (row_at j y)" using assms(3) x lt by (auto simp: ecs_hold_def shift_values_def carries_at)
qed

lemma binding_drawn:
  assumes "list_all2 (carries n k) Os J" "set Os \<subseteq> set R" "binding_holds env (shift_sem k S) R b" "set (bind_attrs b) \<subseteq> {..<n}"
    and b': "set (bind_attrs b') = (\<lambda>c. c + k) ` set (bind_attrs b)" "bind_value b' = bind_value b"
  shows "binding_holds env S J b'"
  unfolding binding_holds_def
proof (intro conjI ballI)
  show "not_nan (const_value env (bind_value b'))" using assms(3) b' by (simp add: binding_holds_def)
  fix j c assume j: "j \<in> set J" and c: "c \<in> set (bind_attrs b')"
  obtain r where r: "r \<in> set R" "carries n k r j" using drawn_origin [OF assms(1,2) j] by blast
  obtain c' where "c = c' + k" "c' \<in> set (bind_attrs b)" using c b' by auto
  then show "col_cmp S c (row_at j c) (const_value env (bind_value b')) = 0"
    using assms(3,4) r b' carries_at [OF r(2), of c'] by (auto simp: binding_holds_def subset_iff)
qed

lemma domain_drawn:
  assumes "list_all2 (carries n k) Os J" "set Os \<subseteq> set R" "domain_holds (shift_sem k S) R d" "dom_column d < n"
  shows "domain_holds S J (d\<lparr>dom_column := dom_column d + k\<rparr>)"
  unfolding domain_holds_def
proof
  fix j assume j: "j \<in> set J"
  obtain r where r: "r \<in> set R" "carries n k r j" using drawn_origin [OF assms(1,2) j] by blast
  have "row_at j (dom_column d + k) = row_at r (dom_column d)" using carries_at [OF r(2) assms(4)] .
  then show "let c = dom_column (d\<lparr>dom_column := dom_column d + k\<rparr>); v = row_at j c in v = SqlNull \<or>
      (case dom_shape (d\<lparr>dom_column := dom_column d + k\<rparr>) of
         DomRange mn mx mnInc mxInc \<Rightarrow> in_range (col_cmp S c) mn mx mnInc mxInc v
       | DomEnum ws \<Rightarrow> (\<exists>w \<in> set ws. col_cmp S c v w = 0))"
    using assms(3) [unfolded domain_holds_def, rule_format, OF r(1)] by (simp add: Let_def split: domain_shape.splits)
qed

lemma ind_drawn:
  assumes "list_all2 (carries n k) Os J" "set Os \<subseteq> set R" "ind_holds T R i" "set (ind_cols i) \<subseteq> {..<n}"
  shows "ind_holds T J (i\<lparr>ind_cols := map (\<lambda>c. c + k) (ind_cols i)\<rparr>)"
  unfolding ind_holds_def
proof
  fix j assume j: "j \<in> set J"
  obtain r where r: "r \<in> set R" "carries n k r j" using drawn_origin [OF assms(1,2) j] by blast
  have t: "map (row_at j) (map (\<lambda>c. c + k) (ind_cols i)) = map (row_at r) (ind_cols i)"
    using assms(4) carries_at [OF r(2)] by (auto simp: subset_iff)
  have "nullRejecting i \<and> SqlNull \<in> set (map (row_at r) (ind_cols i)) \<or> T (ind_to i) (map (row_at r) (ind_cols i))"
    using assms(3) r(1) by (auto simp: ind_holds_def Let_def)
  then show "let t = map (row_at j) (ind_cols (i\<lparr>ind_cols := map (\<lambda>c. c + k) (ind_cols i)\<rparr>))
      in nullRejecting (i\<lparr>ind_cols := map (\<lambda>c. c + k) (ind_cols i)\<rparr>) \<and> SqlNull \<in> set t \<or>
         T (ind_to (i\<lparr>ind_cols := map (\<lambda>c. c + k) (ind_cols i)\<rparr>)) t"
    using t by (cases i) (simp del: map_map)
qed

subsection \<open>Merging facts\<close>

lemma ec_rel_mergeEquivClasses: "ec_rel (mergeEquivClasses a b) \<subseteq> (ec_rel (a @ b))\<^sup>+"
proof -
  let ?m = "merge_classes (map normalizeClass (a @ b))"
  have "ec_rel (mergeEquivClasses a b) \<subseteq> ec_rel ?m" by (auto simp: ec_rel_def mergeEquivClasses_def)
  also have "\<dots> \<subseteq> (ec_rel ?m)\<^sup>+" by auto
  finally show ?thesis using merge_classes_props [of "map normalizeClass (a @ b)"] by (simp only: ec_rel_normalize)
qed

lemma set_merge_binding:
  "b \<in> set (merge_binding I nxt bs) \<Longrightarrow> b = nxt \<or> b \<in> set bs \<or>
   (\<exists>c \<in> set bs. constantValueEquals I (bind_value c) (bind_value nxt) \<and>
      b = new_binding (unionAttrs (bind_attrs c) (bind_attrs nxt)) (bind_value c))"
  by (induction bs) (auto split: if_splits)

lemma set_unionAttrs [simp]: "set (unionAttrs a b) = set a \<union> set b"
  by (auto simp: unionAttrs_def)

lemma set_capped: "set (if P then xs else take k xs) \<subseteq> set xs"
  by (auto dest: in_set_takeD)

lemma domains_subset: "set (mergeDomainConstraints I a b) \<subseteq> set a \<union> set b"
proof -
  have "set (fold (\<lambda>nxt result. if list_ex (\<lambda>existing. domainConstraintEquals I existing nxt) result then result
      else result @ [nxt]) b a) \<subseteq> set a \<union> set b"
  proof (induction b arbitrary: a)
    case (Cons d b)
    show ?case using Cons [of a] Cons [of "a @ [d]"] by auto
  qed simp
  then show ?thesis unfolding mergeDomainConstraints_def enforceDomainCap_def by (rule subset_trans [OF set_capped])
qed

lemma inds_subset: "set (mergeInds a b cap) \<subseteq> set a \<union> set b"
proof -
  have add: "set (addInd a i cap) \<subseteq> insert i (set a)" for a i
    unfolding addInd_def enforceIndCap_def Let_def by (rule subset_trans [OF set_capped]) auto
  show ?thesis unfolding mergeInds_def
  proof (induction b arbitrary: a)
    case (Cons i b)
    show ?case using Cons [of "addInd a i cap"] add [of a i] by auto
  qed simp
qed

context value_world
begin

lemma ecs_closure:
  assumes "rows_ok J" "ecs_hold V J cs" "(x, y) \<in> (ec_rel cs)\<^sup>+" "j \<in> set J"
  shows "V x y (row_at j x) (row_at j y)"
  using assms(3)
proof induction
  case (base y)
  then show ?case using assms(2,4) by (auto simp: ecs_hold_def)
next
  case (step y z)
  have "V y z (row_at j y) (row_at j z)" using step(2) assms(2,4) by (auto simp: ecs_hold_def)
  with step(3) show ?case by (rule value_trans)
qed

lemma ecs_merge:
  assumes "rows_ok J" "ecs_hold V J a" "ecs_hold V J b"
  shows "ecs_hold V J (mergeEquivClasses a b)"
proof -
  have "ec_rel (a @ b) = ec_rel a \<union> ec_rel b" by (auto simp: ec_rel_def)
  then have ab: "ecs_hold V J (a @ b)" using assms(2,3) unfolding ecs_hold_def by blast
  show ?thesis unfolding ecs_hold_def
    using ec_rel_mergeEquivClasses [of a b] ecs_closure [OF assms(1) ab] by blast
qed

lemma ecs_add:
  assumes "rows_ok J" "ecs_hold V J cs" "\<And>j. j \<in> set J \<Longrightarrow> V x y (row_at j x) (row_at j y)"
  shows "ecs_hold V J (addEquivalence cs x y)"
proof -
  have "ecs_hold V J [[x, y]]"
    using assms(3) value_sym value_refl rows_ok_at [OF assms(1)] by (auto simp: ecs_hold_def ec_rel_def)
  then show ?thesis using assms(2) ecs_merge [OF assms(1)] by (simp add: addEquivalence_def)
qed

lemma constant_equal:
  assumes "constantValueEquals I v w" "not_nan x"
  shows "col_cmp S c x (const_value env v) = 0 \<longleftrightarrow> col_cmp S c x (const_value env w) = 0"
  using assms cmp_equal_literal(1) by (auto simp: constantValueEquals_def const_value_def split: constant_value.splits)

lemma bindings_merge:
  assumes ok: "rows_ok J" and a: "\<forall>b \<in> set a. binding_holds env S J b" and b: "\<forall>b \<in> set b. binding_holds env S J b"
  shows "\<forall>b \<in> set (mergeConstantBindings I a b). binding_holds env S J b"
proof -
  have norm: "binding_holds env S J (normalizeBinding b)" if "binding_holds env S J b" for b
    using that by (simp add: binding_holds_def normalizeBinding_def new_binding_def)
  have step: "\<forall>b \<in> set (merge_binding I n bs). binding_holds env S J b"
    if "\<forall>b \<in> set bs. binding_holds env S J b" "binding_holds env S J n" for n bs
  proof
    fix b assume "b \<in> set (merge_binding I n bs)"
    then consider "b = n \<or> b \<in> set bs" | c where "c \<in> set bs" "constantValueEquals I (bind_value c) (bind_value n)"
        "b = new_binding (unionAttrs (bind_attrs c) (bind_attrs n)) (bind_value c)"
      using set_merge_binding by blast
    then show "binding_holds env S J b"
    proof cases
      case 2
      then have "binding_holds env S J c" using that(1) by blast
      then show ?thesis using 2 that(2) constant_equal [OF 2(2) rows_ok_at [OF ok]]
        by (auto simp: binding_holds_def new_binding_def)
    qed (use that in blast)
  qed
  have "\<forall>b \<in> set (fold (\<lambda>raw. merge_binding I (normalizeBinding raw)) b bs). binding_holds env S J b"
    if "\<forall>b \<in> set bs. binding_holds env S J b" for bs
    using that b
  proof (induction b arbitrary: bs)
    case (Cons x b)
    have "\<forall>b \<in> set (merge_binding I (normalizeBinding x) bs). binding_holds env S J b"
      by (rule step [OF Cons.prems(1) norm]) (use Cons.prems(2) in simp)
    from Cons.IH [OF this] show ?case using Cons.prems(2) by simp
  qed simp
  from this [of "map normalizeBinding a"] have "\<forall>b \<in> set (fold (\<lambda>raw. merge_binding I (normalizeBinding raw)) b
      (map normalizeBinding a)). binding_holds env S J b" using a norm by simp
  then show ?thesis unfolding mergeConstantBindings_def enforceBindingCap_def
    by (intro ballI) (drule set_capped [THEN subsetD], erule (1) bspec)
qed

lemma bindings_close:
  assumes ok: "rows_ok J" and ecs: "ecs_hold V J ecs" and b: "\<forall>b \<in> set bs. binding_holds env S J b"
  shows "\<forall>b \<in> set (closeConstantBindingsOverEcs I bs ecs). binding_holds env S J b"
proof -
  have expand: "binding_holds env S J (new_binding (sort (expand_loop ecs (new_set (bind_attrs b)))) (bind_value b))"
    if h: "binding_holds env S J b" for b
    unfolding binding_holds_def
  proof (intro conjI ballI)
    show "not_nan (const_value env (bind_value (new_binding (sort (expand_loop ecs (new_set (bind_attrs b)))) (bind_value b))))"
      using h by (simp add: binding_holds_def new_binding_def)
    fix j c assume j: "j \<in> set J" and "c \<in> set (bind_attrs (new_binding (sort (expand_loop ecs (new_set (bind_attrs b)))) (bind_value b)))"
    then have "c \<in> (ec_rel ecs)\<^sup>* `` set (bind_attrs b)"
      using expand_loop_set [of "new_set (bind_attrs b)" ecs "set (bind_attrs b)"] by (auto simp: new_binding_def)
    then obtain d where d: "d \<in> set (bind_attrs b)" "d = c \<or> (d, c) \<in> (ec_rel ecs)\<^sup>+" by (auto simp: rtrancl_eq_or_trancl)
    have 0: "col_cmp S d (row_at j d) (const_value env (bind_value b)) = 0" "not_nan (const_value env (bind_value b))"
      using h j d(1) by (auto simp: binding_holds_def)
    show "col_cmp S c (row_at j c) (const_value env (bind_value (new_binding (sort (expand_loop ecs (new_set (bind_attrs b)))) (bind_value b)))) = 0"
      using d(2) 0 value_const [OF ecs_closure [OF ok ecs _ j]] by (auto simp: new_binding_def)
  qed
  have norm: "binding_holds env S J (normalizeBinding b)" if "binding_holds env S J b" for b
    using that by (simp add: binding_holds_def normalizeBinding_def new_binding_def)
  show ?thesis unfolding closeConstantBindingsOverEcs_def
    using bindings_merge [OF ok, of "map (\<lambda>b. new_binding (sort (expand_loop ecs (new_set (bind_attrs b)))) (bind_value b)) bs" env "[]"]
      expand norm b by auto
qed

subsection \<open>Dependencies\<close>

lemma pair_fd:
  assumes "rows_ok J" "\<And>j. j \<in> set J \<Longrightarrow> V x y (row_at j x) (row_at j y)"
  shows "fd_holds S J (new_fd [x] [y] Determination)"
proof -
  have "col_cmp S y (row_at r y) (row_at s y) = 0"
    if rs: "r \<in> set J" "s \<in> set J" and c: "col_cmp S x (row_at r x) (row_at s x) = 0" for r s
    by (rule value_transfer [OF assms(2) [OF rs(1)] assms(2) [OF rs(2)] _ _ _ _ c])
      (simp_all add: rows_ok_at [OF assms(1) rs(1)] rows_ok_at [OF assms(1) rs(2)])
  then show ?thesis by (simp add: fd_holds_def new_fd_def determination_def agree_def)
qed

lemma key_fd:
  assumes "rows_ok J" "row_unique S J (set k)" "superkeyToFd k n = Some f"
  shows "fd_holds S J f" "determinants f = k"
  using assms(3) unique_determination [OF assms(1,2)] assms(2)
  by (auto simp: superkeyToFd_def Let_def new_fd_def fd_holds_def split: if_splits)

lemma withKeyFds_hold:
  assumes I: "lawful_refs I" and ok: "rows_ok J" and keys: "\<forall>k \<in> set keys. row_unique S J (set k) \<and> distinct k"
    and fds: "fds_hold S J fds"
  shows "fds_hold S J (withKeyFds I keys n fds)"
proof -
  have "fds_hold S J (fold (\<lambda>key out. case superkeyToFd key n of None \<Rightarrow> out | Some f \<Rightarrow> addFd I out f opts) ks out)"
    if "set ks \<subseteq> set keys" "fds_hold S J out" for ks out opts
    using that
  proof (induction ks arbitrary: out)
    case (Cons k ks)
    have "fds_hold S J (case superkeyToFd k n of None \<Rightarrow> out | Some f \<Rightarrow> addFd I out f opts)"
    proof (cases "superkeyToFd k n")
      case (Some f)
      have k: "row_unique S J (set k)" "distinct k" using keys Cons.prems(1) by auto
      show ?thesis using addFd_fds_hold [OF I ok key_fd(1) [OF ok k(1) Some]] key_fd(2) [OF ok k(1) Some] k(2) Cons.prems(2) Some
        by simp
    qed (use Cons.prems in simp)
    then show ?case using Cons.IH Cons.prems(1) by simp
  qed simp
  then show ?thesis using fds unfolding withKeyFds_def by blast
qed

lemma add_pairs_hold:
  assumes I: "lawful_refs I" and ok: "rows_ok J"
    and V: "\<And>p j. p \<in> set ps \<Longrightarrow> j \<in> set J \<Longrightarrow> V (fst p) (snd p + lc) (row_at j (fst p)) (row_at j (snd p + lc))"
    and st: "fds_hold S J (fst st)" "ecs_hold V J (snd st)"
  shows "fds_hold S J (fst (fold (add_pair I keys lc) ps st))" "ecs_hold V J (snd (fold (add_pair I keys lc) ps st))"
proof -
  have "fds_hold S J (fst (fold (add_pair I keys lc) ps st)) \<and> ecs_hold V J (snd (fold (add_pair I keys lc) ps st))"
    using V st
  proof (induction ps arbitrary: st)
    case (Cons p ps)
    have fwd: "V (fst p) (snd p + lc) (row_at j (fst p)) (row_at j (snd p + lc))" if "j \<in> set J" for j
      using Cons.prems(1) [of p j] that by simp
    note bwd = value_sym [OF fwd]
    have f1: "fds_hold S J (addFd I (fst st) (new_fd [fst p] [snd p + lc] Determination) (join_opts keys))"
      by (rule addFd_fds_hold [OF I ok pair_fd [OF ok fwd]]) (simp_all add: new_fd_def Cons.prems)
    have f2: "fds_hold S J (fst (add_pair I keys lc p st))" unfolding add_pair_def Let_def fst_conv
      by (rule addFd_fds_hold [OF I ok pair_fd [OF ok bwd] _ f1]) (simp_all add: new_fd_def)
    have e: "ecs_hold V J (snd (add_pair I keys lc p st))" unfolding add_pair_def Let_def snd_conv
      by (rule ecs_add [OF ok Cons.prems(3) fwd])
    show ?case using Cons.IH [OF Cons.prems(1) f2 e] by simp
  qed simp
  then show "fds_hold S J (fst (fold (add_pair I keys lc) ps st))" "ecs_hold V J (snd (fold (add_pair I keys lc) ps st))"
    by simp_all
qed

lemma drawn_member:
  assumes "f \<in> set (if pres then fs else downgradeUniqueFds fs)"
  shows "\<exists>g \<in> set fs. (f = g \<or> f = g\<lparr>fd_kind := Determination\<rparr>) \<and> (pres \<or> fd_kind f = Determination)"
proof (cases pres)
  case False
  then obtain g where g: "g \<in> set fs" "f = (if fd_kind g = Unique then g\<lparr>fd_kind := Determination\<rparr> else g)"
    using assms by (auto simp: downgradeUniqueFds_def)
  show ?thesis using g by (cases "fd_kind g") auto
qed (use assms in auto)

lemma fds_drawn:
  assumes d: "list_all2 (carries n k) Os J" "set Os \<subseteq> set R" and ok: "rows_ok R"
    and fs: "fds_hold (shift_sem k S) R fs" "\<forall>f \<in> set fs. fd_cols f \<subseteq> {..<n}"
    and K: "pres \<Longrightarrow> \<exists>K. row_unique (shift_sem k S) Os K"
  shows "fds_hold S J (shiftFds (if pres then fs else downgradeUniqueFds fs) k)"
proof -
  have law: "column_world I (shift_sem k S)"
    using columns_comparator columns_strict columns_pair_sym by (intro column_world.intro) simp_all
  let ?fs = "if pres then fs else downgradeUniqueFds fs"
  have "fd_holds S J (shift_fd k f)" if f: "f \<in> set ?fs" for f
  proof (rule fd_holds_shift [OF d(1)])
    obtain g where g: "g \<in> set fs" "f = g \<or> f = g\<lparr>fd_kind := Determination\<rparr>" "pres \<or> fd_kind f = Determination"
      using drawn_member [OF f] by blast
    then have gf: "fd_holds (shift_sem k S) R g" "fd_cols g \<subseteq> {..<n}" using fs by (auto simp: fds_hold_def)
    show "fd_cols f \<subseteq> {..<n}" using g(2) gf(2) by (auto simp: fd_cols_def)
    have "fd_holds (shift_sem k S) R f" using g(2) gf(1) by (auto simp: fd_holds_def)
    then show "fd_holds (shift_sem k S) Os f"
      by (rule column_world.fd_holds_drawn [OF law ok d(2)]) (use g(3) K in auto)
  qed
  then show ?thesis by (auto simp: fds_hold_def shiftFds_shift)
qed

end

subsection \<open>Where the rows of a join come from\<close>

lemma rows_ok_append: "rows_ok [xs @ ys] \<longleftrightarrow> rows_ok [xs] \<and> rows_ok [ys]"
  by (auto simp: rows_ok_def)

lemma rows_ok_flags [simp]: "rows_ok [matchedFlags ex]" "rows_ok [flagsForDroppedSide ex side]" "rows_ok [replicate n SqlNull]"
  by (auto simp: rows_ok_def matchedFlags_def flagsForDroppedSide_def split: option.splits)

lemma rows_ok_members: "rows_ok R \<longleftrightarrow> (\<forall>r \<in> set R. rows_ok [r])"
  by (simp add: rows_ok_def)

lemma rows_ok_join:
  assumes "rows_ok L" "rows_ok R" "jt \<noteq> FullJoin"
  shows "rows_ok (loop_join jt ex cond lc rc L R)"
proof -
  note members = assms(1,2) [THEN rows_ok_members [THEN iffD1]]
  have l: "rows_ok [j]" if "l \<in> set L" "j \<in> set (left_out jt ex cond rc R l)" for l j
    using that members by (auto simp: left_out_def joinOutputRow_def Let_def rows_ok_append split: if_splits option.splits)
  have r: "rows_ok [j]" if "r \<in> set R" "j \<in> set (right_out ex cond lc L r)" for r j
    using that members by (auto simp: right_out_def Let_def rows_ok_append split: if_splits)
  show ?thesis
  proof (cases "jt = RightJoin")
    case True
    then show ?thesis by (intro rows_ok_members [THEN iffD2]) (use r in \<open>auto simp: loop_join_right\<close>)
  next
    case False
    then show ?thesis by (intro rows_ok_members [THEN iffD2]) (use l assms(3) in \<open>auto simp: loop_join_left\<close>)
  qed
qed

text \<open>The draws: left rows of a left-driven join, right rows of an inner and of a right join.\<close>

lemma drawn_left:
  assumes "join_inputs V lc rc L R cond pairs" "jt \<noteq> RightJoin" "jt \<noteq> FullJoin"
  shows "list_all2 (carries lc 0) (origins (left_out jt ex cond rc R) L) (loop_join jt ex cond lc rc L R)"
  unfolding loop_join_left [OF assms(2,3)]
  by (rule origins_carried, rule left_out_carries) (use join_inputsD(3) [OF assms(1)] in auto)

lemma drawn_right:
  assumes "join_inputs V lc rc L R cond pairs"
  shows "list_all2 (carries rc lc) (origins (right_out ex cond lc L) R) (loop_join RightJoin ex cond lc rc L R)"
  unfolding loop_join_right
  by (rule origins_carried, rule right_out_carries) (use join_inputsD(3,4) [OF assms(1)] in auto)

lemma list_all2_concat_map:
  "(\<And>x. x \<in> set X \<Longrightarrow> list_all2 P (f x) (g x)) \<Longrightarrow> list_all2 P (concat (map f X)) (concat (map g X))"
  by (induction X) (auto intro: list_all2_appendI)

lemma drawn_inner_right:
  assumes J: "join_inputs V lc rc L R cond pairs" and jt: "jt = Inner \<or> jt = Cross"
  shows "list_all2 (carries rc lc) (concat (map (\<lambda>l. filter (conditionMet cond l) R) L)) (loop_join jt ex cond lc rc L R)"
proof -
  have jt': "jt \<noteq> RightJoin" "jt \<noteq> FullJoin" using jt by auto
  have "carries rc lc r (l @ r @ xs)" if "l \<in> set L" "r \<in> set R" for l r xs
    using carries_right [of r l] join_inputsD(3,4) [OF J] that by auto
  then have "list_all2 (carries rc lc) (filter (conditionMet cond l) R) (left_out jt ex cond rc R l)" if "l \<in> set L" for l
    using that by (auto simp: inner_out [OF jt] list_all2_map2 list_all2_same)
  then show ?thesis unfolding loop_join_left [OF jt'] by (rule list_all2_concat_map)
qed

lemma inner_pairs:
  assumes J: "join_inputs V lc rc L R cond pairs" and jt: "jt = Inner \<or> jt = Cross"
    and j: "j \<in> set (loop_join jt ex cond lc rc L R)" and p: "p \<in> set pairs"
  shows "V (fst p) (snd p + lc) (row_at j (fst p)) (row_at j (snd p + lc))"
proof -
  have jt': "jt \<noteq> RightJoin" "jt \<noteq> FullJoin" using jt by auto
  obtain l r where lr: "l \<in> set L" "r \<in> set R" "conditionMet cond l r" "j = l @ r @ matchedFlags ex"
    using j by (auto simp: loop_join_left [OF jt'] inner_out [OF jt])
  have len: "length l = lc" "length r = rc" using join_inputsD(3,4) [OF J] lr by auto
  have "row_at j (fst p) = row_at l (fst p)" "row_at j (snd p + lc) = row_at r (snd p)"
    using join_inputsD(5) [OF J p] len by (simp_all add: lr(4) row_at_append)
  then show ?thesis using join_inputsD(6) [OF J lr(1-3) p] by simp
qed

lemma keysOf_distinct: "k \<in> set (keysOf rel) \<Longrightarrow> distinct k"
proof -
  assume "k \<in> set (keysOf rel)"
  then obtain keys where "k \<in> set (normalizeKeys keys) \<or> k = [0..<columnCount (rel_type rel)]"
    by (auto simp: keysOf_def Let_def allColumns_def split: if_splits)
  then show ?thesis using normalizeKeys_props(1) [of k keys] by (auto simp: strict_sorted_iff)
qed

lemma preserved_distinct:
  assumes L: "side_ok S L lc lp lt"
    and k: "k \<in> set (preservedKeys (analyzeJoinKeyCoverage jt (Some lp) (Some rp) (Some lt) (Some rt) pairs a b lc))"
  shows "distinct k"
  using k
proof (cases rule: preserved_cases)
  case (product l r)
  have "set l \<subseteq> {..<lc}" by (rule keysOf_range [OF L product(3)])
  then show ?thesis using product(2) keysOf_distinct [OF product(3)] keysOf_distinct [OF product(4)]
    by (auto simp: distinct_map inj_on_def)
qed (auto simp: distinct_map inj_on_def dest: keysOf_distinct)

text \<open>A preserved key within a side is a key of the rows drawn from it.\<close>

lemma preserved_drawn:
  assumes d: "list_all2 (carries n k) Os J" and keys: "\<forall>key \<in> set keys. row_unique S J (set key) \<and> set key \<subseteq> {..<m}"
    and pres: "list_ex (list_all (\<lambda>i. k \<le> i \<and> i < k + n \<or> m \<le> i)) keys"
  shows "\<exists>K. row_unique (shift_sem k S) Os K"
proof -
  obtain key where key: "key \<in> set keys" "\<forall>i \<in> set key. k \<le> i \<and> i < k + n \<or> m \<le> i"
    using pres by (auto simp: list_ex_iff list_all_iff)
  have in': "\<forall>i \<in> set key. k \<le> i \<and> i < k + n" using key keys by fastforce
  let ?K = "(\<lambda>i. i - k) ` set key"
  have sub: "?K \<subseteq> {..<n}" using in' by fastforce
  have "(\<lambda>c. c + k) ` ?K = set key" using in' by (force simp: image_image)
  then show ?thesis using row_unique_shift [OF d sub, of S] keys key(1) by auto
qed

section \<open>The propagated facts hold\<close>

lemma phys_list_Some [simp]: "phys_list field (Some p) = opt_list (field p)"
  by (simp add: phys_list_def)

lemma opt_list_non_empty [simp]: "opt_list (non_empty xs) = xs" "opt_list None = []"
  by (simp_all add: opt_list_def non_empty_def)

lemma facts_hold_wrap:
  "facts_hold env T S V J ((wrap_facts fds ecs bs ds)\<lparr>phys_inds := non_empty inds\<rparr>) \<longleftrightarrow>
     fds_hold S J fds \<and> ecs_hold V J ecs \<and> (\<forall>b \<in> set bs. binding_holds env S J b) \<and>
     (\<forall>d \<in> set ds. domain_holds S J d) \<and> (\<forall>i \<in> set inds. ind_holds T J i)"
  by (simp add: facts_hold_def wrap_facts_def)

context value_world
begin

lemma side_facts:
  assumes d: "list_all2 (carries n k) Os J" "set Os \<subseteq> set R" "rows_ok R"
    and F: "facts_hold env T (shift_sem k S) (shift_values k V) R p" "facts_ok n p"
    and K: "pres \<Longrightarrow> \<exists>K. row_unique (shift_sem k S) Os K"
  shows "fds_hold S J (shiftFds (if pres then opt_list (phys_fds p) else downgradeUniqueFds (opt_list (phys_fds p))) k)"
    "ecs_hold V J (shiftEquivClasses (opt_list (equivClasses p)) k)"
    "\<forall>b \<in> set (shiftConstantBindings (opt_list (constantBindings p)) k). binding_holds env S J b"
    "k = 0 \<Longrightarrow> \<forall>b \<in> set (opt_list (constantBindings p)). binding_holds env S J b"
    "\<forall>d \<in> set (shiftDomainConstraints (opt_list (domainConstraints p)) k). domain_holds S J d"
    "\<forall>i \<in> set (shiftInds (opt_list (phys_inds p)) k). ind_holds T J i"
proof -
  note hold = F(1) [unfolded facts_hold_def] and ok = F(2) [unfolded facts_ok_def]
  show "fds_hold S J (shiftFds (if pres then opt_list (phys_fds p) else downgradeUniqueFds (opt_list (phys_fds p))) k)"
    by (rule fds_drawn [OF d _ _ K]) (use hold ok in auto)
  have "shiftEquivClasses cs k = map (map (\<lambda>x. x + k)) cs" for cs
    by (auto simp: shiftEquivClasses_def intro!: map_idI [symmetric])
  then show "ecs_hold V J (shiftEquivClasses (opt_list (equivClasses p)) k)"
    using ecs_drawn [OF d(1,2)] hold ok by simp
  have b: "binding_holds env S J b'"
    if "b \<in> set (opt_list (constantBindings p))" "set (bind_attrs b') = (\<lambda>c. c + k) ` set (bind_attrs b)" "bind_value b' = bind_value b" for b b'
    using hold ok that by (intro binding_drawn [OF d(1,2) _ _ that(2,3)]) auto
  show "\<forall>b \<in> set (shiftConstantBindings (opt_list (constantBindings p)) k). binding_holds env S J b"
    by (auto simp: shiftConstantBindings_def normalizeBinding_def new_binding_def intro: b)
  show "\<forall>b \<in> set (opt_list (constantBindings p)). binding_holds env S J b" if "k = 0" using b that by simp
  have sel: "x\<lparr>dom_column := dom_column x + 0\<rparr> = x" "y\<lparr>ind_cols := map (\<lambda>c. c + 0) (ind_cols y)\<rparr> = y" for x :: domain_constraint and y :: inclusion_dep
    by simp_all
  have dom: "domain_holds S J (x\<lparr>dom_column := dom_column x + k\<rparr>)" if "x \<in> set (opt_list (domainConstraints p))" for x
    using hold ok that by (intro domain_drawn [OF d(1,2)]) auto
  then show "\<forall>d \<in> set (shiftDomainConstraints (opt_list (domainConstraints p)) k). domain_holds S J d"
    using sel(1) by (cases "k = 0") (fastforce simp: shiftDomainConstraints_def)+
  have ind: "ind_holds T J (x\<lparr>ind_cols := map (\<lambda>c. c + k) (ind_cols x)\<rparr>)" if "x \<in> set (opt_list (phys_inds p))" for x
    using hold ok that by (intro ind_drawn [OF d(1,2)]) auto
  then show "\<forall>i \<in> set (shiftInds (opt_list (phys_inds p)) k). ind_holds T J i"
    using sel(2) by (cases "k = 0") (fastforce simp: shiftInds_def)+
qed

lemma inner_facts:
  assumes I: "lawful_refs I" and ok: "rows_ok J"
    and V: "\<And>p j. p \<in> set pairs \<Longrightarrow> j \<in> set J \<Longrightarrow> V (fst p) (snd p + lc) (row_at j (fst p)) (row_at j (snd p + lc))"
    and keys: "\<forall>k \<in> set keys. row_unique S J (set k) \<and> distinct k"
    and l: "fds_hold S J lf" "ecs_hold V J le" "\<forall>b \<in> set lb. binding_holds env S J b" "\<forall>d \<in> set ld. domain_holds S J d"
      "\<forall>i \<in> set li. ind_holds T J i"
    and r: "fds_hold S J (shiftFds rf lc)" "ecs_hold V J (shiftEquivClasses re lc)"
      "\<forall>b \<in> set (shiftConstantBindings rb lc). binding_holds env S J b"
      "\<forall>d \<in> set (shiftDomainConstraints rd lc). domain_holds S J d" "\<forall>i \<in> set (shiftInds ri lc). ind_holds T J i"
    and dist: "\<forall>f \<in> set rf. distinct (determinants f)"
  shows "facts_hold env T S V J ((join_inner I pairs lc n keys lf rf le re lb rb ld rd)\<lparr>phys_inds :=
    non_empty (mergeInds li (shiftInds ri lc) None)\<rparr>)"
proof -
  have "\<forall>f \<in> set (shiftFds rf lc). distinct (determinants f)"
    using dist by (auto simp: shiftFds_shift distinct_map inj_on_def)
  then have f0: "fds_hold S J (mergeFds I lf (shiftFds rf lc) (join_opts keys))"
    by (rule mergeFds_fds_hold [OF I ok l(1) r(1)])
  let ?st = "(mergeFds I lf (shiftFds rf lc) (join_opts keys), mergeEquivClasses le (shiftEquivClasses re lc))"
  have st: "fds_hold S J (fst ?st)" "ecs_hold V J (snd ?st)" using f0 ecs_merge [OF ok l(2) r(2)] by simp_all
  note paired = add_pairs_hold [OF I ok V st]
  show ?thesis unfolding join_inner_def Let_def facts_hold_wrap
    using withKeyFds_hold [OF I ok keys paired(1)] paired(2) bindings_close [OF ok paired(2) bindings_merge [OF ok l(3) r(3)]]
      domains_subset [of I ld "shiftDomainConstraints rd lc"] inds_subset [of li "shiftInds ri lc" None] l(4,5) r(4,5)
    by blast
qed

text \<open>A semi or anti join only drops left rows, so their uniqueness claims survive as they are.\<close>

lemma semi_fds:
  assumes J: "join_inputs V lc rc L R cond pairs" and jt: "isSemiOrAnti jt"
    and f: "fds_hold S L fs" "\<forall>f \<in> set fs. fd_cols f \<subseteq> {..<lc}"
  shows "fds_hold S (loop_join jt ex cond lc rc L R) fs"
proof -
  have jt': "jt \<noteq> RightJoin" "jt \<noteq> FullJoin" using jt by (auto simp: isSemiOrAnti_def)
  have "origins (left_out jt ex cond rc R) L = filter (\<lambda>l. (filter (conditionMet cond l) R \<noteq> []) = (jt = Semi)) L"
    using jt by (induction L) (auto simp: origins_def left_out_def joinOutputRow_def isSemiOrAnti_def Let_def)
  then have "fd_holds (shift_sem 0 S) (origins (left_out jt ex cond rc R) L) g" if "g \<in> set fs" for g
    using f(1) that by (simp add: fds_hold_def fd_holds_filter)
  then have "fds_hold S (loop_join jt ex cond lc rc L R) (shiftFds fs 0)"
    using fd_holds_shift [OF drawn_left [OF J jt']] f(2) unfolding shiftFds_shift by (auto simp: fds_hold_def)
  then show ?thesis by (simp add: shiftFds_def)
qed

lemma join_facts:
  assumes I: "lawful_refs I" and J: "join_inputs V lc rc L R cond pairs"
    and lf: "facts_hold env T S V L lp" "facts_ok lc lp"
    and rf: "facts_hold env T (shift_sem lc S) (shift_values lc V) R rp" "facts_ok rc rp"
    and keys: "\<forall>k \<in> set keys. row_unique S (loop_join jt ex cond lc rc L R) (set k) \<and> distinct k \<and> set k \<subseteq> {..<lc + rc}"
  shows "facts_hold env T S V (loop_join jt ex cond lc rc L R)
    ((propagateJoinFds I jt (Some lp) (Some rp) pairs lc n keys)\<lparr>phys_inds := propagateJoinInds jt (Some lp) (Some rp) lc\<rparr>)"
proof -
  let ?J = "loop_join jt ex cond lc rc L R"
  note in' = join_inputsD [OF J]
  have k: "\<forall>k \<in> set keys. row_unique S ?J (set k) \<and> distinct k" using keys by blast
  have kl: "\<exists>K. row_unique (shift_sem 0 S) Os K"
    if "list_all2 (carries lc 0) Os ?J" "list_ex (list_all (\<lambda>i. i < lc)) keys" for Os
    by (rule preserved_drawn [OF that(1), of keys S "lc + rc"]) (use keys that(2) in \<open>auto simp: list_ex_iff list_all_iff\<close>)
  have kr: "\<exists>K. row_unique (shift_sem lc S) Os K"
    if "list_all2 (carries rc lc) Os ?J" "list_ex (list_all (\<lambda>i. lc \<le> i)) keys" for Os
    by (rule preserved_drawn [OF that(1), of keys S "lc + rc"]) (use keys that(2) in \<open>fastforce simp: list_ex_iff list_all_iff\<close>)+
  have left: "fds_hold S ?J (if pres then opt_list (phys_fds lp) else downgradeUniqueFds (opt_list (phys_fds lp)))"
      "ecs_hold V ?J (opt_list (equivClasses lp))" "\<forall>b \<in> set (opt_list (constantBindings lp)). binding_holds env S ?J b"
      "\<forall>d \<in> set (opt_list (domainConstraints lp)). domain_holds S ?J d" "\<forall>i \<in> set (opt_list (phys_inds lp)). ind_holds T ?J i"
    if jt: "jt \<noteq> RightJoin" "jt \<noteq> FullJoin" and pres: "pres \<Longrightarrow> \<exists>K. row_unique (shift_sem 0 S) (origins (left_out jt ex cond rc R) L) K" for pres
    using side_facts [OF drawn_left [OF J jt] set_origins in'(1), of env T lp pres] lf pres
    by (simp_all add: shiftFds_def shiftEquivClasses_def shiftDomainConstraints_def shiftInds_def)
  have leftp: "fds_hold S ?J (if list_ex (list_all (\<lambda>i. i < lc)) keys then opt_list (phys_fds lp) else downgradeUniqueFds (opt_list (phys_fds lp)))"
    if "jt \<noteq> RightJoin" "jt \<noteq> FullJoin" by (rule left(1) [OF that]) (rule kl [OF drawn_left [OF J that]])
  have right: "fds_hold S ?J (shiftFds (if list_ex (list_all (\<lambda>i. lc \<le> i)) keys then opt_list (phys_fds rp)
        else downgradeUniqueFds (opt_list (phys_fds rp))) lc)"
      "ecs_hold V ?J (shiftEquivClasses (opt_list (equivClasses rp)) lc)"
      "\<forall>b \<in> set (shiftConstantBindings (opt_list (constantBindings rp)) lc). binding_holds env S ?J b"
      "\<forall>d \<in> set (shiftDomainConstraints (opt_list (domainConstraints rp)) lc). domain_holds S ?J d"
      "\<forall>i \<in> set (shiftInds (opt_list (phys_inds rp)) lc). ind_holds T ?J i"
    if Os: "list_all2 (carries rc lc) Os ?J" "set Os \<subseteq> set R" for Os
    using kr [OF Os(1)] by (intro side_facts [OF Os in'(2) rf]; blast)+
  have okJ: "rows_ok ?J" if "jt \<noteq> FullJoin" using rows_ok_join [OF in'(1,2) that] .
  have semi: "fds_hold S ?J (opt_list (phys_fds lp))" if "isSemiOrAnti jt"
    by (rule semi_fds [OF J that]) (use lf in \<open>auto simp: facts_hold_def facts_ok_def\<close>)
  have inner: ?thesis if jt: "jt = Inner \<or> jt = Cross"
  proof -
    have jt': "jt \<noteq> RightJoin" "jt \<noteq> FullJoin" using jt by auto
    have sub: "set (concat (map (\<lambda>l. filter (conditionMet cond l) R) L)) \<subseteq> set R" by auto
    have dist: "\<forall>f \<in> set (if pres then opt_list (phys_fds rp) else downgradeUniqueFds (opt_list (phys_fds rp))). distinct (determinants f)" for pres
      using rf(2) by (auto simp: facts_ok_def downgradeUniqueFds_def)
    have "facts_hold env T S V ?J ((join_inner I pairs lc n keys
        (if list_ex (list_all (\<lambda>i. i < lc)) keys then opt_list (phys_fds lp) else downgradeUniqueFds (opt_list (phys_fds lp)))
        (if list_ex (list_all (\<lambda>i. lc \<le> i)) keys then opt_list (phys_fds rp) else downgradeUniqueFds (opt_list (phys_fds rp)))
        (opt_list (equivClasses lp)) (opt_list (equivClasses rp)) (opt_list (constantBindings lp)) (opt_list (constantBindings rp))
        (opt_list (domainConstraints lp)) (opt_list (domainConstraints rp)))
        \<lparr>phys_inds := non_empty (mergeInds (opt_list (phys_inds lp)) (shiftInds (opt_list (phys_inds rp)) lc) None)\<rparr>)"
      using jt' by (intro inner_facts [OF I okJ inner_pairs [OF J jt] k leftp left(2-5) right [OF drawn_inner_right [OF J jt] sub] dist]) simp_all
    then show ?thesis using jt by (auto simp: propagateJoinFds_def propagateJoinInds_def Let_def)
  qed
  show ?thesis
  proof (cases jt)
    case LeftJoin
    then show ?thesis
      using withKeyFds_hold [OF I okJ k leftp] left(2-5) [of False] facts_hold_wrap
      by (simp add: propagateJoinFds_def propagateJoinInds_def Let_def)
  next
    case RightJoin
    note right' = right [OF drawn_right [OF J, of ex, folded RightJoin] set_origins]
    show ?thesis using withKeyFds_hold [OF I okJ k right'(1)] right'(2-5) RightJoin facts_hold_wrap
      by (simp add: propagateJoinFds_def propagateJoinInds_def Let_def)
  next
    case FullJoin
    then show ?thesis
      by (simp add: propagateJoinFds_def propagateJoinInds_def Let_def no_facts_def facts_hold_def fds_hold_def ecs_hold_def ec_rel_def)
  next
    case Semi
    then show ?thesis using withKeyFds_hold [OF I okJ k semi] left(2-5) [of False] facts_hold_wrap
      by (simp add: propagateJoinFds_def propagateJoinInds_def Let_def isSemiOrAnti_def)
  next
    case Anti
    then show ?thesis using withKeyFds_hold [OF I okJ k semi] left(2-5) [of False] facts_hold_wrap
      by (simp add: propagateJoinFds_def propagateJoinInds_def Let_def isSemiOrAnti_def)
  qed (use inner in auto)
qed

end

text \<open>The declared keys of a type name columns it has.\<close>

definition type_ok :: "nat \<Rightarrow> relation_type \<Rightarrow> bool" where
  "type_ok n t \<longleftrightarrow> columnCount t = n \<and> (\<forall>k \<in> set (type_keys t). \<forall>c \<in> set k. ref_index c < n)"

lemma side_okI: "type_sound S R t \<Longrightarrow> type_ok n t \<Longrightarrow> facts_hold env T S V R p \<Longrightarrow> facts_ok n p \<Longrightarrow> side_ok S R n p t"
  by (auto simp: side_ok_def type_ok_def facts_hold_def facts_ok_def)

text \<open>
  C35. What the planner claims about a join is true of the rows the nested loop join emits. Given
  inputs whose advertised facts hold and a condition that makes every equi-pair a value equality:
  every preserved key is unique on the output; every dependency (with its kind and guard),
  equivalence class, constant binding, domain and inclusion dependency that the propagation
  advertises holds on the output; and the row cap bounds the output when the given counts bound the inputs. This
  covers all seven join types, with existence flags.
\<close>

theorem join_facts_sound:
  assumes "lawful_refs I" "lawful_columns I S" "lawful_values S V"
    and "join_inputs V lc rc L R cond pairs"
    and "type_sound S L lt" "type_ok lc lt" "type_sound (shift_sem lc S) R rt" "type_ok rc rt"
    and "facts_hold env T S V L lp" "facts_ok lc lp"
    and "facts_hold env T (shift_sem lc S) (shift_values lc V) R rp" "facts_ok rc rp"
    and "cov = analyzeJoinKeyCoverage jt (Some lp) (Some rp) (Some lt) (Some rt) pairs leftRows rightRows lc"
  shows "(k \<in> set (preservedKeys cov) \<longrightarrow> row_unique S (loop_join jt existence cond lc rc L R) (set k)) \<and>
      facts_hold env T S V (loop_join jt existence cond lc rc L R)
        ((propagateJoinFds I jt (Some lp) (Some rp) pairs lc n (preservedKeys cov))
          \<lparr>phys_inds := propagateJoinInds jt (Some lp) (Some rp) lc\<rparr>) \<and>
      (estimatedRows cov = Some m \<longrightarrow> (\<forall>a. leftRows = Some a \<longrightarrow> length L \<le> a) \<longrightarrow>
        (\<forall>b. rightRows = Some b \<longrightarrow> length R \<le> b) \<longrightarrow> length (loop_join jt existence cond lc rc L R) \<le> m)"
proof (intro conjI impI)
  note world = value_worldI [OF assms(2,3)]
  note L = side_okI [OF assms(5,6,9,10)] and R = side_okI [OF assms(7,8,11,12)]
  show "row_unique S (loop_join jt existence cond lc rc L R) (set k)" if "k \<in> set (preservedKeys cov)"
    using value_world.preserved_unique(1) [OF world assms(4) L R that [unfolded assms(13)]] .
  show "facts_hold env T S V (loop_join jt existence cond lc rc L R)
      ((propagateJoinFds I jt (Some lp) (Some rp) pairs lc n (preservedKeys cov))
        \<lparr>phys_inds := propagateJoinInds jt (Some lp) (Some rp) lc\<rparr>)"
    unfolding assms(13) by (rule value_world.join_facts [OF world assms(1,4,9-12)])
      (intro ballI conjI value_world.preserved_unique [OF world assms(4) L R] preserved_distinct [OF L], assumption+)
  show "length (loop_join jt existence cond lc rc L R) \<le> m"
    if "estimatedRows cov = Some m" "\<forall>a. leftRows = Some a \<longrightarrow> length L \<le> a" "\<forall>b. rightRows = Some b \<longrightarrow> length R \<le> b"
    by (rule value_world.estimated_cap [OF world assms(4) L R _ _ that(1) [unfolded assms(13)]]) (use that in auto)
qed

theorem join_facts_sound_witness:
  "\<exists>cond keyed plain L R. cond = Some (\<lambda>l r. SqlBool (row_at l 0 = row_at r 0)) \<and>
     keyed = \<lparr>columnCount = 1, type_keys = [[\<lparr>ref_index = 0, ref_desc = None\<rparr>]], isSet = False\<rparr> \<and>
     plain = \<lparr>columnCount = 2, type_keys = [], isSet = False\<rparr> \<and>
     L = [[SqlBlob []], [SqlBlob [0]]] \<and> R = [[SqlBlob [0], SqlNull], [SqlBlob [0], SqlBlob []]] \<and>
     loop_join Inner None cond 1 2 L R = [[SqlBlob [0], SqlBlob [0], SqlNull], [SqlBlob [0], SqlBlob [0], SqlBlob []]] \<and>
     estimatedRows (analyzeJoinKeyCoverage Inner (Some no_facts) (Some no_facts) (Some keyed) (Some plain) [(0, 0)] (Some 2) (Some 2) 1) = Some (2 :: nat) \<and>
     facts_hold (\<lambda>_. SqlNull) (\<lambda>_ _. True) binary_columns (collated_values (\<lambda>_. BINARY_COLLATION)) (loop_join Inner None cond 1 2 L R)
       ((propagateJoinFds structural_refs Inner (Some no_facts) (Some no_facts) [(0, 0)] 1 3 [])\<lparr>phys_inds := None\<rparr>) \<and>
     equivClasses (propagateJoinFds structural_refs Inner (Some no_facts) (Some no_facts) [(0, 0)] 1 3 []) = Some [[0, 1]] \<and>
     length (loop_join Inner None cond 1 2 L R) \<le> 2"
proof (intro exI conjI)
  let ?cond = "Some (\<lambda>l r. SqlBool (row_at l 0 = row_at r 0))"
  let ?keyed = "\<lparr>columnCount = 1, type_keys = [[\<lparr>ref_index = 0, ref_desc = None\<rparr>]], isSet = False\<rparr>"
  let ?plain = "\<lparr>columnCount = 2, type_keys = [], isSet = False\<rparr>"
  let ?L = "[[SqlBlob []], [SqlBlob [0]]]" and ?R = "[[SqlBlob [0], SqlNull], [SqlBlob [0], SqlBlob []]]"
  let ?cov = "analyzeJoinKeyCoverage Inner (Some no_facts) (Some no_facts) (Some ?keyed) (Some ?plain) [(0, 0)] (Some (2 :: nat)) (Some 2) 1"
  have keys: "preservedKeys ?cov = []" and est: "estimatedRows ?cov = Some 2" by code_simp+
  show "estimatedRows ?cov = Some 2" by (rule est)
  show "loop_join Inner None ?cond 1 2 ?L ?R = [[SqlBlob [0], SqlBlob [0], SqlNull], [SqlBlob [0], SqlBlob [0], SqlBlob []]]"
    by code_simp
  show "equivClasses (propagateJoinFds structural_refs Inner (Some no_facts) (Some no_facts) [(0, 0)] 1 3 []) = Some [[0, 1]]"
    by code_simp
  have J: "join_inputs (collated_values (\<lambda>_. BINARY_COLLATION)) 1 2 ?L ?R ?cond [(0, 0)]"
    by (simp add: join_inputs_def rows_ok_def conditionMet_def collated_values_def row_at_def compareSqlValuesFast_def)
  have T: "type_sound binary_columns ?L ?keyed" "type_ok 1 ?keyed" "type_sound (shift_sem 1 binary_columns) ?R ?plain" "type_ok 2 ?plain"
    by (simp_all add: type_sound_def type_ok_def row_unique_def agree_def row_at_def binary_columns_def collated_sem_def compareSqlValuesFast_def)
  have F: "facts_hold env T S V R no_facts" "facts_ok n no_facts" for env T S V R n
    by (simp_all add: facts_hold_def facts_ok_def no_facts_def fds_hold_def ecs_hold_def ec_rel_def class_members_def)
  note sound = join_facts_sound [OF lawful_structural lawful_binary [OF lawful_structural] lawful_binary_values J T F F refl,
      where jt = Inner and leftRows = "Some 2" and rightRows = "Some 2" and existence = None]
  show "facts_hold (\<lambda>_. SqlNull) (\<lambda>_ _. True) binary_columns (collated_values (\<lambda>_. BINARY_COLLATION)) (loop_join Inner None ?cond 1 2 ?L ?R)
       ((propagateJoinFds structural_refs Inner (Some no_facts) (Some no_facts) [(0, 0)] 1 3 [])\<lparr>phys_inds := None\<rparr>)"
    using sound [where n = 3, THEN conjunct2, THEN conjunct1] unfolding keys by (simp add: propagateJoinInds_def no_facts_def non_empty_def mergeInds_def shiftInds_def)
  show "length (loop_join Inner None ?cond 1 2 ?L ?R) \<le> 2" by (rule sound [THEN conjunct2, THEN conjunct2, THEN mp, OF est, THEN mp, THEN mp]) simp_all
qed (rule refl)+

end
