(* ===== verification/Hlc.thy ===== *)
theory Hlc
  imports Bytes Decimal_Text
begin

text \<open>
  The hybrid logical clock of the replication layer (quereus-sync/src/clock/hlc.ts) and the
  site identifiers it carries (quereus-sync/src/clock/site.ts). The wall clock \<open>Date.now()\<close> is
  an argument of the operations that read it.
\<close>

section \<open>Site identifiers\<close>

type_synonym site_id = "byte list"

datatype clock_error =
    RemoteTooFar int
  | InvalidLength nat
  | InvalidBigInt
  | SetOutOfRange

text \<open>
  \<open>triplet\<close> packs three bytes; shifts and masks of the 24-bit value are written as
  multiplications, divisions and remainders.
\<close>

definition BASE64URL_CHARS :: js_string where
  "BASE64URL_CHARS = lit ''ABCDEFGHIJKLMNOPQRSTUVWXYZabcdefghijklmnopqrstuvwxyz0123456789-_''"

definition triplet :: "byte \<Rightarrow> byte \<Rightarrow> byte \<Rightarrow> nat" where
  "triplet b1 b2 b3 = unat b1 * 65536 + unat b2 * 256 + unat b3"

definition sextet_char :: "nat \<Rightarrow> nat \<Rightarrow> 16 word" where
  "sextet_char t k = BASE64URL_CHARS ! (t div 64 ^ k mod 64)"

fun toBase64Url :: "byte list \<Rightarrow> js_string" where
  "toBase64Url [] = []"
| "toBase64Url [b1] = (let t = triplet b1 0 0 in [sextet_char t 3, sextet_char t 2])"
| "toBase64Url [b1, b2] = (let t = triplet b1 b2 0 in [sextet_char t 3, sextet_char t 2, sextet_char t 1])"
| "toBase64Url (b1 # b2 # b3 # bs) =
     (let t = triplet b1 b2 b3 in
      [sextet_char t 3, sextet_char t 2, sextet_char t 1, sextet_char t 0] @ toBase64Url bs)"

text \<open>The reverse lookup; a character outside the alphabet, or past the end, counts as 0.\<close>

fun index_of :: "'a \<Rightarrow> 'a list \<Rightarrow> nat option" where
  "index_of x [] = None"
| "index_of x (y # ys) = (if x = y then Some 0 else map_option Suc (index_of x ys))"

definition lookup64 :: "16 word \<Rightarrow> nat" where
  "lookup64 c = (case index_of c BASE64URL_CHARS of None \<Rightarrow> 0 | Some i \<Rightarrow> i)"

definition quad_bytes :: "nat \<Rightarrow> nat \<Rightarrow> nat \<Rightarrow> nat \<Rightarrow> byte list" where
  "quad_bytes c1 c2 c3 c4 =
     (let t = c1 * 262144 + c2 * 4096 + c3 * 64 + c4
      in [word_of_nat (t div 65536 mod 256), word_of_nat (t div 256 mod 256), word_of_nat (t mod 256)])"

fun base64_chunks :: "js_string \<Rightarrow> byte list" where
  "base64_chunks [] = []"
| "base64_chunks [a] = quad_bytes (lookup64 a) 0 0 0"
| "base64_chunks [a, b] = quad_bytes (lookup64 a) (lookup64 b) 0 0"
| "base64_chunks [a, b, c] = quad_bytes (lookup64 a) (lookup64 b) (lookup64 c) 0"
| "base64_chunks (a # b # c # d # s) =
     quad_bytes (lookup64 a) (lookup64 b) (lookup64 c) (lookup64 d) @ base64_chunks s"

text \<open>The output array has \<open>outputLen\<close> bytes; writes stop when it is full.\<close>

definition fromBase64Url :: "js_string \<Rightarrow> byte list" where
  "fromBase64Url str = take (length str * 3 div 4) (base64_chunks str)"

definition siteIdToBase64 :: "site_id \<Rightarrow> js_string" where
  "siteIdToBase64 siteId = toBase64Url siteId"

definition siteIdFromBase64 :: "js_string \<Rightarrow> clock_error + site_id" where
  "siteIdFromBase64 base64 =
     (if length base64 \<noteq> 22 then Inl (InvalidLength (length base64)) else Inr (fromBase64Url base64))"

definition siteIdEquals :: "site_id \<Rightarrow> site_id \<Rightarrow> bool" where
  "siteIdEquals a b \<longleftrightarrow> length a = length b \<and> (\<forall>i < length a. a ! i = b ! i)"

text \<open>\<open>generateSiteId\<close> stamps the UUID version and variant on 16 random bytes.\<close>

definition generateSiteId :: "byte list \<Rightarrow> site_id" where
  "generateSiteId random =
     (let i1 = random[6 := (random ! 6 AND 0x0F) OR 0x40] in i1[8 := (i1 ! 8 AND 0x3F) OR 0x80])"

record site_identity =
  si_siteId :: site_id
  si_createdAt :: nat

definition serializeSiteIdentity :: "site_identity \<Rightarrow> clock_error + byte list" where
  "serializeSiteIdentity identity =
     (if 24 < length (si_siteId identity) then Inl SetOutOfRange
      else Inr (take 16 (si_siteId identity @ replicate 16 0) @ be_bytes 8 (si_createdAt identity mod 2 ^ 64)))"

definition deserializeSiteIdentity :: "byte list \<Rightarrow> clock_error + site_identity" where
  "deserializeSiteIdentity buffer =
     (if length buffer \<noteq> 24 then Inl (InvalidLength (length buffer))
      else Inr \<lparr>si_siteId = take 16 buffer, si_createdAt = be_value (drop 16 buffer)\<rparr>)"

section \<open>Timestamps\<close>

record hlc =
  wallTime :: int
  counter :: nat
  siteId :: site_id
  opSeq :: nat

definition MAX_COUNTER :: nat where "MAX_COUNTER = 0xFFFF"

definition MAX_OPSEQ :: nat where "MAX_OPSEQ = 0xFFFFFFFF"

definition MAX_DRIFT_MS :: int where "MAX_DRIFT_MS = 60000"

definition assertWithinDrift :: "int \<Rightarrow> int \<Rightarrow> clock_error option" where
  "assertWithinDrift remoteWallTime now =
     (if now + MAX_DRIFT_MS < remoteWallTime then Some (RemoteTooFar (remoteWallTime - now)) else None)"

fun compareSiteIds :: "site_id \<Rightarrow> site_id \<Rightarrow> int" where
  "compareSiteIds (x # xs) (y # ys) = (if x < y then -1 else if y < x then 1 else compareSiteIds xs ys)"
| "compareSiteIds a b = int (length a) - int (length b)"

definition compareHLC :: "hlc \<Rightarrow> hlc \<Rightarrow> int" where
  "compareHLC a b =
     (if wallTime a < wallTime b then -1 else if wallTime b < wallTime a then 1
      else if counter a < counter b then -1 else if counter b < counter a then 1
      else (let siteCmp = compareSiteIds (siteId a) (siteId b) in
            if siteCmp \<noteq> 0 then siteCmp
            else if opSeq a < opSeq b then -1 else if opSeq b < opSeq a then 1 else 0))"

definition hlcEquals :: "hlc \<Rightarrow> hlc \<Rightarrow> bool" where
  "hlcEquals a b \<longleftrightarrow> compareHLC a b = 0"

definition maxHLC :: "hlc list \<Rightarrow> hlc option" where
  "maxHLC hlcs = foldl (\<lambda>max h. case max of
      None \<Rightarrow> Some h | Some m \<Rightarrow> if 0 < compareHLC h m then Some h else Some m) None hlcs"

definition createHLC :: "int \<Rightarrow> nat \<Rightarrow> site_id \<Rightarrow> nat \<Rightarrow> hlc" where
  "createHLC w c s q = \<lparr>wallTime = w, counter = c, siteId = s, opSeq = q\<rparr>"

definition deterministicTxnId :: "hlc \<Rightarrow> js_string" where
  "deterministicTxnId base =
     int_text (wallTime base) @ lit '':'' @ digit_units (dec_digits (counter base)) @ lit '':'' @
     siteIdToBase64 (siteId base)"

text \<open>
  \<open>DataView\<close> setters store the value modulo their width. \<open>buffer.set\<close> throws when the site id
  does not fit behind offset 10; the bytes it leaves beyond offset 26 are overwritten.
\<close>

definition serializeHLC :: "hlc \<Rightarrow> clock_error + byte list" where
  "serializeHLC h =
     (if 20 < length (siteId h) then Inl SetOutOfRange
      else Inr (be_bytes 8 (nat (wallTime h mod 2 ^ 64)) @ be_bytes 2 (counter h mod 2 ^ 16) @
        take 16 (siteId h @ replicate 16 0) @ be_bytes 4 (opSeq h mod 2 ^ 32)))"

definition deserializeHLC :: "byte list \<Rightarrow> clock_error + hlc" where
  "deserializeHLC buffer =
     (if length buffer \<noteq> 30 then Inl (InvalidLength (length buffer))
      else Inr (createHLC (int (be_value (take 8 buffer))) (be_value (take 2 (drop 8 buffer)))
        (take 16 (drop 10 buffer)) (be_value (drop 26 buffer))))"

text \<open>The JSON form.\<close>

record serialized_hlc =
  sj_wallTime :: js_string
  sj_counter :: nat
  sj_siteId :: js_string
  sj_opSeq :: "nat option"

definition hlcToJson :: "hlc \<Rightarrow> serialized_hlc" where
  "hlcToJson h =
     \<lparr>sj_wallTime = int_text (wallTime h), sj_counter = counter h,
      sj_siteId = siteIdToBase64 (siteId h), sj_opSeq = Some (opSeq h)\<rparr>"

definition hlcFromJson :: "serialized_hlc \<Rightarrow> clock_error + hlc" where
  "hlcFromJson json =
     (case bigint_of_text (sj_wallTime json) of
        None \<Rightarrow> Inl InvalidBigInt
      | Some w \<Rightarrow>
         (case siteIdFromBase64 (sj_siteId json) of
            Inl e \<Rightarrow> Inl e
          | Inr s \<Rightarrow> Inr (createHLC w (sj_counter json) s (case sj_opSeq json of None \<Rightarrow> 0 | Some q \<Rightarrow> q))))"

section \<open>The clock of a replica\<close>

record hlc_manager =
  mgr_wallTime :: int
  mgr_counter :: nat
  mgr_siteId :: site_id

definition new_manager :: "site_id \<Rightarrow> (int \<times> nat) option \<Rightarrow> hlc_manager" where
  "new_manager s initialState =
     \<lparr>mgr_wallTime = (case initialState of None \<Rightarrow> 0 | Some (w, _) \<Rightarrow> w),
      mgr_counter = (case initialState of None \<Rightarrow> 0 | Some (_, c) \<Rightarrow> c), mgr_siteId = s\<rparr>"

definition getState :: "hlc_manager \<Rightarrow> int \<times> nat" where
  "getState m = (mgr_wallTime m, mgr_counter m)"

definition now_hlc :: "hlc_manager \<Rightarrow> hlc" where
  "now_hlc m = createHLC (mgr_wallTime m) (mgr_counter m) (mgr_siteId m) 0"

definition tick :: "int \<Rightarrow> hlc_manager \<Rightarrow> hlc \<times> hlc_manager" where
  "tick now m =
     (let m' = (if mgr_wallTime m < now then m\<lparr>mgr_wallTime := now, mgr_counter := 0\<rparr>
                else (let m1 = m\<lparr>mgr_counter := mgr_counter m + 1\<rparr> in
                      if MAX_COUNTER < mgr_counter m1
                      then m1\<lparr>mgr_wallTime := mgr_wallTime m1 + 1, mgr_counter := 0\<rparr> else m1))
      in (now_hlc m', m'))"

definition receive :: "int \<Rightarrow> hlc_manager \<Rightarrow> hlc \<Rightarrow> clock_error + hlc \<times> hlc_manager" where
  "receive now m remote =
     (case assertWithinDrift (wallTime remote) now of
        Some e \<Rightarrow> Inl e
      | None \<Rightarrow>
         (let maxWall = (if mgr_wallTime m < now
                then (if wallTime remote < now then now else wallTime remote)
                else (if wallTime remote < mgr_wallTime m then mgr_wallTime m else wallTime remote));
              m1 = (if maxWall = mgr_wallTime m \<and> maxWall = wallTime remote
                    then m\<lparr>mgr_counter := max (mgr_counter m) (counter remote) + 1\<rparr>
                    else if maxWall = mgr_wallTime m then m\<lparr>mgr_counter := mgr_counter m + 1\<rparr>
                    else if maxWall = wallTime remote
                    then m\<lparr>mgr_wallTime := wallTime remote, mgr_counter := counter remote + 1\<rparr>
                    else m\<lparr>mgr_wallTime := maxWall, mgr_counter := 0\<rparr>);
              m2 = (if MAX_COUNTER < mgr_counter m1
                    then m1\<lparr>mgr_wallTime := mgr_wallTime m1 + 1, mgr_counter := 0\<rparr> else m1)
          in Inr (now_hlc m2, m2)))"

section \<open>Order\<close>

lemma compareSiteIds_sgn: "sgn (compareSiteIds a b) = lex_cmp ord_cmp a b"
  by (induction a b rule: compareSiteIds.induct) (auto simp: ord_cmp_def sgn_if neq_Nil_conv)

lemma compareSiteIds_eq_iff: "compareSiteIds a b = 0 \<longleftrightarrow> a = b"
  using compareSiteIds_sgn [of a b] lex_ord_cmp_eq_iff [of a b] by (metis sgn_0_0)

lemma compareSiteIds_comparator: "comparator_total compareSiteIds"
proof (rule comparator_on_cong [OF lex_ord_comparator])
  show "sgn (compareSiteIds a b) = sgn (lex_cmp ord_cmp a b)" for a b
    using compareSiteIds_sgn [of a b] by (metis sgn_sgn)
qed

text \<open>The four components in sequence, each decided by its own comparator.\<close>

lemma compareHLC_chain:
  "compareHLC a b =
     (if ord_cmp (wallTime a) (wallTime b) \<noteq> 0 then ord_cmp (wallTime a) (wallTime b)
      else if ord_cmp (counter a) (counter b) \<noteq> 0 then ord_cmp (counter a) (counter b)
      else if compareSiteIds (siteId a) (siteId b) \<noteq> 0 then compareSiteIds (siteId a) (siteId b)
      else ord_cmp (opSeq a) (opSeq b))"
  by (simp add: compareHLC_def ord_cmp_def Let_def)

interpretation hlc_order: discriminating_comparator_on UNIV compareHLC
proof -
  note ord = ord.comparator_on_axioms
  have "comparator_total compareHLC"
    unfolding compareHLC_chain [abs_def]
    by (intro comparator_on_then; (rule comparator_on.vimage [OF ord] comparator_on.vimage [OF compareSiteIds_comparator]; simp)?)
  then show "discriminating_comparator_on UNIV compareHLC"
    by (simp add: discriminating_comparator_on_def discriminating_comparator_on_axioms_def compareHLC_chain
        cmp_simps compareSiteIds_eq_iff)
qed

lemma hlcEquals_iff: "hlcEquals a b \<longleftrightarrow> a = b"
  by (simp add: hlcEquals_def hlc_order.cmp_eq_iff)

lemma maxHLC_fold:
  "foldl (\<lambda>max h. case max of None \<Rightarrow> Some h | Some m \<Rightarrow> if 0 < compareHLC h m then Some h else Some m) (Some m) hs = Some r \<Longrightarrow>
     r \<in> insert m (set hs) \<and> (\<forall>h \<in> insert m (set hs). compareHLC h r \<le> 0)"
proof (induction hs arbitrary: m)
  case Nil
  then show ?case by (simp add: hlc_order.cmp_refl)
next
  case (Cons h hs)
  define m' where "m' = (if 0 < compareHLC h m then h else m)"
  have "r \<in> insert m' (set hs)" and le: "\<forall>x \<in> insert m' (set hs). compareHLC x r \<le> 0"
    using Cons.IH [of m'] Cons.prems by (auto simp: m'_def split: if_splits)
  moreover have "compareHLC h m' \<le> 0" "compareHLC m m' \<le> 0"
    using hlc_order.cmp_le_flip [of h m] by (auto simp: m'_def hlc_order.cmp_refl)
  then have "compareHLC h r \<le> 0" "compareHLC m r \<le> 0"
    using le hlc_order.cmp_trans [of h m' r] hlc_order.cmp_trans [of m m' r] by simp_all
  ultimately show ?case by (auto simp: m'_def split: if_splits)
qed

section \<open>Serialization\<close>

text \<open>The stamps the wire format can hold.\<close>

definition valid_hlc :: "hlc \<Rightarrow> bool" where
  "valid_hlc h \<longleftrightarrow> 0 \<le> wallTime h \<and> wallTime h < 2 ^ 64 \<and> counter h \<le> MAX_COUNTER \<and>
     length (siteId h) = 16 \<and> opSeq h \<le> MAX_OPSEQ"

definition hlc_bytes :: "hlc \<Rightarrow> byte list" where
  "hlc_bytes h = be_bytes 8 (nat (wallTime h)) @ be_bytes 2 (counter h) @ siteId h @ be_bytes 4 (opSeq h)"

lemma serializeHLC_bytes: "valid_hlc h \<Longrightarrow> serializeHLC h = Inr (hlc_bytes h)"
  by (simp add: valid_hlc_def serializeHLC_def hlc_bytes_def MAX_COUNTER_def MAX_OPSEQ_def)

lemma hlc_bytes_sep:
  assumes "valid_hlc a" "valid_hlc b" "compareHLC a b < 0"
  shows "sep (hlc_bytes a) (hlc_bytes b)"
proof -
  consider "wallTime a < wallTime b" | "wallTime a = wallTime b" "counter a < counter b"
    | "wallTime a = wallTime b" "counter a = counter b" "lex_cmp ord_cmp (siteId a) (siteId b) < 0"
    | "wallTime a = wallTime b" "counter a = counter b" "siteId a = siteId b" "opSeq a < opSeq b"
    using assms(3) compareSiteIds_sgn [of "siteId a" "siteId b"]
    by (auto simp: compareHLC_chain cmp_simps compareSiteIds_eq_iff sgn_if split: if_splits)
  then show ?thesis
  proof cases
    case 1
    then have "sep (be_bytes 8 (nat (wallTime a))) (be_bytes 8 (nat (wallTime b)))"
      using assms by (intro be_bytes_sep) (simp_all add: valid_hlc_def nat_less_iff)
    then show ?thesis unfolding hlc_bytes_def by (rule sep_append)
  next
    case 2
    then have "sep (be_bytes 2 (counter a)) (be_bytes 2 (counter b))"
      using assms by (intro be_bytes_sep) (simp_all add: valid_hlc_def MAX_COUNTER_def)
    then show ?thesis unfolding hlc_bytes_def 2(1) by (intro sep_prepend sep_append)
  next
    case 3
    then have "sep (siteId a) (siteId b)"
      using assms by (simp add: valid_hlc_def sep_lex_iff_length)
    then show ?thesis unfolding hlc_bytes_def 3(1,2) by (intro sep_prepend sep_append)
  next
    case 4
    then have "sep (be_bytes 4 (opSeq a)) (be_bytes 4 (opSeq b))"
      using assms by (intro be_bytes_sep) (simp_all add: valid_hlc_def MAX_OPSEQ_def)
    then show ?thesis unfolding hlc_bytes_def 4(1,2,3) by (intro sep_prepend)
  qed
qed

interpretation hlc_wire: sep_encoder "{h. valid_hlc h}" compareHLC hlc_bytes
  by (intro sep_encoder.intro sep_encoder_axioms.intro hlc_order.subset)
    (auto simp: hlc_bytes_sep hlc_order.cmp_eq_iff)

lemma deserialize_hlc_bytes: "valid_hlc h \<Longrightarrow> deserializeHLC (hlc_bytes h) = Inr h"
  by (simp add: valid_hlc_def hlc_bytes_def deserializeHLC_def createHLC_def be_value_be_bytes
      MAX_COUNTER_def MAX_OPSEQ_def nat_less_iff)

section \<open>Base64url\<close>

lemma index_of_nth: "distinct xs \<Longrightarrow> i < length xs \<Longrightarrow> index_of (xs ! i) xs = Some i"
proof (induction xs arbitrary: i)
  case (Cons x xs)
  then show ?case by (cases i) auto
qed simp

lemma base64_alphabet: "distinct BASE64URL_CHARS" "length BASE64URL_CHARS = 64"
  by (simp_all add: BASE64URL_CHARS_def lit_def)

lemma lookup64_nth: "i < 64 \<Longrightarrow> lookup64 (BASE64URL_CHARS ! i) = i"
  by (simp add: lookup64_def index_of_nth base64_alphabet)

lemma lookup64_sextet: "lookup64 (sextet_char t k) = t div 64 ^ k mod 64"
  by (simp add: sextet_char_def lookup64_nth)

lemma sextets_value: "t < 16777216 \<Longrightarrow>
  (t div 64 ^ 3 mod 64) * 262144 + (t div 64 ^ 2 mod 64) * 4096 + (t div 64 ^ 1 mod 64) * 64 + t div 64 ^ 0 mod 64 = t"
  for t :: nat
proof -
  assume t: "t < 16777216"
  have d: "t div 4096 = t div 64 div 64" "t div 262144 = t div 64 div 64 div 64"
    using div_mult2_eq [of t 64 64] div_mult2_eq [of t 4096 64] by simp_all
  have "t div 262144 mod 64 = t div 262144" using t by (simp add: less_mult_imp_div_less)
  then have "(t div 262144 mod 64) * 262144 + (t div 4096 mod 64) * 4096 + (t div 64 mod 64) * 64 + t mod 64 = t"
    using div_mult_mod_eq [of t 64] div_mult_mod_eq [of "t div 64" 64] div_mult_mod_eq [of "t div 64 div 64" 64]
    unfolding d by linarith
  moreover have "64 ^ 3 = (262144 :: nat)" "64 ^ 2 = (4096 :: nat)" "64 ^ 1 = (64 :: nat)" "64 ^ 0 = (1 :: nat)" by simp_all
  ultimately show ?thesis by (simp only: div_by_1)
qed

lemma low_digit: "r < 256 \<Longrightarrow> (r + q * 256) div 256 = q" "r < 256 \<Longrightarrow> (r + q * 256) mod 256 = r" for q r :: nat
  by simp_all

lemma triplet_bytes:
  "[word_of_nat (triplet b1 b2 b3 div 65536 mod 256), word_of_nat (triplet b1 b2 b3 div 256 mod 256),
    word_of_nat (triplet b1 b2 b3 mod 256)] = [b1, b2, b3]" "triplet b1 b2 b3 < 16777216"
proof -
  note b = unat_word_less(2) [of b1] unat_word_less(2) [of b2] unat_word_less(2) [of b3]
  show "triplet b1 b2 b3 < 16777216" using b by (simp add: triplet_def)
  have t: "triplet b1 b2 b3 = unat b3 + (unat b1 * 256 + unat b2) * 256" by (simp add: triplet_def)
  have "triplet b1 b2 b3 div 256 = unat b1 * 256 + unat b2" "triplet b1 b2 b3 mod 256 = unat b3"
    unfolding t using b low_digit by blast+
  moreover have "triplet b1 b2 b3 div 65536 = triplet b1 b2 b3 div 256 div 256"
    using div_mult2_eq [of "triplet b1 b2 b3" 256 256] by simp
  ultimately show "[word_of_nat (triplet b1 b2 b3 div 65536 mod 256), word_of_nat (triplet b1 b2 b3 div 256 mod 256),
    word_of_nat (triplet b1 b2 b3 mod 256)] = [b1, b2, b3]" using b by simp
qed

lemma quad_triplet:
  "quad_bytes (triplet b1 b2 b3 div 64 ^ 3 mod 64) (triplet b1 b2 b3 div 64 ^ 2 mod 64)
     (triplet b1 b2 b3 div 64 ^ 1 mod 64) (triplet b1 b2 b3 div 64 ^ 0 mod 64) = [b1, b2, b3]"
  unfolding quad_bytes_def Let_def sextets_value [OF triplet_bytes(2)] by (rule triplet_bytes(1))

lemma triplet_low: "triplet b1 0 0 div 64 mod 64 = 0" "triplet b1 b2 0 mod 64 = 0"
proof -
  have "triplet b1 b2 0 = (unat b1 * 1024 + unat b2 * 4) * 64" by (simp add: triplet_def)
  then show "triplet b1 b2 0 mod 64 = 0" by simp
  have "triplet b1 0 0 = (unat b1 * 16 * 64) * 64" by (simp add: triplet_def)
  then have "triplet b1 0 0 div 64 = unat b1 * 16 * 64" by simp
  then show "triplet b1 0 0 div 64 mod 64 = 0" by simp
qed

lemma base64_chunks_toBase64Url:
  "\<exists>pad. base64_chunks (toBase64Url bs) = bs @ pad \<and> length (toBase64Url bs) * 3 div 4 = length bs"
proof (induction bs rule: toBase64Url.induct)
  case (2 b1)
  then show ?case using quad_triplet [of b1 0 0] by (simp add: Let_def lookup64_sextet triplet_low)
next
  case (3 b1 b2)
  then show ?case using quad_triplet [of b1 b2 0] by (simp add: Let_def lookup64_sextet triplet_low)
next
  case (4 b1 b2 b3 bs)
  then obtain pad where "base64_chunks (toBase64Url bs) = bs @ pad" "length (toBase64Url bs) * 3 div 4 = length bs"
    by blast
  then show ?case using quad_triplet [of b1 b2 b3] by (simp add: Let_def lookup64_sextet)
qed simp

lemma fromBase64Url_toBase64Url: "fromBase64Url (toBase64Url bs) = bs"
  using base64_chunks_toBase64Url [of bs] by (auto simp: fromBase64Url_def)

section \<open>Monotonicity of the clock\<close>

definition clock_inv :: "hlc_manager \<Rightarrow> bool" where
  "clock_inv m \<longleftrightarrow> mgr_counter m \<le> MAX_COUNTER"

lemma compareHLC_clock:
  "compareHLC (createHLC w c s q) (createHLC w' c' s q') < 0"
  if "w < w' \<or> w = w' \<and> c < c'"
  using that by (auto simp: compareHLC_chain createHLC_def cmp_simps ord_cmp_def)

lemma tick_step:
  assumes "tick now m = (h, m')"
  shows "clock_inv m'" "h = now_hlc m'" "mgr_siteId m' = mgr_siteId m" "compareHLC (now_hlc m) h < 0"
    and "now \<le> wallTime h"
  using assms
  by (auto simp: tick_def Let_def clock_inv_def now_hlc_def MAX_COUNTER_def createHLC_def intro!: compareHLC_clock [unfolded createHLC_def] split: if_splits)

lemma receive_step:
  assumes "receive now m remote = Inr (h, m')"
  shows "clock_inv m'" "h = now_hlc m'" "mgr_siteId m' = mgr_siteId m" "compareHLC (now_hlc m) h < 0"
    and "compareHLC remote h < 0" "now \<le> wallTime h"
    and "wallTime h \<le> max (mgr_wallTime m) (now + MAX_DRIFT_MS) + 1"
proof -
  define big where "big = MAX_COUNTER"
  have m: "clock_inv m' \<and> h = now_hlc m' \<and> mgr_siteId m' = mgr_siteId m \<and>
    (mgr_wallTime m < mgr_wallTime m' \<or> mgr_wallTime m = mgr_wallTime m' \<and> mgr_counter m < mgr_counter m') \<and>
    (wallTime remote < mgr_wallTime m' \<or> wallTime remote = mgr_wallTime m' \<and> counter remote < mgr_counter m') \<and>
    now \<le> mgr_wallTime m' \<and> mgr_wallTime m' \<le> max (mgr_wallTime m) (now + MAX_DRIFT_MS) + 1"
    using assms
    by (auto simp: receive_def assertWithinDrift_def Let_def clock_inv_def MAX_DRIFT_MS_def MAX_COUNTER_def split: if_splits)
  then show "clock_inv m'" "h = now_hlc m'" "mgr_siteId m' = mgr_siteId m" by simp_all
  show "compareHLC (now_hlc m) h < 0"
    using m by (auto simp: now_hlc_def intro!: compareHLC_clock)
  show "compareHLC remote h < 0"
    using m by (auto simp: compareHLC_chain now_hlc_def createHLC_def cmp_simps ord_cmp_def)
  show "now \<le> wallTime h" "wallTime h \<le> max (mgr_wallTime m) (now + MAX_DRIFT_MS) + 1"
    using m by (auto simp: now_hlc_def createHLC_def)
qed

text \<open>
  The life of a replica's clock: local events and received stamps in any order, each with the
  wall-clock reading at that moment. A rejected stamp throws before the clock changes.
\<close>

datatype clock_event = Tick int | Receive int hlc

fun clock_step :: "clock_event \<Rightarrow> hlc_manager \<Rightarrow> (hlc \<times> hlc_manager) option" where
  "clock_step (Tick now) m = Some (tick now m)"
| "clock_step (Receive now r) m = (case receive now m r of Inl _ \<Rightarrow> None | Inr p \<Rightarrow> Some p)"

fun run_clock :: "clock_event list \<Rightarrow> hlc_manager \<Rightarrow> hlc list" where
  "run_clock [] m = []"
| "run_clock (e # es) m =
     (case clock_step e m of None \<Rightarrow> run_clock es m | Some (h, m') \<Rightarrow> h # run_clock es m')"

lemma clock_step_props:
  assumes "clock_step e m = Some (h, m')"
  shows "h = now_hlc m'" "mgr_siteId m' = mgr_siteId m" "compareHLC (now_hlc m) h < 0" "clock_inv m'"
  using assms tick_step [of _ m h m'] receive_step [of _ m _ h m'] by (cases e; auto split: sum.splits)+

lemma run_clock_after:
  "h \<in> set (run_clock es m) \<Longrightarrow> compareHLC (now_hlc m) h < 0 \<and> siteId h = mgr_siteId m \<and> counter h \<le> MAX_COUNTER \<and> opSeq h = 0"
proof (induction es arbitrary: m)
  case (Cons e es)
  show ?case
  proof (cases "clock_step e m")
    case None
    then show ?thesis using Cons by simp
  next
    case (Some p)
    then obtain k m' where k: "clock_step e m = Some (k, m')" by (cases p) simp
    note step = clock_step_props [OF k]
    show ?thesis
    proof (cases "h = k")
      case True
      then show ?thesis using step by (simp add: now_hlc_def createHLC_def clock_inv_def)
    next
      case False
      then have "compareHLC (now_hlc m') h < 0 \<and> siteId h = mgr_siteId m' \<and> counter h \<le> MAX_COUNTER \<and> opSeq h = 0"
        using Cons k by simp
      then show ?thesis using step hlc_order.cmp_lt_trans [of "now_hlc m" k h] by simp
    qed
  qed
qed simp

lemma run_clock_sorted: "sorted_wrt (\<lambda>a b. compareHLC a b < 0) (run_clock es m)"
proof (induction es arbitrary: m)
  case (Cons e es)
  then show ?case
    using clock_step_props(1) [of e m] run_clock_after [of _ es] by (auto split: option.splits)
qed simp

section \<open>Transaction ids\<close>

lemma split_at_first: "x \<notin> set u \<Longrightarrow> x \<notin> set v \<Longrightarrow> u @ x # s = v @ x # t \<longleftrightarrow> u = v \<and> s = t"
  by (induction u v rule: list_induct2') auto

lemma deterministicTxnId_inj:
  assumes "deterministicTxnId a = deterministicTxnId b"
  shows "wallTime a = wallTime b" "counter a = counter b" "siteId a = siteId b"
proof -
  have colon: "(58 :: 16 word) \<notin> set (int_text n)" "(58 :: 16 word) \<notin> set (digit_units (dec_digits k))" for n k
    using int_text_unit [of 58 n] digit_unit_range [of 58 k] by auto
  have eqs: "int_text (wallTime a) = int_text (wallTime b)"
    "digit_units (dec_digits (counter a)) = digit_units (dec_digits (counter b))"
    "toBase64Url (siteId a) = toBase64Url (siteId b)"
    using assms unfolding deterministicTxnId_def siteIdToBase64_def
    by (simp_all add: lit_def split_at_first colon)
  then show "wallTime a = wallTime b" by (metis bigint_of_text_int_text option.inject)
  show "counter a = counter b" using eqs(2) by (metis read_dec_digits option.inject)
  show "siteId a = siteId b" using eqs(3) by (metis fromBase64Url_toBase64Url)
qed

lemma length_toBase64Url: "length (toBase64Url bs) = (length bs * 4 + 2) div 3"
  by (induction bs rule: toBase64Url.induct) (simp_all add: Let_def)

lemma hlcFromJson_hlcToJson:
  assumes "length (siteId h) = 16"
  shows "hlcFromJson (hlcToJson h) = Inr h"
proof -
  have "length (toBase64Url (siteId h)) = 22" using assms by (simp add: length_toBase64Url)
  then show ?thesis
    by (simp add: hlcFromJson_def hlcToJson_def bigint_of_text_int_text siteIdFromBase64_def siteIdToBase64_def
        fromBase64Url_toBase64Url createHLC_def)
qed

lemma distinct_map_sorted_wrt: "sorted_wrt (\<lambda>a b. f a \<noteq> f b) xs \<Longrightarrow> distinct (map f xs)"
  by (induction xs) auto

section \<open>Properties\<close>

text \<open>
  C13. Every stamp a replica issues, whether for a local event or on receiving a remote one, is
  strictly later than all it issued before, carries the replica's id and keeps the counter
  within 16 bits, whatever the wall clock and the peers do; so no two of its transactions
  share an id.
\<close>

theorem hlc_stamps_increase:
  "sorted_wrt (\<lambda>a b. compareHLC a b < 0) (run_clock es m) \<and>
   list_all (\<lambda>h. siteId h = mgr_siteId m \<and> counter h \<le> MAX_COUNTER) (run_clock es m) \<and>
   distinct (map deterministicTxnId (run_clock es m))"
proof (intro conjI)
  show sorted: "sorted_wrt (\<lambda>a b. compareHLC a b < 0) (run_clock es m)" by (rule run_clock_sorted)
  show "list_all (\<lambda>h. siteId h = mgr_siteId m \<and> counter h \<le> MAX_COUNTER) (run_clock es m)"
    using run_clock_after by (auto simp: list_all_iff)
  have "deterministicTxnId a \<noteq> deterministicTxnId b"
    if "a \<in> set (run_clock es m)" "b \<in> set (run_clock es m)" "compareHLC a b < 0" for a b
  proof
    assume "deterministicTxnId a = deterministicTxnId b"
    then have "a = b"
      using deterministicTxnId_inj [of a b] run_clock_after [OF that(1)] run_clock_after [OF that(2)] by simp
    with that(3) show False by (simp add: hlc_order.cmp_refl)
  qed
  then have "sorted_wrt (\<lambda>a b. deterministicTxnId a \<noteq> deterministicTxnId b) (run_clock es m)"
    by (rule sorted_wrt_mono_rel [OF _ sorted])
  then show "distinct (map deterministicTxnId (run_clock es m))"
    by (rule distinct_map_sorted_wrt)
qed

text \<open>
  C14. On receiving a remote stamp the clock either rejects it, because it lies more than a
  minute ahead of the wall clock, and stays as it was, or issues a stamp later than the
  remote one and than its own past, at least the wall clock, and never more than a
  millisecond past the larger of its own time and the drift bound.
\<close>

theorem receive_correct:
  "(case receive now m remote of
      Inl e \<Rightarrow> now + MAX_DRIFT_MS < wallTime remote \<and> e = RemoteTooFar (wallTime remote - now)
    | Inr (h, m') \<Rightarrow> wallTime remote \<le> now + MAX_DRIFT_MS \<and> compareHLC remote h < 0 \<and>
        compareHLC (now_hlc m) h < 0 \<and> h = now_hlc m' \<and> mgr_counter m' \<le> MAX_COUNTER \<and> now \<le> wallTime h \<and>
        wallTime h \<le> max (mgr_wallTime m) (now + MAX_DRIFT_MS) + 1)"
proof (cases "receive now m remote")
  case (Inl e)
  then show ?thesis by (auto simp: receive_def assertWithinDrift_def Let_def split: option.splits if_splits)
next
  case (Inr p)
  then obtain h m' where p: "receive now m remote = Inr (h, m')" by (cases p) simp
  moreover have "wallTime remote \<le> now + MAX_DRIFT_MS"
    using p by (auto simp: receive_def assertWithinDrift_def split: if_splits)
  ultimately show ?thesis using receive_step [OF p] by (simp add: clock_inv_def)
qed

text \<open>
  C15. The 30-byte form of a stamp orders as the stamp does when compared byte by byte, and
  reading it back, or the JSON form, returns the stamp.
\<close>

theorem hlc_wire_formats:
  assumes "valid_hlc a" "valid_hlc b"
  shows "\<exists>ka kb. serializeHLC a = Inr ka \<and> serializeHLC b = Inr kb \<and> length ka = 30 \<and>
    sgn (compareBytes ka kb) = sgn (compareHLC a b) \<and>
    deserializeHLC ka = Inr a \<and> hlcFromJson (hlcToJson a) = Inr a"
proof -
  have "sgn (compareBytes (hlc_bytes a) (hlc_bytes b)) = sgn (compareHLC a b)"
    using hlc_wire.enc_sgn [of a b] assms compareBytes_sgn [of "hlc_bytes a" "hlc_bytes b"]
    by (metis mem_Collect_eq sgn_sgn)
  moreover have "length (hlc_bytes a) = 30" "length (siteId a) = 16"
    using assms(1) by (simp_all add: hlc_bytes_def valid_hlc_def)
  ultimately show ?thesis
    using assms by (simp add: serializeHLC_bytes deserialize_hlc_bytes hlcFromJson_hlcToJson)
qed

theorem hlc_wire_formats_witness:
  "\<exists>ka kb. serializeHLC (createHLC 1700000000000 3 (replicate 16 7) 0) = Inr ka \<and>
    serializeHLC (createHLC 1700000000000 3 (replicate 16 8) 9) = Inr kb \<and> length ka = 30 \<and>
    sgn (compareBytes ka kb) =
      sgn (compareHLC (createHLC 1700000000000 3 (replicate 16 7) 0) (createHLC 1700000000000 3 (replicate 16 8) 9)) \<and>
    deserializeHLC ka = Inr (createHLC 1700000000000 3 (replicate 16 7) 0) \<and>
    hlcFromJson (hlcToJson (createHLC 1700000000000 3 (replicate 16 7) 0)) =
      Inr (createHLC 1700000000000 3 (replicate 16 7) 0)"
  by (rule hlc_wire_formats) (simp_all add: valid_hlc_def createHLC_def MAX_COUNTER_def MAX_OPSEQ_def)

end
