(* ===== verification/Sync_Keys.thy ===== *)
theory Sync_Keys
  imports Hlc Key_Serializer
begin

text \<open>
  The addresses of replication records (quereus-sync/src/metadata/keys.ts): length-prefixed key
  components, the identity a primary key is filed under, and the key texts built from them.
\<close>

section \<open>Length-prefixed components\<close>

definition key_part :: "js_string \<Rightarrow> js_string" where
  "key_part part = digit_units (dec_digits (length part)) @ lit '':'' @ part"

definition joinKeyParts :: "js_string list \<Rightarrow> js_string" where
  "joinKeyParts parts = concat (map key_part parts)"

definition splitKeyPart :: "js_string \<Rightarrow> (js_string \<times> js_string) option" where
  "splitKeyPart rest = (case index_of 58 rest of
     None \<Rightarrow> None
   | Some lenColon \<Rightarrow>
      (if lenColon = 0 then None
       else case read_nat 10 (take lenColon rest) of
              None \<Rightarrow> None
            | Some len \<Rightarrow>
               (let start = lenColon + 1 in
                if length rest < start + len then None
                else Some (take len (drop start rest), drop (start + len) rest))))"

fun splitKeyParts :: "js_string \<Rightarrow> nat \<Rightarrow> (js_string list \<times> js_string) option" where
  "splitKeyParts rest 0 = Some ([], rest)"
| "splitKeyParts rest (Suc n) = (case splitKeyPart rest of
     None \<Rightarrow> None
   | Some (part, remainder) \<Rightarrow> map_option (\<lambda>(parts, r). (part # parts, r)) (splitKeyParts remainder n))"

lemma index_of_append: "x \<notin> set xs \<Longrightarrow> index_of x (xs @ x # ys) = Some (length xs)"
  by (induction xs) auto

lemma colon_not_digit: "(58 :: 16 word) \<notin> set (digit_units (dec_digits n))"
  using digit_unit_range [of 58 n] by auto

lemma splitKeyPart_key_part: "splitKeyPart (key_part part @ rest) = Some (part, rest)"
proof -
  define d where "d = digit_units (dec_digits (length part))"
  have d: "d \<noteq> []" "read_nat 10 d = Some (length part)" "58 \<notin> set d"
    using dec_digits_nonempty read_dec_digits colon_not_digit
    by (auto simp: d_def read_nat_def digit_units_def)
  have eq: "key_part part @ rest = d @ 58 # part @ rest" by (simp add: key_part_def d_def lit_def)
  show ?thesis using d unfolding eq by (simp add: splitKeyPart_def index_of_append)
qed

lemma splitKeyParts_joinKeyParts: "splitKeyParts (joinKeyParts parts @ rest) (length parts) = Some (parts, rest)"
  by (induction parts) (simp_all add: joinKeyParts_def splitKeyPart_key_part)

lemma joinKeyParts_append_inj:
  assumes "joinKeyParts xs @ s = joinKeyParts ys @ t" "length xs = length ys"
  shows "xs = ys \<and> s = t"
proof -
  have "splitKeyParts (joinKeyParts ys @ t) (length ys) = Some (xs, s)"
    using splitKeyParts_joinKeyParts [of xs s] unfolding assms .
  then show ?thesis unfolding splitKeyParts_joinKeyParts by simp
qed

lemma joinKeyParts_inj: "length xs = length ys \<Longrightarrow> joinKeyParts xs = joinKeyParts ys \<longleftrightarrow> xs = ys"
  using joinKeyParts_append_inj [of xs "[]" ys "[]"] by auto

section \<open>Identity of a primary key\<close>

definition encodePkIdentity :: "sql_value list \<Rightarrow> pk_identity_keying \<Rightarrow> js_string" where
  "encodePkIdentity pk keying = serializeKeyNullGrouping
     (map (\<lambda>(i, v). case slot_at (pk_transforms keying) i of
          Some (Some transform) \<Rightarrow> if v \<noteq> SqlNull then transform v else v
        | _ \<Rightarrow> v) (enumerate 0 pk))
     (map (\<lambda>(i, v). case slot_at (pk_normalizers keying) i of None \<Rightarrow> IDENTITY_NORMALIZER | Some N \<Rightarrow> N) (enumerate 0 pk))"

definition RAW_PK_KEYING :: pk_identity_keying where
  "RAW_PK_KEYING = \<lparr>pk_normalizers = [], pk_transforms = []\<rparr>"

definition encodeRawPkIdentity :: "sql_value list \<Rightarrow> js_string" where
  "encodeRawPkIdentity pk = encodePkIdentity pk RAW_PK_KEYING"

end
