(* ===== verification/Sync_Records.thy ===== *)
theory Sync_Records
  imports Sync_Keys "HOL-Library.AList"
begin

text \<open>
  The records a replica keeps about replicated rows (quereus-sync/src/metadata): cell versions,
  tombstones, the change log, held changes, the delta floor and the table generations they are
  filed under. Every store is the association list of its key-value range; keys are the tuples
  that the length-prefixed key texts spell. A staged batch is the state it commits to: the
  writers here never read what the same batch stages.
\<close>

section \<open>Changes\<close>

record column_change =
  cc_schema :: js_string
  cc_table :: js_string
  cc_pk :: row
  cc_column :: js_string
  cc_value :: sql_value
  cc_hlc :: hlc
  cc_priorValue :: "sql_value option"
  cc_priorHlc :: "hlc option"

record row_deletion =
  rd_schema :: js_string
  rd_table :: js_string
  rd_pk :: row
  rd_hlc :: hlc
  rd_priorRow :: "row option"

datatype change = ColumnChange column_change | RowDeletion row_deletion

primrec change_schema :: "change \<Rightarrow> js_string" where
  "change_schema (ColumnChange c) = cc_schema c"
| "change_schema (RowDeletion d) = rd_schema d"

primrec change_table :: "change \<Rightarrow> js_string" where
  "change_table (ColumnChange c) = cc_table c"
| "change_table (RowDeletion d) = rd_table d"

primrec change_pk :: "change \<Rightarrow> row" where
  "change_pk (ColumnChange c) = cc_pk c"
| "change_pk (RowDeletion d) = rd_pk d"

primrec change_hlc :: "change \<Rightarrow> hlc" where
  "change_hlc (ColumnChange c) = cc_hlc c"
| "change_hlc (RowDeletion d) = rd_hlc d"

primrec change_column :: "change \<Rightarrow> js_string option" where
  "change_column (ColumnChange c) = Some (cc_column c)"
| "change_column (RowDeletion d) = None"

definition is_delete :: "change \<Rightarrow> bool" where
  "is_delete c \<longleftrightarrow> change_column c = None"

section \<open>Filing positions\<close>

record filed_at =
  fa_hlc :: hlc
  fa_position :: "hlc option"

definition filingPosition :: "filed_at \<Rightarrow> hlc" where
  "filingPosition filed = (case fa_position filed of None \<Rightarrow> fa_hlc filed | Some p \<Rightarrow> p)"

definition positionField :: "hlc \<Rightarrow> hlc option \<Rightarrow> hlc option" where
  "positionField h position = (case position of
     None \<Rightarrow> None
   | Some p \<Rightarrow> if compareHLC p h \<noteq> 0 then Some p else None)"

text \<open>The \<open>n\<close>-th position of one filing tick; the source throws beyond \<open>MAX_OPSEQ\<close>.\<close>

definition positionsFrom :: "hlc \<Rightarrow> nat \<Rightarrow> hlc option" where
  "positionsFrom t n = (if MAX_OPSEQ < n then None
     else Some (createHLC (wallTime t) (counter t) (siteId t) n))"

lemma filing_positionField [simp]: "filingPosition \<lparr>fa_hlc = h, fa_position = positionField h (Some p)\<rparr> = p"
  using hlc_order.cmp_eq_iff [of p h] by (simp add: filingPosition_def positionField_def)

lemma positionField_hlc: "filingPosition \<lparr>fa_hlc = h, fa_position = positionField h p\<rparr> =
    filingPosition \<lparr>fa_hlc = h, fa_position = p\<rparr>"
  by (cases p) (simp_all add: filingPosition_def positionField_def hlc_order.cmp_eq_iff)

section \<open>Stored records\<close>

record column_version =
  cv_hlc :: hlc
  cv_position :: "hlc option"
  cv_value :: sql_value
  cv_pk :: row
  cv_priorHlc :: "hlc option"
  cv_priorValue :: "sql_value option"

record tombstone =
  tb_hlc :: hlc
  tb_position :: "hlc option"
  tb_createdAt :: int
  tb_pk :: row
  tb_priorRow :: "row option"

record quarantine_entry =
  q_change :: change
  q_receivedAt :: int
  q_forwardable :: bool
  q_position :: "hlc option"

definition cv_filed :: "column_version \<Rightarrow> filed_at" where
  "cv_filed v = \<lparr>fa_hlc = cv_hlc v, fa_position = cv_position v\<rparr>"

definition tb_filed :: "tombstone \<Rightarrow> filed_at" where
  "tb_filed t = \<lparr>fa_hlc = tb_hlc t, fa_position = tb_position t\<rparr>"

definition holdPosition :: "quarantine_entry \<Rightarrow> hlc" where
  "holdPosition entry = filingPosition \<lparr>fa_hlc = change_hlc (q_change entry), fa_position = q_position entry\<rparr>"

datatype entry_type = ColumnEntry | DeleteEntry

type_synonym table_name = "js_string \<times> js_string"
type_synonym row_key = "js_string \<times> js_string"
type_synonym cell_key = "js_string \<times> js_string \<times> js_string"
type_synonym log_key = "hlc \<times> entry_type \<times> js_string \<times> js_string \<times> js_string option"
type_synonym quarantine_key = "js_string \<times> js_string \<times> hlc \<times> entry_type \<times> js_string \<times> js_string option"

record sync_meta =
  tableGenerations :: "(table_name \<times> js_string) list"
  columnVersions :: "(cell_key \<times> column_version) list"
  tombstones :: "(row_key \<times> tombstone) list"
  changeLog :: "(log_key \<times> hlc) list"
  quarantine :: "(quarantine_key \<times> quarantine_entry) list"
  deltaFloor :: "hlc option"
  hlcManager :: hlc_manager
  persistedClock :: "(int \<times> nat) option"

text \<open>
  What the stores are given: the primary-key keying of each table (it throws for a table outside
  the basis, which no caller here asks about) and the generation a name draws when it first files
  something. The source draws 16 random bytes (table-identity.ts); \<open>mintGeneration\<close> is the draw of
  each name in the run at hand. A run draws for a name at most once, as \<open>ensure\<close> draws only for a
  name that has no generation and an apply without migrations drops no table. That draws do not collide is a
  hypothesis of the statements that need it.
\<close>

record sync_keying =
  getPkKeying :: "js_string \<Rightarrow> js_string \<Rightarrow> pk_identity_keying"
  mintGeneration :: "js_string \<Rightarrow> js_string \<Rightarrow> js_string"

definition identity_of :: "('k) sync_keying_scheme \<Rightarrow> js_string \<Rightarrow> js_string \<Rightarrow> row \<Rightarrow> js_string" where
  "identity_of E schema table pk = encodePkIdentity pk (getPkKeying E schema table)"

section \<open>Table generations\<close>

definition generationOf :: "sync_meta \<Rightarrow> js_string \<Rightarrow> js_string \<Rightarrow> js_string option" where
  "generationOf S schema table = map_of (tableGenerations S) (schema, table)"

definition nameOf :: "sync_meta \<Rightarrow> js_string \<Rightarrow> table_name option" where
  "nameOf S generation = map_of (map (\<lambda>(name, g). (g, name)) (tableGenerations S)) generation"

definition ensure :: "('k) sync_keying_scheme \<Rightarrow> js_string \<Rightarrow> js_string \<Rightarrow> sync_meta \<Rightarrow> js_string \<times> sync_meta" where
  "ensure E schema table S = (case generationOf S schema table of
     Some g \<Rightarrow> (g, S)
   | None \<Rightarrow> (let g = mintGeneration E schema table
             in (g, S\<lparr>tableGenerations := tableGenerations S @ [((schema, table), g)]\<rparr>)))"

section \<open>Cell versions\<close>

definition getColumnVersionByIdentity :: "sync_meta \<Rightarrow> js_string \<Rightarrow> js_string \<Rightarrow> js_string \<Rightarrow> column_version option" where
  "getColumnVersionByIdentity S generation ident column = map_of (columnVersions S) (generation, ident, column)"

definition getColumnVersion ::
  "('k) sync_keying_scheme \<Rightarrow> sync_meta \<Rightarrow> js_string \<Rightarrow> js_string \<Rightarrow> row \<Rightarrow> js_string \<Rightarrow> column_version option" where
  "getColumnVersion E S schema table pk column = (case generationOf S schema table of
     None \<Rightarrow> None
   | Some g \<Rightarrow> getColumnVersionByIdentity S g (identity_of E schema table pk) column)"

definition setColumnVersionBatch ::
  "('k) sync_keying_scheme \<Rightarrow> js_string \<Rightarrow> js_string \<Rightarrow> row \<Rightarrow> js_string \<Rightarrow> column_version \<Rightarrow> sync_meta \<Rightarrow> sync_meta" where
  "setColumnVersionBatch E schema table pk column v S =
     (case ensure E schema table S of (g, S') \<Rightarrow>
        S'\<lparr>columnVersions := AList.update (g, identity_of E schema table pk, column)
             (v\<lparr>cv_position := positionField (cv_hlc v) (cv_position v), cv_pk := pk\<rparr>) (columnVersions S')\<rparr>)"

definition row_versions :: "sync_meta \<Rightarrow> js_string \<Rightarrow> js_string \<Rightarrow> (js_string \<times> column_version) list" where
  "row_versions S g ident = map (\<lambda>((_, _, column), v). (column, v))
     (filter (\<lambda>((g', ident', _), _). g' = g \<and> ident' = ident) (columnVersions S))"

definition getRowVersions ::
  "('k) sync_keying_scheme \<Rightarrow> sync_meta \<Rightarrow> js_string \<Rightarrow> js_string \<Rightarrow> row \<Rightarrow> (js_string \<times> column_version) list" where
  "getRowVersions E S schema table pk = (case generationOf S schema table of
     None \<Rightarrow> []
   | Some g \<Rightarrow> row_versions S g (identity_of E schema table pk))"

definition hasRowVersions :: "('k) sync_keying_scheme \<Rightarrow> sync_meta \<Rightarrow> js_string \<Rightarrow> js_string \<Rightarrow> row \<Rightarrow> bool" where
  "hasRowVersions E S schema table pk \<longleftrightarrow> getRowVersions E S schema table pk \<noteq> []"

text \<open>
  The deletions a batch stages, and what its write does. Staging reads the stored records and
  writing comes later, so the two are separate steps.
\<close>

record delete_batch =
  db_cells :: "cell_key list"
  db_entries :: "log_key list"

definition write_deletes :: "delete_batch \<Rightarrow> sync_meta \<Rightarrow> sync_meta" where
  "write_deletes batch S = S\<lparr>columnVersions := fold AList.delete (db_cells batch) (columnVersions S),
     changeLog := fold AList.delete (db_entries batch) (changeLog S)\<rparr>"

definition deleteRowVersionsBatch ::
  "('k) sync_keying_scheme \<Rightarrow> js_string \<Rightarrow> js_string \<Rightarrow> row \<Rightarrow> js_string set \<Rightarrow> sync_meta \<Rightarrow>
   (js_string \<times> column_version) list \<times> cell_key list" where
  "deleteRowVersionsBatch E schema table pk keepColumns S =
     (let versions = filter (\<lambda>(column, _). column \<notin> keepColumns) (getRowVersions E S schema table pk)
      in case generationOf S schema table of
           None \<Rightarrow> (versions, [])
         | Some g \<Rightarrow> (versions, map (\<lambda>(column, _). (g, identity_of E schema table pk, column)) versions))"

definition shouldApplyWrite ::
  "('k) sync_keying_scheme \<Rightarrow> sync_meta \<Rightarrow> js_string \<Rightarrow> js_string \<Rightarrow> row \<Rightarrow> js_string \<Rightarrow> hlc \<Rightarrow> bool" where
  "shouldApplyWrite E S schema table pk column incoming = (case getColumnVersion E S schema table pk column of
     None \<Rightarrow> True
   | Some current \<Rightarrow> 0 < compareHLC incoming (cv_hlc current))"

section \<open>Tombstones\<close>

definition getTombstoneByIdentity :: "sync_meta \<Rightarrow> js_string \<Rightarrow> js_string \<Rightarrow> tombstone option" where
  "getTombstoneByIdentity S generation ident = map_of (tombstones S) (generation, ident)"

definition getTombstone :: "('k) sync_keying_scheme \<Rightarrow> sync_meta \<Rightarrow> js_string \<Rightarrow> js_string \<Rightarrow> row \<Rightarrow> tombstone option" where
  "getTombstone E S schema table pk = (case generationOf S schema table of
     None \<Rightarrow> None
   | Some g \<Rightarrow> getTombstoneByIdentity S g (identity_of E schema table pk))"

definition setTombstoneBatch ::
  "('k) sync_keying_scheme \<Rightarrow> js_string \<Rightarrow> js_string \<Rightarrow> row \<Rightarrow> filed_at \<Rightarrow> row option \<Rightarrow> int \<Rightarrow> sync_meta \<Rightarrow> sync_meta" where
  "setTombstoneBatch E schema table pk filed priorRow createdAt S =
     (case ensure E schema table S of (g, S') \<Rightarrow>
        S'\<lparr>tombstones := AList.update (g, identity_of E schema table pk)
             \<lparr>tb_hlc = fa_hlc filed, tb_position = positionField (fa_hlc filed) (fa_position filed),
              tb_createdAt = createdAt, tb_pk = pk, tb_priorRow = priorRow\<rparr> (tombstones S')\<rparr>)"

definition isDeletedAndBlocking ::
  "('k) sync_keying_scheme \<Rightarrow> sync_meta \<Rightarrow> js_string \<Rightarrow> js_string \<Rightarrow> row \<Rightarrow> hlc \<Rightarrow> bool \<Rightarrow> bool" where
  "isDeletedAndBlocking E S schema table pk incoming allowRes = (case getTombstone E S schema table pk of
     None \<Rightarrow> False
   | Some t \<Rightarrow> if allowRes then compareHLC incoming (tb_hlc t) \<le> 0 else True)"

section \<open>Change log\<close>

definition recordColumnChangeBatch ::
  "('k) sync_keying_scheme \<Rightarrow> filed_at \<Rightarrow> js_string \<Rightarrow> js_string \<Rightarrow> row \<Rightarrow> js_string \<Rightarrow> sync_meta \<Rightarrow> sync_meta" where
  "recordColumnChangeBatch E filed schema table pk column S =
     (case ensure E schema table S of (g, S') \<Rightarrow>
        S'\<lparr>changeLog := AList.update (filingPosition filed, ColumnEntry, g, identity_of E schema table pk, Some column)
             (fa_hlc filed) (changeLog S')\<rparr>)"

definition recordDeletionBatch ::
  "('k) sync_keying_scheme \<Rightarrow> filed_at \<Rightarrow> js_string \<Rightarrow> js_string \<Rightarrow> row \<Rightarrow> sync_meta \<Rightarrow> sync_meta" where
  "recordDeletionBatch E filed schema table pk S =
     (case ensure E schema table S of (g, S') \<Rightarrow>
        S'\<lparr>changeLog := AList.update (filingPosition filed, DeleteEntry, g, identity_of E schema table pk, None)
             (fa_hlc filed) (changeLog S')\<rparr>)"

definition deleteEntryBatch ::
  "('k) sync_keying_scheme \<Rightarrow> filed_at \<Rightarrow> entry_type \<Rightarrow> js_string \<Rightarrow> js_string \<Rightarrow> row \<Rightarrow> js_string option \<Rightarrow> sync_meta \<Rightarrow> sync_meta" where
  "deleteEntryBatch E filed entryType schema table pk column S = (case generationOf S schema table of
     None \<Rightarrow> S
   | Some g \<Rightarrow> S\<lparr>changeLog := AList.delete
        (filingPosition filed, entryType, g, identity_of E schema table pk, column) (changeLog S)\<rparr>)"

definition staged_entry ::
  "('k) sync_keying_scheme \<Rightarrow> sync_meta \<Rightarrow> filed_at \<Rightarrow> entry_type \<Rightarrow> js_string \<Rightarrow> js_string \<Rightarrow> row \<Rightarrow> js_string option \<Rightarrow> log_key list" where
  "staged_entry E S filed entryType schema table pk column = (case generationOf S schema table of
     None \<Rightarrow> []
   | Some g \<Rightarrow> [(filingPosition filed, entryType, g, identity_of E schema table pk, column)])"

definition deleteRowVersionsAndLogEntries ::
  "('k) sync_keying_scheme \<Rightarrow> js_string \<Rightarrow> js_string \<Rightarrow> row \<Rightarrow> js_string set \<Rightarrow> sync_meta \<Rightarrow> delete_batch" where
  "deleteRowVersionsAndLogEntries E schema table pk keepColumns S =
     (case deleteRowVersionsBatch E schema table pk keepColumns S of (removed, cells) \<Rightarrow>
        \<lparr>db_cells = cells, db_entries = concat (map (\<lambda>(column, v).
           staged_entry E S (cv_filed v) ColumnEntry schema table pk (Some column)) removed)\<rparr>)"

section \<open>Held changes and the delta floor\<close>

definition quarantineKeyOf :: "change \<Rightarrow> quarantine_key" where
  "quarantineKeyOf c = (change_schema c, change_table c, change_hlc c,
     (if is_delete c then DeleteEntry else ColumnEntry), encodeRawPkIdentity (change_pk c), change_column c)"

definition quarantine_put :: "change \<Rightarrow> int \<Rightarrow> bool \<Rightarrow> hlc \<Rightarrow> sync_meta \<Rightarrow> sync_meta" where
  "quarantine_put c receivedAt forwardable position S =
     S\<lparr>quarantine := AList.update (quarantineKeyOf c)
        \<lparr>q_change = c, q_receivedAt = receivedAt, q_forwardable = forwardable,
         q_position = positionField (change_hlc c) (Some position)\<rparr> (quarantine S)\<rparr>"

definition quarantine_get :: "sync_meta \<Rightarrow> change \<Rightarrow> quarantine_entry option" where
  "quarantine_get S c = map_of (quarantine S) (quarantineKeyOf c)"

definition listForwardable :: "sync_meta \<Rightarrow> quarantine_entry list" where
  "listForwardable S = filter q_forwardable (map snd (quarantine S))"

definition admits :: "sync_meta \<Rightarrow> hlc \<Rightarrow> bool" where
  "admits S since = (case deltaFloor S of None \<Rightarrow> True | Some f \<Rightarrow> 0 \<le> compareHLC since f)"

definition persistHLCStateBatch :: "sync_meta \<Rightarrow> sync_meta" where
  "persistHLCStateBatch S = S\<lparr>persistedClock := Some (getState (hlcManager S))\<rparr>"

end
