(* ===== verification/Sync_Apply.thy ===== *)
theory Sync_Apply
  imports Sync_Records
begin

text \<open>
  Applying change sets from a peer (quereus-sync/src/sync/change-applicator.ts): resolution of
  each change against the stored records, reconciliation of a batch's deletes with its own column
  changes, refusal of edits of forgotten rows, and the filing of the winners. The model covers
  batches without schema migrations; events and logging are left out. Local commits may land at
  every \<open>await\<close> that is not on the commit chain: before each read of a resolution, before the data
  write, before the filing, and before the scan and before the write of each delete's cleanup.
\<close>

section \<open>Configuration and host\<close>

datatype disposition = DispIgnore | DispQuarantine | DispStoreAndForward

record conflict_context =
  cx_schema :: js_string
  cx_table :: js_string
  cx_pk :: row
  cx_column :: js_string
  cx_localValue :: sql_value
  cx_localHlc :: hlc
  cx_remoteValue :: sql_value
  cx_remoteHlc :: hlc
  cx_remotePriorHlc :: "hlc option"
  cx_remotePriorValue :: "sql_value option"

datatype resolution = ResolveLocal | ResolveRemote

record sync_env = sync_keying +
  ownSiteId :: site_id
  isTableInBasis :: "js_string \<Rightarrow> js_string \<Rightarrow> bool"
  lowerCase :: "js_string \<Rightarrow> js_string"
  allowResurrection :: bool
  conflictResolver :: "(conflict_context \<Rightarrow> resolution) option"
  unknownTableDisposition :: disposition

definition lwwResolver :: "conflict_context \<Rightarrow> resolution" where
  "lwwResolver cx = (if 0 < compareHLC (cx_remoteHlc cx) (cx_localHlc cx) then ResolveRemote else ResolveLocal)"

definition localWinsResolver :: "conflict_context \<Rightarrow> resolution" where
  "localWinsResolver cx = ResolveLocal"

definition remoteWinsResolver :: "conflict_context \<Rightarrow> resolution" where
  "remoteWinsResolver cx = ResolveRemote"

datatype data_change =
    DataUpdate js_string js_string row "(js_string \<times> sql_value) list"
  | DataDelete js_string js_string row

record change_set =
  cs_siteId :: site_id
  cs_transactionId :: js_string
  cs_hlc :: hlc
  cs_changes :: "change list"

section \<open>Local writes during an apply (local-write-tracker.ts)\<close>

record local_writes =
  lw_cells :: "js_string set"
  lw_replacedRows :: "js_string set"

definition no_local_writes :: local_writes where
  "no_local_writes = \<lparr>lw_cells = {}, lw_replacedRows = {}\<rparr>"

definition tracker_rowKey :: "sync_env \<Rightarrow> js_string \<Rightarrow> js_string \<Rightarrow> row \<Rightarrow> js_string" where
  "tracker_rowKey E schema table pk =
     joinKeyParts [lowerCase E schema, lowerCase E table, identity_of E schema table pk]"

definition tracker_cellKey :: "sync_env \<Rightarrow> js_string \<Rightarrow> js_string \<Rightarrow> js_string" where
  "tracker_cellKey E rowKey column = joinKeyParts [rowKey, lowerCase E column]"

definition noteCells :: "sync_env \<Rightarrow> js_string \<Rightarrow> js_string \<Rightarrow> row \<Rightarrow> js_string list \<Rightarrow> local_writes \<Rightarrow> local_writes" where
  "noteCells E schema table pk columns w =
     w\<lparr>lw_cells := lw_cells w \<union> tracker_cellKey E (tracker_rowKey E schema table pk) ` set columns\<rparr>"

definition noteRowReplaced :: "sync_env \<Rightarrow> js_string \<Rightarrow> js_string \<Rightarrow> row \<Rightarrow> local_writes \<Rightarrow> local_writes" where
  "noteRowReplaced E schema table pk w =
     w\<lparr>lw_replacedRows := insert (tracker_rowKey E schema table pk) (lw_replacedRows w)\<rparr>"

definition supersedes :: "sync_env \<Rightarrow> local_writes \<Rightarrow> js_string \<Rightarrow> js_string \<Rightarrow> row \<Rightarrow> js_string option \<Rightarrow> bool" where
  "supersedes E w schema table pk column \<longleftrightarrow>
     (let rk = tracker_rowKey E schema table pk in
      if rk \<in> lw_replacedRows w then True
      else (case column of None \<Rightarrow> False | Some c \<Rightarrow> tracker_cellKey E rk c \<in> lw_cells w))"

definition supersededChange :: "sync_env \<Rightarrow> local_writes \<Rightarrow> change \<Rightarrow> bool" where
  "supersededChange E w c = supersedes E w (change_schema c) (change_table c) (change_pk c) (change_column c)"

section \<open>The replica and its host\<close>

text \<open>
  The rows live in the host's store, behind \<open>applyToStore\<close>, which skips what the tracker says a
  local write superseded and throws or reports errors as \<open>Inl\<close>. The other fields are the local
  commits that land during the apply: before read \<open>k\<close> of the resolution of the \<open>i\<close>-th change
  (\<open>whileResolving i k\<close>), between the resolution and the data write, between that and the filing,
  and, in the cleanup of the \<open>i\<close>-th filed delete, before its scan (\<open>whileCleaning i 0\<close>) and between
  its scan and its write (\<open>whileCleaning i 1\<close>). Each changes the replica and yields the tracker as
  it then is.
\<close>

record 'db replica =
  rep_meta :: sync_meta
  rep_rows :: 'db

type_synonym 'db local_commits = "'db replica \<Rightarrow> 'db replica \<times> local_writes"

record 'db sync_host =
  applyToStore :: "data_change list \<Rightarrow> (js_string \<Rightarrow> js_string \<Rightarrow> row \<Rightarrow> js_string option \<Rightarrow> bool) \<Rightarrow> 'db \<Rightarrow> js_string + 'db"
  whileResolving :: "nat \<Rightarrow> nat \<Rightarrow> 'db local_commits"
  beforeWrite :: "'db local_commits"
  beforeFiling :: "'db local_commits"
  whileCleaning :: "nat \<Rightarrow> nat \<Rightarrow> 'db local_commits"

section \<open>Resolution\<close>

text \<open>
  A resolution reads the stored records up to four times, with an \<open>await\<close> at each read: \<open>S k\<close> is the
  state its \<open>k\<close>-th read finds.
\<close>

datatype outcome = Applied | Skipped | Conflict

record resolved_change =
  rc_outcome :: outcome
  rc_change :: change
  rc_dataChange :: "data_change option"
  rc_keepColumns :: "js_string set"
  rc_priorErased :: bool
  rc_editOfForgottenRow :: bool

definition plain_resolution :: "outcome \<Rightarrow> change \<Rightarrow> resolved_change" where
  "plain_resolution out c = \<lparr>rc_outcome = out, rc_change = c, rc_dataChange = None, rc_keepColumns = {},
     rc_priorErased = False, rc_editOfForgottenRow = False\<rparr>"

definition remote_wins :: "sync_env \<Rightarrow> column_change \<Rightarrow> column_version \<Rightarrow> bool" where
  "remote_wins E c local = (case conflictResolver E of
     Some f \<Rightarrow> f \<lparr>cx_schema = cc_schema c, cx_table = cc_table c, cx_pk = cc_pk c, cx_column = cc_column c,
         cx_localValue = cv_value local, cx_localHlc = cv_hlc local, cx_remoteValue = cc_value c, cx_remoteHlc = cc_hlc c,
         cx_remotePriorHlc = cc_priorHlc c,
         cx_remotePriorValue = (if cc_priorHlc c = None then None else cc_priorValue c)\<rparr> = ResolveRemote
   | None \<Rightarrow> 0 < compareHLC (cc_hlc c) (cv_hlc local))"

definition isEditOfForgottenRow :: "sync_env \<Rightarrow> sync_meta \<Rightarrow> sync_meta \<Rightarrow> column_change \<Rightarrow> bool" where
  "isEditOfForgottenRow E S S' c \<longleftrightarrow>
     (if allowResurrection E \<or> cc_priorHlc c = None then False
      else if deltaFloor S = None then False
      else getRowVersions E S' (cc_schema c) (cc_table c) (cc_pk c) = [])"

definition resolveDelete :: "sync_env \<Rightarrow> (nat \<Rightarrow> sync_meta) \<Rightarrow> row_deletion \<Rightarrow> resolved_change" where
  "resolveDelete E S d =
     (case getTombstone E (S 0) (rd_schema d) (rd_table d) (rd_pk d) of
        Some t \<Rightarrow> if compareHLC (rd_hlc d) (tb_hlc t) \<le> 0 then plain_resolution Skipped (RowDeletion d)
                  else (plain_resolution Applied (RowDeletion d))
                    \<lparr>rc_dataChange := Some (DataDelete (rd_schema d) (rd_table d) (rd_pk d))\<rparr>
      | None \<Rightarrow> (plain_resolution Applied (RowDeletion d))
          \<lparr>rc_dataChange := Some (DataDelete (rd_schema d) (rd_table d) (rd_pk d))\<rparr>)"

definition resolveColumn :: "sync_env \<Rightarrow> (nat \<Rightarrow> sync_meta) \<Rightarrow> column_change \<Rightarrow> resolved_change" where
  "resolveColumn E S c =
     (let localVersion = getColumnVersion E (S 0) (cc_schema c) (cc_table c) (cc_pk c) (cc_column c) in
      if (case localVersion of None \<Rightarrow> False | Some v \<Rightarrow> \<not> remote_wins E c v) then plain_resolution Conflict (ColumnChange c)
      else if isDeletedAndBlocking E (S 1) (cc_schema c) (cc_table c) (cc_pk c) (cc_hlc c) (allowResurrection E)
      then plain_resolution Skipped (ColumnChange c)
      else (plain_resolution Applied (ColumnChange c))
        \<lparr>rc_dataChange := Some (DataUpdate (cc_schema c) (cc_table c) (cc_pk c) [(cc_column c, cc_value c)]),
         rc_editOfForgottenRow := localVersion = None \<and> isEditOfForgottenRow E (S 2) (S 3) c\<rparr>)"

definition resolveChange :: "sync_env \<Rightarrow> (nat \<Rightarrow> sync_meta) \<Rightarrow> change \<Rightarrow> resolved_change" where
  "resolveChange E S c =
     (if siteIdEquals (siteId (change_hlc c)) (ownSiteId E) then plain_resolution Skipped c
      else (case c of RowDeletion d \<Rightarrow> resolveDelete E S d | ColumnChange cc \<Rightarrow> resolveColumn E S cc))"

text \<open>The replica as read \<open>k\<close> of the \<open>i\<close>-th resolution finds it, and the loop over the changes to resolve.\<close>

primrec replica_at :: "'db sync_host \<Rightarrow> nat \<Rightarrow> 'db replica \<Rightarrow> nat \<Rightarrow> 'db replica" where
  "replica_at H i R 0 = fst (whileResolving H i 0 R)"
| "replica_at H i R (Suc k) = fst (whileResolving H i (Suc k) (replica_at H i R k))"

fun resolve_loop :: "sync_env \<Rightarrow> 'db sync_host \<Rightarrow> nat \<Rightarrow> change list \<Rightarrow> 'db replica \<Rightarrow> resolved_change list \<times> 'db replica" where
  "resolve_loop E H i [] R = ([], R)"
| "resolve_loop E H i (c # cs) R =
     (let resolved = resolveChange E (\<lambda>k. rep_meta (replica_at H i R k)) c
      in case resolve_loop E H (Suc i) cs (replica_at H i R 3) of (rs, R') \<Rightarrow> (resolved # rs, R'))"

section \<open>Reconciliation within a batch\<close>

definition rowIdentityKey :: "sync_env \<Rightarrow> change \<Rightarrow> js_string" where
  "rowIdentityKey E c = joinKeyParts [change_schema c, change_table c, identity_of E (change_schema c) (change_table c) (change_pk c)]"

definition applied_delete :: "resolved_change \<Rightarrow> bool" where
  "applied_delete r \<longleftrightarrow> rc_outcome r = Applied \<and> is_delete (rc_change r)"

definition applied_column :: "resolved_change \<Rightarrow> bool" where
  "applied_column r \<longleftrightarrow> rc_outcome r = Applied \<and> \<not> is_delete (rc_change r)"

text \<open>An entry of the list is an object of the source: the index stands for its identity.\<close>

type_synonym delete_winners = "(js_string \<times> (nat \<times> resolved_change)) list"

definition winner_step :: "sync_env \<Rightarrow> nat \<times> resolved_change \<Rightarrow> delete_winners \<Rightarrow> delete_winners" where
  "winner_step E ir m = (case ir of (i, r) \<Rightarrow>
     if \<not> applied_delete r then m
     else let k = rowIdentityKey E (rc_change r) in
       (case map_of m k of
          None \<Rightarrow> AList.update k (i, r) m
        | Some (_, prev) \<Rightarrow> if 0 < compareHLC (change_hlc (rc_change r)) (change_hlc (rc_change prev))
                          then AList.update k (i, r) m else m))"

definition deleteWinnersByRow :: "sync_env \<Rightarrow> resolved_change list \<Rightarrow> delete_winners" where
  "deleteWinnersByRow E rs = fold (winner_step E) (enumerate 0 rs) []"

definition beats_delete :: "sync_env \<Rightarrow> resolved_change \<Rightarrow> resolved_change \<Rightarrow> bool" where
  "beats_delete E r w \<longleftrightarrow> allowResurrection E \<and> 0 < compareHLC (change_hlc (rc_change r)) (change_hlc (rc_change w))"

definition kept_columns :: "sync_env \<Rightarrow> resolved_change list \<Rightarrow> resolved_change \<Rightarrow> js_string set" where
  "kept_columns E rs w = set (map (\<lambda>r. the (change_column (rc_change r)))
     (filter (\<lambda>r. applied_column r \<and> rowIdentityKey E (rc_change r) = rowIdentityKey E (rc_change w) \<and> beats_delete E r w) rs))"

definition reconcile_entry :: "sync_env \<Rightarrow> delete_winners \<Rightarrow> resolved_change list \<Rightarrow> nat \<times> resolved_change \<Rightarrow> resolved_change" where
  "reconcile_entry E W rs ir = (case ir of (i, r) \<Rightarrow>
     (case map_of W (rowIdentityKey E (rc_change r)) of
        None \<Rightarrow> r
      | Some (j, w) \<Rightarrow>
          if applied_delete r then (if i = j then r\<lparr>rc_keepColumns := kept_columns E rs w\<rparr> else r)
          else if applied_column r then
            (if beats_delete E r w then r\<lparr>rc_priorErased := True\<rparr> else plain_resolution Skipped (rc_change r))
          else r))"

definition reconcileInBatchDeletes :: "sync_env \<Rightarrow> resolved_change list \<Rightarrow> resolved_change list" where
  "reconcileInBatchDeletes E rs =
     (let W = deleteWinnersByRow E rs in
      if W = [] then rs else map (reconcile_entry E W rs) (enumerate 0 rs))"

definition foundedRows :: "sync_env \<Rightarrow> resolved_change list \<Rightarrow> js_string set" where
  "foundedRows E rs = set (map (\<lambda>r. rowIdentityKey E (rc_change r)) (filter (\<lambda>r. rc_outcome r = Applied \<and>
     (case rc_change r of ColumnChange c \<Rightarrow> cc_priorHlc c = None | RowDeletion _ \<Rightarrow> False)) rs))"

definition refuseEditsOfForgottenRows :: "sync_env \<Rightarrow> resolved_change list \<Rightarrow> resolved_change list" where
  "refuseEditsOfForgottenRows E rs =
     (if filter rc_editOfForgottenRow rs = [] then rs
      else map (\<lambda>r. if \<not> rc_editOfForgottenRow r then r
             else if rowIdentityKey E (rc_change r) \<in> foundedRows E rs then r
             else plain_resolution Skipped (rc_change r)) rs)"

definition orderDataChangesByHLC :: "resolved_change list \<Rightarrow> data_change list" where
  "orderDataChangesByHLC rs = map (\<lambda>r. the (rc_dataChange r))
     (sort_cmp (\<lambda>a b. compareHLC (change_hlc (rc_change a)) (change_hlc (rc_change b)))
        (filter (\<lambda>r. rc_dataChange r \<noteq> None) rs))"

section \<open>Filing\<close>

datatype fact =
    DeleteFact row_deletion resolved_change
  | ColumnFact column_change resolved_change
  | HeldFact change int bool

primrec fact_change :: "fact \<Rightarrow> change" where
  "fact_change (DeleteFact d _) = RowDeletion d"
| "fact_change (ColumnFact c _) = ColumnChange c"
| "fact_change (HeldFact c _ _) = c"

primrec is_held :: "fact \<Rightarrow> bool" where
  "is_held (DeleteFact d _) = False"
| "is_held (ColumnFact c _) = False"
| "is_held (HeldFact c _ _) = True"

record hold_options =
  hold_changes :: "change list"
  hold_receivedAt :: int
  hold_forwardable :: bool

definition heldFacts :: "hold_options option \<Rightarrow> fact list" where
  "heldFacts hold = (case hold of
     None \<Rightarrow> []
   | Some h \<Rightarrow> map (\<lambda>c. HeldFact c (hold_receivedAt h) (hold_forwardable h)) (hold_changes h))"

definition deleteKey :: "sync_env \<Rightarrow> change \<Rightarrow> js_string" where
  "deleteKey E c = lit ''delete:'' @ rowIdentityKey E c"

definition columnKey :: "sync_env \<Rightarrow> change \<Rightarrow> js_string \<Rightarrow> js_string" where
  "columnKey E c column = lit ''column:'' @ rowIdentityKey E c @ joinKeyParts [column]"

definition keepMaxHLC :: "js_string \<Rightarrow> resolved_change \<Rightarrow> (js_string \<times> resolved_change) list \<Rightarrow> (js_string \<times> resolved_change) list" where
  "keepMaxHLC k r winners = (case map_of winners k of
     None \<Rightarrow> AList.update k r winners
   | Some prev \<Rightarrow> if 0 < compareHLC (change_hlc (rc_change r)) (change_hlc (rc_change prev))
                  then AList.update k r winners else winners)"

definition collapse_step ::
  "sync_env \<Rightarrow> resolved_change \<Rightarrow> (js_string \<times> resolved_change) list \<times> (js_string \<times> resolved_change) list \<Rightarrow>
   (js_string \<times> resolved_change) list \<times> (js_string \<times> resolved_change) list" where
  "collapse_step E r w = (if rc_outcome r \<noteq> Applied then w
     else (case rc_change r of
        RowDeletion _ \<Rightarrow> (keepMaxHLC (deleteKey E (rc_change r)) r (fst w), snd w)
      | ColumnChange c \<Rightarrow> (fst w, keepMaxHLC (columnKey E (rc_change r) (cc_column c)) r (snd w))))"

definition fact_of :: "resolved_change \<Rightarrow> fact" where
  "fact_of r = (case rc_change r of RowDeletion d \<Rightarrow> DeleteFact d r | ColumnChange c \<Rightarrow> ColumnFact c r)"

definition collapseInBatchRepeats :: "sync_env \<Rightarrow> resolved_change list \<Rightarrow> fact list" where
  "collapseInBatchRepeats E rs =
     (case fold (collapse_step E) rs ([], []) of (deleteWinners, columnWinners) \<Rightarrow>
        map fact_of (map snd deleteWinners @ map snd columnWinners))"

definition commitDeleteMetadata :: "sync_env \<Rightarrow> row_deletion \<Rightarrow> hlc \<Rightarrow> tombstone option \<Rightarrow> int \<Rightarrow> sync_meta \<Rightarrow> sync_meta" where
  "commitDeleteMetadata E d position oldTombstone createdAt S =
     (let S1 = (case oldTombstone of None \<Rightarrow> S
                | Some t \<Rightarrow> deleteEntryBatch E (tb_filed t) DeleteEntry (rd_schema d) (rd_table d) (rd_pk d) None S);
          filed = \<lparr>fa_hlc = rd_hlc d, fa_position = Some position\<rparr>
      in recordDeletionBatch E filed (rd_schema d) (rd_table d) (rd_pk d)
           (setTombstoneBatch E (rd_schema d) (rd_table d) (rd_pk d) filed (rd_priorRow d) createdAt S1))"

definition commitColumnMetadata ::
  "sync_env \<Rightarrow> column_change \<Rightarrow> hlc \<Rightarrow> column_version option \<Rightarrow> bool \<Rightarrow> sync_meta \<Rightarrow> sync_meta" where
  "commitColumnMetadata E c position oldVersion priorErased S =
     (let S1 = (case oldVersion of None \<Rightarrow> S
                | Some v \<Rightarrow> deleteEntryBatch E (cv_filed v) ColumnEntry (cc_schema c) (cc_table c) (cc_pk c) (Some (cc_column c)) S);
          prior = (case oldVersion of
                     Some v \<Rightarrow> if cc_priorHlc c \<noteq> None \<and> \<not> priorErased then Some v else None
                   | None \<Rightarrow> None);
          version = \<lparr>cv_hlc = cc_hlc c, cv_position = Some position, cv_value = cc_value c, cv_pk = cc_pk c,
             cv_priorHlc = map_option cv_hlc prior, cv_priorValue = map_option cv_value prior\<rparr>
      in recordColumnChangeBatch E (cv_filed version) (cc_schema c) (cc_table c) (cc_pk c) (cc_column c)
           (setColumnVersionBatch E (cc_schema c) (cc_table c) (cc_pk c) (cc_column c) version S1))"

text \<open>The records a fact replaces and the position a re-held change keeps are read before the batch is written.\<close>

definition fileFact :: "sync_env \<Rightarrow> int \<Rightarrow> sync_meta \<Rightarrow> fact \<Rightarrow> hlc \<Rightarrow> sync_meta \<Rightarrow> sync_meta" where
  "fileFact E createdAt S0 f position S = (case f of
     DeleteFact d _ \<Rightarrow> commitDeleteMetadata E d position (getTombstone E S0 (rd_schema d) (rd_table d) (rd_pk d)) createdAt S
   | ColumnFact c r \<Rightarrow> commitColumnMetadata E c position
        (getColumnVersion E S0 (cc_schema c) (cc_table c) (cc_pk c) (cc_column c)) (rc_priorErased r) S
   | HeldFact c receivedAt forwardable \<Rightarrow> quarantine_put c receivedAt forwardable position S)"

definition positionOfExistingHold :: "sync_meta \<Rightarrow> fact \<Rightarrow> hlc option" where
  "positionOfExistingHold S f = (case f of
     HeldFact c _ forwardable \<Rightarrow>
       (case quarantine_get S c of
          None \<Rightarrow> None
        | Some entry \<Rightarrow> if q_forwardable entry \<or> \<not> forwardable then Some (holdPosition entry) else None)
   | _ \<Rightarrow> None)"

datatype apply_error = DriftError clock_error | TickFull | StoreError js_string

text \<open>The clock is read for each delete as it is filed: \<open>createdAt n\<close> when \<open>n\<close> facts are left after it.\<close>

fun file_loop :: "sync_env \<Rightarrow> (nat \<Rightarrow> int) \<Rightarrow> sync_meta \<Rightarrow> hlc \<Rightarrow> nat \<Rightarrow> fact list \<Rightarrow> sync_meta \<Rightarrow> apply_error + sync_meta" where
  "file_loop E createdAt S0 t n [] S = Inr S"
| "file_loop E createdAt S0 t n (f # fs) S = (case positionOfExistingHold S0 f of
     Some p \<Rightarrow> file_loop E createdAt S0 t n fs (fileFact E (createdAt (length fs)) S0 f p S)
   | None \<Rightarrow> (case positionsFrom t n of
        None \<Rightarrow> Inl TickFull
      | Some p \<Rightarrow> file_loop E createdAt S0 t (Suc n) fs (fileFact E (createdAt (length fs)) S0 f p S)))"

definition lostToLocalWrite :: "sync_env \<Rightarrow> local_writes \<Rightarrow> fact \<Rightarrow> bool" where
  "lostToLocalWrite E w f \<longleftrightarrow> \<not> is_held f \<and> supersededChange E w (fact_change f)"

text \<open>The readings of the wall clock an apply takes, in the order it takes them.\<close>

record clock_readings =
  now_check :: int
  now_merge :: int
  now_received :: int
  now_file :: int
  now_tick :: int
  now_created :: "nat \<Rightarrow> int"

definition merge_clock :: "int \<Rightarrow> hlc option \<Rightarrow> sync_meta \<Rightarrow> apply_error + sync_meta" where
  "merge_clock now watermark S = (case watermark of
     None \<Rightarrow> Inr S
   | Some w \<Rightarrow> (case receive now (hlcManager S) w of
        Inl e \<Rightarrow> Inl (DriftError e)
      | Inr (_, m) \<Rightarrow> Inr (S\<lparr>hlcManager := m\<rparr>)))"

definition by_origin :: "fact comparator" where
  "by_origin a b = compareHLC (change_hlc (fact_change a)) (change_hlc (fact_change b))"

definition fileAtNextTick ::
  "sync_env \<Rightarrow> clock_readings \<Rightarrow> fact list \<Rightarrow> hlc option \<Rightarrow> local_writes \<Rightarrow> sync_meta \<Rightarrow> apply_error + fact list \<times> sync_meta" where
  "fileAtNextTick E N facts watermark w S =
     (let toFile = filter (\<lambda>f. \<not> lostToLocalWrite E w f) facts in
      case merge_clock (now_file N) watermark S of
        Inl e \<Rightarrow> Inl e
      | Inr S1 \<Rightarrow>
         (case (if toFile = [] then Inr S1
                else (case tick (now_tick N) (hlcManager S1) of (t, m) \<Rightarrow>
                        file_loop E (now_created N) S1 t 0 (sort_cmp by_origin toFile) (S1\<lparr>hlcManager := m\<rparr>))) of
            Inl e \<Rightarrow> Inl e
          | Inr S2 \<Rightarrow> Inr (toFile, persistHLCStateBatch S2)))"

definition columnsKeptPastDelete :: "sync_env \<Rightarrow> row_deletion \<Rightarrow> resolved_change \<Rightarrow> local_writes \<Rightarrow> js_string set" where
  "columnsKeptPastDelete E d r w =
     Set.filter (\<lambda>column. \<not> supersedes E w (rd_schema d) (rd_table d) (rd_pk d) (Some column)) (rc_keepColumns r)"

definition cleanup_batch :: "sync_env \<Rightarrow> local_writes \<Rightarrow> row_deletion \<Rightarrow> resolved_change \<Rightarrow> sync_meta \<Rightarrow> delete_batch" where
  "cleanup_batch E w d r S =
     deleteRowVersionsAndLogEntries E (rd_schema d) (rd_table d) (rd_pk d) (columnsKeptPastDelete E d r w) S"

fun cleanup_loop :: "sync_env \<Rightarrow> 'db sync_host \<Rightarrow> local_writes \<Rightarrow> nat \<Rightarrow> fact list \<Rightarrow> 'db replica \<Rightarrow> 'db replica" where
  "cleanup_loop E H w i [] R = R"
| "cleanup_loop E H w i (f # fs) R = (case f of
     DeleteFact d r \<Rightarrow>
       (let R0 = fst (whileCleaning H i 0 R);
            batch = cleanup_batch E w d r (rep_meta R0);
            R1 = fst (whileCleaning H i 1 R0)
        in cleanup_loop E H w (Suc i) fs (R1\<lparr>rep_meta := write_deletes batch (rep_meta R1)\<rparr>))
   | ColumnFact _ _ \<Rightarrow> cleanup_loop E H w i fs R
   | HeldFact _ _ _ \<Rightarrow> cleanup_loop E H w i fs R)"

definition commitChangeMetadata ::
  "sync_env \<Rightarrow> 'db sync_host \<Rightarrow> clock_readings \<Rightarrow> resolved_change list \<Rightarrow> hlc option \<Rightarrow> hold_options option \<Rightarrow> local_writes \<Rightarrow>
   'db replica \<Rightarrow> apply_error + 'db replica" where
  "commitChangeMetadata E H N rs watermark hold w R =
     (let facts = collapseInBatchRepeats E rs @ heldFacts hold in
      if facts = [] \<and> watermark = None then Inr R
      else (case fileAtNextTick E N facts watermark w (rep_meta R) of
              Inl e \<Rightarrow> Inl e
            | Inr (filed, S) \<Rightarrow> Inr (cleanup_loop E H w 0 filed (R\<lparr>rep_meta := S\<rparr>))))"

section \<open>One apply\<close>

record apply_result =
  ar_applied :: nat
  ar_skipped :: nat
  ar_conflicts :: nat
  ar_transactions :: nat
  ar_unknownTable :: nat

definition applyDataToStore :: "'db sync_host \<Rightarrow> data_change list \<Rightarrow> (js_string \<Rightarrow> js_string \<Rightarrow> row \<Rightarrow> js_string option \<Rightarrow> bool) \<Rightarrow>
   'db \<Rightarrow> apply_error + 'db" where
  "applyDataToStore H dataChanges superseded db =
     (if dataChanges = [] then Inr db
      else case applyToStore H dataChanges superseded db of Inl e \<Rightarrow> Inl (StoreError e) | Inr db' \<Rightarrow> Inr db')"

definition batch_changes :: "change_set list \<Rightarrow> change list" where
  "batch_changes css = concat (map cs_changes css)"

definition holdOptions :: "disposition \<Rightarrow> change list \<Rightarrow> int \<Rightarrow> hold_options option" where
  "holdOptions disp unknown receivedAt = (if disp = DispIgnore \<or> unknown = [] then None
     else Some \<lparr>hold_changes = unknown, hold_receivedAt = receivedAt, hold_forwardable = (disp = DispStoreAndForward)\<rparr>)"

definition tableKey :: "js_string \<Rightarrow> js_string \<Rightarrow> js_string" where
  "tableKey schema table = schema @ lit ''.'' @ table"

fun add_to_group :: "change \<Rightarrow> (js_string \<times> change list) list \<Rightarrow> (js_string \<times> change list) list" where
  "add_to_group c [] = [(tableKey (change_schema c) (change_table c), [c])]"
| "add_to_group c ((k, cs) # gs) =
     (if k = tableKey (change_schema c) (change_table c) then (k, cs @ [c]) # gs else (k, cs) # add_to_group c gs)"

definition unknownByTable :: "change list \<Rightarrow> (js_string \<times> change list) list" where
  "unknownByTable cs = fold add_to_group cs []"

definition own_change :: "sync_env \<Rightarrow> change \<Rightarrow> bool" where
  "own_change E c = siteIdEquals (siteId (change_hlc c)) (ownSiteId E)"

definition known_table :: "sync_env \<Rightarrow> change \<Rightarrow> bool" where
  "known_table E c = isTableInBasis E (change_schema c) (change_table c)"

definition to_resolve :: "sync_env \<Rightarrow> change list \<Rightarrow> change list" where
  "to_resolve E cs = filter (\<lambda>c. \<not> own_change E c \<and> known_table E c) cs"

definition applyTrackedBatch ::
  "sync_env \<Rightarrow> 'db sync_host \<Rightarrow> clock_readings \<Rightarrow> change_set list \<Rightarrow> hlc option \<Rightarrow> 'db replica \<Rightarrow> apply_error + apply_result \<times> 'db replica" where
  "applyTrackedBatch E H N css watermark R =
     (let cs = batch_changes css;
          echoes = filter (own_change E) cs;
          unknown = filter (\<lambda>c. \<not> own_change E c \<and> \<not> known_table E c) cs;
          held = concat (map snd (unknownByTable unknown))
      in case resolve_loop E H 0 (to_resolve E cs) R of (dataResolutions, R0) \<Rightarrow>
        (let reconciled = refuseEditsOfForgottenRows E (reconcileInBatchDeletes E dataResolutions);
             resolved = filter (\<lambda>r. rc_outcome r = Applied) reconciled
         in case beforeWrite H R0 of (R1, w1) \<Rightarrow>
           (case applyDataToStore H (orderDataChangesByHLC resolved) (supersedes E w1) (rep_rows R1) of
              Inl e \<Rightarrow> Inl e
            | Inr db \<Rightarrow>
               (case beforeFiling H (R1\<lparr>rep_rows := db\<rparr>) of (R2, w2) \<Rightarrow>
                  (case commitChangeMetadata E H N resolved watermark
                          (holdOptions (unknownTableDisposition E) held (now_received N)) w2 R2 of
                     Inl e \<Rightarrow> Inl e
                   | Inr R3 \<Rightarrow>
                      (let lost = length (filter (\<lambda>r. supersededChange E w2 (rc_change r)) resolved)
                       in Inr (\<lparr>ar_applied = length resolved - lost,
                                ar_skipped = length echoes + length (filter (\<lambda>r. rc_outcome r = Skipped) reconciled),
                                ar_conflicts = length (filter (\<lambda>r. rc_outcome r = Conflict) reconciled) + lost,
                                ar_transactions = length css, ar_unknownTable = length unknown\<rparr>,
                               R3)))))))"

definition applyChanges ::
  "sync_env \<Rightarrow> 'db sync_host \<Rightarrow> clock_readings \<Rightarrow> change_set list \<Rightarrow> 'db replica \<Rightarrow> apply_error + apply_result \<times> 'db replica" where
  "applyChanges E H N css R =
     (let watermark = maxHLC (map cs_hlc css) in
      case (case watermark of None \<Rightarrow> None | Some w \<Rightarrow> assertWithinDrift (wallTime w) (now_check N)) of
        Some e \<Rightarrow> Inl (DriftError e)
      | None \<Rightarrow>
         (case merge_clock (now_merge N) watermark (rep_meta R) of
            Inl e \<Rightarrow> Inl e
          | Inr S \<Rightarrow> applyTrackedBatch E H N css watermark (R\<lparr>rep_meta := S\<rparr>)))"

end
