(* ===== verification/Sync_Order.thy ===== *)
theory Sync_Order
  imports Sync_Apply
begin

text \<open>
  The result of an apply does not depend on the order in which the batch arrived: every
  order-sensitive step is the first entry with the greatest timestamp, a function of the set of
  entries once a timestamp identifies its change.
\<close>

section \<open>The first entry with the greatest timestamp\<close>

definition max_step :: "('a \<Rightarrow> hlc) \<Rightarrow> 'a \<Rightarrow> 'a option \<Rightarrow> 'a option" where
  "max_step f x acc = (case acc of None \<Rightarrow> Some x
     | Some p \<Rightarrow> if 0 < compareHLC (f x) (f p) then Some x else Some p)"

definition first_max :: "('a \<Rightarrow> hlc) \<Rightarrow> 'a list \<Rightarrow> 'a option" where
  "first_max f xs = fold (max_step f) xs None"

lemma first_max_fold:
  "fold (max_step f) xs (Some m) = Some r \<Longrightarrow> r \<in> insert m (set xs) \<and> (\<forall>x \<in> insert m (set xs). compareHLC (f x) (f r) \<le> 0)"
proof (induction xs arbitrary: m)
  case Nil
  then show ?case by (simp add: hlc_order.cmp_refl)
next
  case (Cons x xs)
  define m' where "m' = (if 0 < compareHLC (f x) (f m) then x else m)"
  have "r \<in> insert m' (set xs)" and le: "\<forall>y \<in> insert m' (set xs). compareHLC (f y) (f r) \<le> 0"
    using Cons.IH [of m'] Cons.prems by (auto simp: m'_def max_step_def split: if_splits)
  moreover have "compareHLC (f x) (f m') \<le> 0" "compareHLC (f m) (f m') \<le> 0"
    using hlc_order.cmp_le_flip [of "f x" "f m"] by (auto simp: m'_def hlc_order.cmp_refl)
  then have "compareHLC (f x) (f r) \<le> 0" "compareHLC (f m) (f r) \<le> 0"
    using le hlc_order.cmp_trans [of "f x" "f m'" "f r"] hlc_order.cmp_trans [of "f m" "f m'" "f r"] by simp_all
  ultimately show ?case by (auto simp: m'_def split: if_splits)
qed

lemma first_max_Some_fold: "\<exists>r. fold (max_step f) xs (Some m) = Some r"
  by (induction xs arbitrary: m) (auto simp: max_step_def)

lemma first_max_None [simp]: "first_max f xs = None \<longleftrightarrow> xs = []"
proof (cases xs)
  case (Cons x ys)
  then have "first_max f xs = fold (max_step f) ys (Some x)" by (simp add: first_max_def max_step_def)
  then show ?thesis using first_max_Some_fold [of f ys x] Cons by auto
qed (simp add: first_max_def)

lemma first_maxD:
  assumes "first_max f xs = Some r"
  shows "r \<in> set xs" "\<And>x. x \<in> set xs \<Longrightarrow> compareHLC (f x) (f r) \<le> 0"
proof -
  obtain m ys where xs: "xs = m # ys" using assms by (cases xs) (auto simp: first_max_def)
  then have "fold (max_step f) ys (Some m) = Some r" using assms by (simp add: first_max_def max_step_def)
  from first_max_fold [OF this] show "r \<in> set xs" "\<And>x. x \<in> set xs \<Longrightarrow> compareHLC (f x) (f r) \<le> 0"
    by (auto simp: xs)
qed

lemma first_max_unique:
  assumes "first_max f xs = Some r" "s \<in> set xs" "\<And>x. x \<in> set xs \<Longrightarrow> compareHLC (f x) (f s) \<le> 0" "inj_on f (set xs)"
  shows "s = r"
proof -
  have "compareHLC (f s) (f r) \<le> 0" "compareHLC (f r) (f s) \<le> 0" using first_maxD [OF assms(1)] assms(2,3) by simp_all
  then have "f s = f r" using hlc_order.cmp_le_flip [of "f s" "f r"] hlc_order.cmp_eq_iff [of "f s" "f r"] by simp
  then show ?thesis using assms(2,4) first_maxD(1) [OF assms(1)] by (auto dest: inj_onD)
qed

lemma first_max_set_cong:
  assumes "set xs = set ys" "inj_on f (set xs)"
  shows "first_max f xs = first_max f ys"
proof (cases "first_max f ys")
  case None
  then show ?thesis using assms(1) by simp
next
  case (Some r)
  then have "ys \<noteq> []" by (auto simp: first_max_def)
  then obtain s where s: "first_max f xs = Some s" using assms(1) by (cases "first_max f xs") auto
  then have "r = s"
    using first_max_unique [OF s] first_maxD [OF Some] assms by simp
  then show ?thesis using s Some by simp
qed

lemma first_max_map:
  assumes "\<And>x. x \<in> set xs \<Longrightarrow> f (g x) = h x"
  shows "first_max f (map g xs) = map_option g (first_max h xs)"
proof -
  have "fold (max_step f) (map g xs) (map_option g acc) = map_option g (fold (max_step h) xs acc)"
    if "\<And>x. x \<in> set_option acc \<Longrightarrow> f (g x) = h x" "\<And>x. x \<in> set xs \<Longrightarrow> f (g x) = h x" for acc
    using that
  proof (induction xs arbitrary: acc)
    case (Cons x xs)
    have "max_step f (g x) (map_option g acc) = map_option g (max_step h x acc)"
      using Cons.prems by (auto simp: max_step_def split: option.splits)
    moreover have "f (g y) = h y" if "y \<in> set_option (max_step h x acc)" for y
      using that Cons.prems by (auto simp: max_step_def split: option.splits if_splits)
    ultimately show ?case using Cons.IH [of "max_step h x acc"] Cons.prems(2) by simp
  qed simp
  from this [of None] assms show ?thesis by (simp add: first_max_def)
qed

section \<open>Maps of winners\<close>

definition keep_max :: "('a \<Rightarrow> hlc) \<Rightarrow> 'k \<Rightarrow> 'a \<Rightarrow> ('k \<times> 'a) list \<Rightarrow> ('k \<times> 'a) list" where
  "keep_max f k x m = (case map_of m k of
     None \<Rightarrow> AList.update k x m
   | Some p \<Rightarrow> if 0 < compareHLC (f x) (f p) then AList.update k x m else m)"

lemma map_of_keep_max: "map_of (keep_max f k x m) k' = (if k' = k then max_step f x (map_of m k) else map_of m k')"
  by (auto simp: keep_max_def max_step_def AList.update_conv' split: option.splits)

lemma distinct_keep_max: "distinct (map fst m) \<Longrightarrow> distinct (map fst (keep_max f k x m))"
  by (auto simp: keep_max_def AList.distinct_update split: option.splits)

lemma keep_max_fold:
  "map_of (fold (\<lambda>x m. if P x then keep_max f (K x) x m else m) xs m) k =
     fold (max_step f) (filter (\<lambda>x. P x \<and> K x = k) xs) (map_of m k)"
  "distinct (map fst m) \<Longrightarrow> distinct (map fst (fold (\<lambda>x m. if P x then keep_max f (K x) x m else m) xs m))"
  by (induction xs arbitrary: m) (auto simp: map_of_keep_max distinct_keep_max)

lemma keep_max_nonempty: "keep_max f k x m \<noteq> []"
  by (cases m) (auto simp: keep_max_def split: option.split)

lemma keep_max_fold_empty: "fold (\<lambda>x m. if P x then keep_max f (K x) x m else m) xs [] = [] \<longleftrightarrow> filter P xs = []"
proof -
  have "fold (\<lambda>x m. if P x then keep_max f (K x) x m else m) xs m = [] \<longleftrightarrow> m = [] \<and> filter P xs = []" for m
    by (induction xs arbitrary: m) (simp_all add: keep_max_nonempty)
  then show ?thesis by simp
qed

lemma same_winners:
  assumes "distinct (map fst m)" "distinct (map fst n)" "map_of m = map_of n"
  shows "mset m = mset n"
proof -
  have "(k, v) \<in> set m \<longleftrightarrow> (k, v) \<in> set n" for k v
    using map_of_eq_Some_iff [OF assms(1), of k v] map_of_eq_Some_iff [OF assms(2), of k v] assms(3) by simp
  then have "set m = set n" by auto
  moreover have "distinct m" "distinct n" using assms by (auto simp: distinct_map)
  ultimately show ?thesis by (simp add: set_eq_iff_mset_eq_distinct [symmetric])
qed

section \<open>Sorting\<close>

lemma sorted_cmp_unique:
  assumes "sorted_cmp c xs" "sorted_cmp c ys" "mset xs = mset ys"
    and "\<And>a b. a \<in> set xs \<Longrightarrow> b \<in> set xs \<Longrightarrow> c a b \<le> 0 \<Longrightarrow> c b a \<le> 0 \<Longrightarrow> a = b"
  shows "xs = ys"
  using assms
proof (induction xs arbitrary: ys)
  case (Cons x xs)
  then obtain y zs where ys: "ys = y # zs" by (cases ys) auto
  have sets: "set (x # xs) = set ys" using Cons.prems(3) by (metis set_mset_mset)
  have "x = y"
  proof (rule ccontr)
    assume "x \<noteq> y"
    then have "y \<in> set xs" "x \<in> set zs" using sets ys by auto
    then show False using Cons.prems \<open>x \<noteq> y\<close> ys by auto
  qed
  then show ?case using Cons.IH [of zs] Cons.prems ys by auto
qed simp

lemma sort_cmp_unique:
  assumes "comparator_on UNIV c" "mset xs = mset ys" "\<And>a b. a \<in> set xs \<Longrightarrow> b \<in> set xs \<Longrightarrow> c a b = 0 \<Longrightarrow> a = b"
  shows "sort_cmp c xs = sort_cmp c ys"
proof (rule sorted_cmp_unique)
  show "sorted_cmp c (sort_cmp c xs)" "sorted_cmp c (sort_cmp c ys)"
    using comparator_on.sorted_sort_cmp [OF assms(1)] by simp_all
  show "mset (sort_cmp c xs) = mset (sort_cmp c ys)" using assms(2) by simp
  fix a b assume "a \<in> set (sort_cmp c xs)" "b \<in> set (sort_cmp c xs)" "c a b \<le> 0" "c b a \<le> 0"
  moreover from this have "c a b = 0" using comparator_on.cmp_le_flip [OF assms(1), of a b] by simp
  ultimately show "a = b" using assms(3) by simp
qed

lemma map_sort_cmp: "(\<And>a b. c a b = d (g a) (g b)) \<Longrightarrow> map g (sort_cmp c xs) = sort_cmp d (map g xs)"
proof -
  assume c: "\<And>a b. c a b = d (g a) (g b)"
  have "map g (insort_cmp c x ys) = insort_cmp d (g x) (map g ys)" for x ys by (induction ys) (auto simp: c)
  then show ?thesis by (induction xs) auto
qed

section \<open>Reconciliation as a function of the set of entries\<close>

abbreviation entry_hlc :: "resolved_change \<Rightarrow> hlc" where
  "entry_hlc r \<equiv> change_hlc (rc_change r)"

abbreviation entry_row :: "sync_env \<Rightarrow> resolved_change \<Rightarrow> js_string" where
  "entry_row E r \<equiv> rowIdentityKey E (rc_change r)"

definition row_delete :: "sync_env \<Rightarrow> resolved_change list \<Rightarrow> js_string \<Rightarrow> resolved_change option" where
  "row_delete E rs k = first_max entry_hlc (filter (\<lambda>r. applied_delete r \<and> entry_row E r = k) rs)"

definition reconciled :: "sync_env \<Rightarrow> resolved_change list \<Rightarrow> resolved_change \<Rightarrow> resolved_change" where
  "reconciled E rs r = (case row_delete E rs (entry_row E r) of
     None \<Rightarrow> r
   | Some w \<Rightarrow> if applied_column r then
       (if beats_delete E r w then r\<lparr>rc_priorErased := True\<rparr> else plain_resolution Skipped (rc_change r))
     else r)"

definition refused :: "sync_env \<Rightarrow> resolved_change list \<Rightarrow> resolved_change \<Rightarrow> resolved_change" where
  "refused E rs r = (if rc_editOfForgottenRow r \<and> entry_row E r \<notin> foundedRows E rs
     then plain_resolution Skipped (rc_change r) else r)"

definition erase :: "resolved_change \<Rightarrow> resolved_change" where
  "erase r = r\<lparr>rc_keepColumns := {}\<rparr>"

lemma erase_sel [simp]:
  "rc_outcome (erase r) = rc_outcome r" "rc_change (erase r) = rc_change r" "rc_dataChange (erase r) = rc_dataChange r"
  "rc_priorErased (erase r) = rc_priorErased r" "rc_editOfForgottenRow (erase r) = rc_editOfForgottenRow r"
  "rc_keepColumns (erase r) = {}"
  by (simp_all add: erase_def)

lemma erase_id: "rc_keepColumns r = {} \<Longrightarrow> erase r = r"
  by (simp add: erase_def)

lemma plain_sel [simp]:
  "rc_outcome (plain_resolution out c) = out" "rc_change (plain_resolution out c) = c"
  "rc_dataChange (plain_resolution out c) = None" "rc_keepColumns (plain_resolution out c) = {}"
  "rc_priorErased (plain_resolution out c) = False" "rc_editOfForgottenRow (plain_resolution out c) = False"
  by (simp_all add: plain_resolution_def)

lemma applied_update [simp]:
  "applied_delete (erase r) = applied_delete r" "applied_column (erase r) = applied_column r"
  "applied_delete (r\<lparr>rc_keepColumns := K\<rparr>) = applied_delete r" "applied_column (r\<lparr>rc_keepColumns := K\<rparr>) = applied_column r"
  by (simp_all add: applied_delete_def applied_column_def)

lemma deleteWinners_fold:
  "deleteWinnersByRow E rs = fold (\<lambda>x m. if applied_delete (snd x)
     then keep_max (\<lambda>x. entry_hlc (snd x)) (entry_row E (snd x)) x m else m) (enumerate 0 rs) []"
proof -
  have "winner_step E = (\<lambda>x m. if applied_delete (snd x)
     then keep_max (\<lambda>x. entry_hlc (snd x)) (entry_row E (snd x)) x m else m)"
    by (intro ext) (auto simp: winner_step_def keep_max_def Let_def split: prod.splits option.splits)
  then show ?thesis by (simp add: deleteWinnersByRow_def)
qed

definition indexed_deletes :: "sync_env \<Rightarrow> resolved_change list \<Rightarrow> js_string \<Rightarrow> (nat \<times> resolved_change) list" where
  "indexed_deletes E rs k = filter (\<lambda>x. applied_delete (snd x) \<and> entry_row E (snd x) = k) (enumerate 0 rs)"

lemma map_of_deleteWinners:
  "map_of (deleteWinnersByRow E rs) k = first_max (\<lambda>x. entry_hlc (snd x)) (indexed_deletes E rs k)"
  by (simp add: deleteWinners_fold keep_max_fold(1) first_max_def indexed_deletes_def)

lemma map_snd_indexed_deletes: "map snd (indexed_deletes E rs k) = filter (\<lambda>r. applied_delete r \<and> entry_row E r = k) rs"
proof -
  have "map snd (filter (\<lambda>x. P (snd x)) (enumerate n xs)) = filter P xs" for P n and xs :: "resolved_change list"
    by (induction xs arbitrary: n) auto
  then show ?thesis by (simp add: indexed_deletes_def)
qed

lemma row_delete_winner: "row_delete E rs k = map_option snd (map_of (deleteWinnersByRow E rs) k)"
proof -
  have "row_delete E rs k = first_max entry_hlc (map snd (indexed_deletes E rs k))"
    by (simp add: row_delete_def map_snd_indexed_deletes)
  also have "\<dots> = map_option snd (first_max (\<lambda>x. entry_hlc (snd x)) (indexed_deletes E rs k))"
    by (rule first_max_map) simp
  finally show ?thesis by (simp add: map_of_deleteWinners)
qed

lemma no_winners: "deleteWinnersByRow E rs = [] \<Longrightarrow> row_delete E rs k = None"
  by (simp add: row_delete_winner)

lemma reconcile_erase:
  assumes "\<And>r. r \<in> set rs \<Longrightarrow> rc_keepColumns r = {}"
  shows "map erase (reconcileInBatchDeletes E rs) = map (reconciled E rs) rs"
proof (cases "deleteWinnersByRow E rs = []")
  case True
  then show ?thesis using assms by (simp add: reconcileInBatchDeletes_def reconciled_def no_winners erase_id)
next
  case False
  have entry: "erase (reconcile_entry E (deleteWinnersByRow E rs) rs (i, r)) = reconciled E rs r" if "r \<in> set rs" for i r
    using assms [OF that]
    by (auto simp: reconcile_entry_def reconciled_def row_delete_winner erase_def plain_resolution_def
        applied_delete_def applied_column_def split: option.splits prod.splits)
  have "map (\<lambda>x. erase (reconcile_entry E W rs x)) (enumerate n ys) = map (reconciled E rs) ys"
    if "W = deleteWinnersByRow E rs" "set ys \<subseteq> set rs" for W n ys
    using that by (induction ys arbitrary: n) (simp_all add: entry)
  then show ?thesis using False by (simp add: reconcileInBatchDeletes_def Let_def comp_def)
qed

lemma foundedRows_erase: "foundedRows E (map erase rs) = foundedRows E rs"
  by (simp add: foundedRows_def filter_map comp_def)

lemma refuse_map: "refuseEditsOfForgottenRows E rs = map (refused E rs) rs"
  by (auto simp: refuseEditsOfForgottenRows_def refused_def map_idI filter_empty_conv intro!: map_cong)

lemma refuse_erase: "map erase (refuseEditsOfForgottenRows E rs) = map (refused E (map erase rs)) (map erase rs)"
  by (auto simp: refuse_map refused_def foundedRows_erase erase_id)

text \<open>What phase 1 produces: no kept columns yet, and only column changes flagged.\<close>

definition fresh_resolution :: "resolved_change \<Rightarrow> bool" where
  "fresh_resolution r \<longleftrightarrow> rc_keepColumns r = {} \<and> (rc_editOfForgottenRow r \<longrightarrow> \<not> is_delete (rc_change r))"

lemma resolve_change_of [simp]: "rc_change (resolveChange E S c) = c"
  by (simp add: resolveChange_def resolveDelete_def resolveColumn_def Let_def split: change.split option.split)

lemma resolve_fresh: "fresh_resolution (resolveChange E S c)"
  by (auto simp: fresh_resolution_def resolveChange_def resolveDelete_def resolveColumn_def Let_def is_delete_def
      split: change.split option.split)

definition settled :: "sync_env \<Rightarrow> resolved_change list \<Rightarrow> resolved_change list" where
  "settled E rs = map (refused E (map (reconciled E rs) rs)) (map (reconciled E rs) rs)"

abbreviation batch_outcome :: "sync_env \<Rightarrow> resolved_change list \<Rightarrow> resolved_change list" where
  "batch_outcome E rs \<equiv> refuseEditsOfForgottenRows E (reconcileInBatchDeletes E rs)"

lemma outcome_erase:
  assumes "\<And>r. r \<in> set rs \<Longrightarrow> fresh_resolution r"
  shows "map erase (batch_outcome E rs) = settled E rs"
  using reconcile_erase [of rs E] assms by (simp add: refuse_erase settled_def fresh_resolution_def)

lemma reconciled_sel [simp]: "rc_change (reconciled E rs r) = rc_change r" "rc_change (refused E rs r) = rc_change r"
  by (simp_all add: reconciled_def refused_def split: option.split)

lemma row_delete_cong:
  assumes "set rs = set rs'" "inj_on entry_hlc (set rs)"
  shows "row_delete E rs = row_delete E rs'"
proof
  fix k
  show "row_delete E rs k = row_delete E rs' k" unfolding row_delete_def
    using assms by (intro first_max_set_cong) (auto intro: inj_on_subset)
qed

lemma settled_perm:
  assumes "mset rs = mset rs'" "inj_on entry_hlc (set rs)"
  shows "mset (settled E rs) = mset (settled E rs')"
proof -
  have sets: "set rs = set rs'" using assms(1) by (metis set_mset_mset)
  have rec: "reconciled E rs = reconciled E rs'"
    using row_delete_cong [OF sets assms(2)] by (simp add: reconciled_def fun_eq_iff)
  have "foundedRows E (map (reconciled E rs) rs) = foundedRows E (map (reconciled E rs') rs')"
    by (simp add: foundedRows_def rec sets)
  then have "refused E (map (reconciled E rs) rs) = refused E (map (reconciled E rs') rs')"
    by (simp add: refused_def fun_eq_iff)
  then show ?thesis using assms(1) by (simp add: settled_def rec)
qed

lemma settled_inj:
  assumes "inj_on entry_hlc (set rs)"
  shows "inj_on entry_hlc (set (settled E rs))"
  using assms by (auto simp: settled_def inj_on_def)

section \<open>The facts to file\<close>

abbreviation delete_winners_of :: "sync_env \<Rightarrow> resolved_change list \<Rightarrow> (js_string \<times> resolved_change) list" where
  "delete_winners_of E L \<equiv> fold (\<lambda>r m. if applied_delete r then keep_max entry_hlc (deleteKey E (rc_change r)) r m else m) L []"

abbreviation column_winners_of :: "sync_env \<Rightarrow> resolved_change list \<Rightarrow> (js_string \<times> resolved_change) list" where
  "column_winners_of E L \<equiv> fold (\<lambda>r m. if applied_column r
     then keep_max entry_hlc (columnKey E (rc_change r) (the (change_column (rc_change r)))) r m else m) L []"

lemma keepMaxHLC_keep_max: "keepMaxHLC k r m = keep_max entry_hlc k r m"
  by (simp add: keepMaxHLC_def keep_max_def)

lemma collapse_folds:
  "fold (collapse_step E) L (a, b) =
     (fold (\<lambda>r m. if applied_delete r then keep_max entry_hlc (deleteKey E (rc_change r)) r m else m) L a,
      fold (\<lambda>r m. if applied_column r
        then keep_max entry_hlc (columnKey E (rc_change r) (the (change_column (rc_change r)))) r m else m) L b)"
proof -
  have step: "collapse_step E r w =
     ((if applied_delete r then keep_max entry_hlc (deleteKey E (rc_change r)) r (fst w) else fst w),
      (if applied_column r then keep_max entry_hlc (columnKey E (rc_change r) (the (change_column (rc_change r)))) r (snd w) else snd w))" for r w
    by (cases "rc_change r"; cases w)
      (simp_all add: collapse_step_def applied_delete_def applied_column_def is_delete_def keepMaxHLC_keep_max)
  show ?thesis by (induction L arbitrary: a b) (simp_all add: step)
qed

lemma collapse_facts:
  "collapseInBatchRepeats E L = map fact_of (map snd (delete_winners_of E L) @ map snd (column_winners_of E L))"
  by (simp add: collapseInBatchRepeats_def collapse_folds)

lemma filter_refused:
  assumes "\<And>r. r \<in> set M \<Longrightarrow> rc_editOfForgottenRow r \<Longrightarrow> \<not> is_delete (rc_change r)"
  shows "filter (\<lambda>r. applied_delete r \<and> Q r) (refuseEditsOfForgottenRows E M) = filter (\<lambda>r. applied_delete r \<and> Q r) M"
proof -
  have "filter (\<lambda>r. applied_delete r \<and> Q r) (map (refused E N) M) = filter (\<lambda>r. applied_delete r \<and> Q r) M" for N
    using assms by (induction M) (auto simp: refused_def applied_delete_def)
  then show ?thesis by (simp add: refuse_map)
qed

lemma reconcile_entry_sel [simp]: "rc_change (reconcile_entry E W rs (i, r)) = rc_change r"
  by (simp add: reconcile_entry_def split: option.split prod.split)

lemma reconcile_entry_delete [simp]: "applied_delete (reconcile_entry E W rs (i, r)) = applied_delete r"
  by (auto simp: reconcile_entry_def applied_delete_def applied_column_def split: option.split prod.split)

lemma enumerate_member: "(i, x) \<in> set (enumerate n xs) \<Longrightarrow> x \<in> set xs"
  by (induction xs arbitrary: n) auto

lemma reconcile_unflagged:
  assumes "\<And>r. r \<in> set rs \<Longrightarrow> fresh_resolution r" "r \<in> set (reconcileInBatchDeletes E rs)"
  shows "(rc_editOfForgottenRow r \<longrightarrow> \<not> is_delete (rc_change r)) \<and> (applied_column r \<longrightarrow> rc_keepColumns r = {})"
proof -
  consider "r \<in> set rs" | i x where "(i, x) \<in> set (enumerate 0 rs)" "r = reconcile_entry E (deleteWinnersByRow E rs) rs (i, x)"
    using assms(2) by (auto simp: reconcileInBatchDeletes_def Let_def split: if_splits)
  then show ?thesis
  proof cases
    case 1
    then show ?thesis using assms(1) by (simp add: fresh_resolution_def)
  next
    case 2
    then show ?thesis using assms(1) [OF enumerate_member [OF 2(1)]]
      by (auto simp: reconcile_entry_def fresh_resolution_def applied_delete_def applied_column_def split: option.split prod.split if_splits)
  qed
qed

lemma filter_reconcile:
  "filter (\<lambda>r. applied_delete r \<and> entry_row E r = k) (reconcileInBatchDeletes E rs) =
     map (reconcile_entry E (deleteWinnersByRow E rs) rs) (indexed_deletes E rs k)"
proof (cases "deleteWinnersByRow E rs = []")
  case True
  then have "filter (\<lambda>x. applied_delete (snd x)) (enumerate 0 rs) = []"
    by (simp add: deleteWinners_fold keep_max_fold_empty)
  then have none: "indexed_deletes E rs k = []" for k by (auto simp: indexed_deletes_def filter_empty_conv)
  have "filter (\<lambda>r. applied_delete r \<and> entry_row E r = k) rs = map snd (indexed_deletes E rs k)"
    by (simp add: map_snd_indexed_deletes)
  then show ?thesis using True by (simp add: reconcileInBatchDeletes_def none)
next
  case False
  have "applied_delete (reconcile_entry E W rs x) = applied_delete (snd x)" "entry_row E (reconcile_entry E W rs x) = entry_row E (snd x)" for W x
    by (cases x; simp)+
  then show ?thesis using False by (simp add: reconcileInBatchDeletes_def Let_def filter_map comp_def indexed_deletes_def)
qed

lemma delete_winner_value:
  assumes "\<And>r. r \<in> set rs \<Longrightarrow> fresh_resolution r"
  shows "first_max entry_hlc (filter (\<lambda>r. applied_delete r \<and> entry_row E r = k) (batch_outcome E rs)) =
    map_option (\<lambda>w. w\<lparr>rc_keepColumns := kept_columns E rs w\<rparr>) (row_delete E rs k)"
proof -
  let ?W = "deleteWinnersByRow E rs"
  let ?re = "reconcile_entry E ?W rs"
  have "filter (\<lambda>r. applied_delete r \<and> entry_row E r = k) (batch_outcome E rs) = map ?re (indexed_deletes E rs k)"
    using filter_refused reconcile_unflagged [OF assms] by (simp add: filter_reconcile)
  moreover have "first_max entry_hlc (map ?re (indexed_deletes E rs k)) =
      map_option ?re (first_max (\<lambda>x. entry_hlc (snd x)) (indexed_deletes E rs k))"
    by (rule first_max_map) auto
  ultimately have "first_max entry_hlc (filter (\<lambda>r. applied_delete r \<and> entry_row E r = k) (batch_outcome E rs)) =
      map_option ?re (map_of ?W k)" by (simp add: map_of_deleteWinners)
  also have "\<dots> = map_option (\<lambda>w. w\<lparr>rc_keepColumns := kept_columns E rs w\<rparr>) (row_delete E rs k)"
  proof (cases "map_of ?W k")
    case (Some x)
    then have "x \<in> set (indexed_deletes E rs k)" using first_maxD(1) by (metis map_of_deleteWinners)
    then have x: "applied_delete (snd x)" "entry_row E (snd x) = k" by (simp_all add: indexed_deletes_def)
    then show ?thesis using Some by (cases x) (simp add: row_delete_winner reconcile_entry_def)
  qed (simp add: row_delete_winner)
  finally show ?thesis .
qed

lemma map_of_delete_winners:
  assumes "\<And>r. r \<in> set rs \<Longrightarrow> fresh_resolution r"
  shows "map_of (delete_winners_of E (batch_outcome E rs)) k =
    (if \<exists>k'. k = lit ''delete:'' @ k'
     then map_option (\<lambda>w. w\<lparr>rc_keepColumns := kept_columns E rs w\<rparr>) (row_delete E rs (drop 7 k)) else None)"
proof -
  have fm: "map_of (delete_winners_of E (batch_outcome E rs)) k =
      first_max entry_hlc (filter (\<lambda>r. applied_delete r \<and> deleteKey E (rc_change r) = k) (batch_outcome E rs))"
    by (simp add: keep_max_fold(1) first_max_def)
  show ?thesis
  proof (cases "\<exists>k'. k = lit ''delete:'' @ k'")
    case True
    then obtain k' where k: "k = lit ''delete:'' @ k'" by blast
    then have "drop 7 k = k'" by (simp add: lit_def)
    then show ?thesis unfolding fm using delete_winner_value [OF assms, where E = E and k = k'] k by (simp add: deleteKey_def)
  next
    case False
    then have "filter (\<lambda>r. applied_delete r \<and> deleteKey E (rc_change r) = k) L = []" for L
      by (auto simp: filter_empty_conv deleteKey_def)
    then show ?thesis unfolding fm using False by (simp add: first_max_def)
  qed
qed

lemma map_of_column_winners:
  assumes "\<And>r. r \<in> set rs \<Longrightarrow> fresh_resolution r"
  shows "map_of (column_winners_of E (batch_outcome E rs)) k = first_max entry_hlc
    (filter (\<lambda>r. applied_column r \<and> columnKey E (rc_change r) (the (change_column (rc_change r))) = k) (settled E rs))"
proof -
  have "rc_keepColumns r = {}" if "r \<in> set (batch_outcome E rs)" "applied_column r" for r
    using that reconcile_unflagged [OF assms] by (auto simp: refuse_map refused_def split: if_splits)
  then have id: "filter C (map erase (batch_outcome E rs)) = filter C (batch_outcome E rs)"
    if "\<And>r. C r \<Longrightarrow> applied_column r" "\<And>r. C (erase r) = C r" for C
    using that by (simp add: filter_map comp_def) (auto intro!: map_idI erase_id)
  let ?C = "\<lambda>r. applied_column r \<and> columnKey E (rc_change r) (the (change_column (rc_change r))) = k"
  have "filter ?C (settled E rs) = filter ?C (batch_outcome E rs)"
    using id [of ?C] by (simp add: outcome_erase [OF assms])
  then show ?thesis by (simp add: keep_max_fold(1) first_max_def)
qed

lemma kept_columns_cong: "set rs = set rs' \<Longrightarrow> kept_columns E rs = kept_columns E rs'"
  by (simp add: kept_columns_def fun_eq_iff)

lemma facts_perm:
  assumes "mset rs = mset rs'" "inj_on entry_hlc (set rs)" "\<And>r. r \<in> set rs \<Longrightarrow> fresh_resolution r"
  shows "mset (collapseInBatchRepeats E (batch_outcome E rs)) = mset (collapseInBatchRepeats E (batch_outcome E rs'))"
proof -
  have sets: "set rs = set rs'" using assms(1) by (metis set_mset_mset)
  have fresh': "\<And>r. r \<in> set rs' \<Longrightarrow> fresh_resolution r" using assms(3) sets by simp
  have "mset (delete_winners_of E (batch_outcome E rs)) = mset (delete_winners_of E (batch_outcome E rs'))"
    using row_delete_cong [OF sets assms(2)] kept_columns_cong [OF sets]
    by (intro same_winners keep_max_fold(2) ext) (simp_all add: map_of_delete_winners [OF assms(3)] map_of_delete_winners [OF fresh'])
  moreover have "mset (column_winners_of E (batch_outcome E rs)) = mset (column_winners_of E (batch_outcome E rs'))"
  proof (intro same_winners keep_max_fold(2) ext)
    fix k
    let ?C = "\<lambda>r. applied_column r \<and> columnKey E (rc_change r) (the (change_column (rc_change r))) = k"
    have "set (settled E rs) = set (settled E rs')" using settled_perm [OF assms(1,2)] by (metis set_mset_mset)
    then have "first_max entry_hlc (filter ?C (settled E rs)) = first_max entry_hlc (filter ?C (settled E rs'))"
      using settled_inj [OF assms(2), of E] by (intro first_max_set_cong) (auto intro: inj_on_subset)
    then show "map_of (column_winners_of E (batch_outcome E rs)) k = map_of (column_winners_of E (batch_outcome E rs')) k"
      by (simp only: map_of_column_winners [OF assms(3)] map_of_column_winners [OF fresh'])
  qed simp_all
  ultimately show ?thesis unfolding collapse_facts mset_map mset_append by simp
qed

lemma keep_max_member:
  assumes "(k, x) \<in> set (fold (\<lambda>x m. if P x then keep_max f (K x) x m else m) xs [])"
  shows "x \<in> set xs \<and> P x \<and> K x = k"
proof -
  have "first_max f (filter (\<lambda>x. P x \<and> K x = k) xs) = Some x"
    using map_of_is_SomeI [OF keep_max_fold(2) assms] by (simp add: keep_max_fold(1) first_max_def)
  from first_maxD(1) [OF this] show ?thesis by simp
qed

lemma keep_max_by_key:
  assumes "x \<in> snd ` set (fold (\<lambda>x m. if P x then keep_max f (K x) x m else m) xs [])"
    and "y \<in> snd ` set (fold (\<lambda>x m. if P x then keep_max f (K x) x m else m) xs [])" and "K x = K y"
  shows "x = y"
proof -
  let ?m = "fold (\<lambda>x m. if P x then keep_max f (K x) x m else m) xs []"
  obtain k k' where k: "(k, x) \<in> set ?m" "(k', y) \<in> set ?m" using assms(1,2) by auto
  then have "k = K x" "k' = K y" using keep_max_member [OF k(1)] keep_max_member [OF k(2)] by simp_all
  moreover have "map_of ?m k = Some x" "map_of ?m k' = Some y"
    using k by (simp_all only: map_of_is_SomeI [OF keep_max_fold(2)] distinct.simps list.map)
  ultimately show ?thesis using assms(3) by simp
qed

lemma fact_of_sel [simp]: "fact_change (fact_of r) = rc_change r" "\<not> is_held (fact_of r)"
  by (simp_all add: fact_of_def split: change.split)

definition delete_winner_set :: "sync_env \<Rightarrow> resolved_change list \<Rightarrow> resolved_change set" where
  "delete_winner_set E L = snd ` set (delete_winners_of E L)"

definition column_winner_set :: "sync_env \<Rightarrow> resolved_change list \<Rightarrow> resolved_change set" where
  "column_winner_set E L = snd ` set (column_winners_of E L)"

lemma winner_sources:
  "r \<in> delete_winner_set E L \<Longrightarrow> r \<in> set L \<and> rc_outcome r = Applied \<and> is_delete (rc_change r)"
  "r \<in> column_winner_set E L \<Longrightarrow> r \<in> set L \<and> rc_outcome r = Applied \<and> \<not> is_delete (rc_change r)"
  by (auto simp: delete_winner_set_def column_winner_set_def applied_delete_def applied_column_def dest!: keep_max_member)

lemma winners_by_change:
  "r \<in> delete_winner_set E L \<Longrightarrow> r' \<in> delete_winner_set E L \<Longrightarrow> rc_change r = rc_change r' \<Longrightarrow> r = r'"
  "r \<in> column_winner_set E L \<Longrightarrow> r' \<in> column_winner_set E L \<Longrightarrow> rc_change r = rc_change r' \<Longrightarrow> r = r'"
  unfolding delete_winner_set_def column_winner_set_def by (erule keep_max_by_key; simp)+

lemma collapse_source:
  assumes "f \<in> set (collapseInBatchRepeats E L)"
  obtains r where "r \<in> delete_winner_set E L \<or> r \<in> column_winner_set E L" "f = fact_of r"
  using assms by (auto simp: collapse_facts delete_winner_set_def column_winner_set_def)

lemma collapse_member:
  assumes "f \<in> set (collapseInBatchRepeats E L)"
  obtains r where "r \<in> set L" "rc_outcome r = Applied" "f = fact_of r"
  using collapse_source [OF assms] winner_sources by metis

lemma collapse_by_change:
  assumes "f \<in> set (collapseInBatchRepeats E L)" "g \<in> set (collapseInBatchRepeats E L)" "fact_change f = fact_change g"
  shows "f = g"
proof -
  obtain r where r: "r \<in> delete_winner_set E L \<or> r \<in> column_winner_set E L" "f = fact_of r"
    using collapse_source [OF assms(1)] .
  obtain r' where r': "r' \<in> delete_winner_set E L \<or> r' \<in> column_winner_set E L" "g = fact_of r'"
    using collapse_source [OF assms(2)] .
  have same: "rc_change r = rc_change r'" using assms(3) r r' by simp
  then have "r = r'" using r(1) r'(1) winner_sources winners_by_change by metis
  then show ?thesis using r r' by simp
qed

section \<open>Cleanup after deletes\<close>

definition doomed_entries :: "js_string \<Rightarrow> js_string \<Rightarrow> js_string set \<Rightarrow> (cell_key \<times> column_version) list \<Rightarrow> log_key set" where
  "doomed_entries g ident K cv =
     {(filingPosition (cv_filed v), ColumnEntry, g, ident, Some c) |c v. ((g, ident, c), v) \<in> set cv \<and> c \<notin> K}"

definition purge :: "js_string \<Rightarrow> js_string \<Rightarrow> js_string set \<Rightarrow> sync_meta \<Rightarrow> sync_meta" where
  "purge g ident K S = S\<lparr>columnVersions := filter (\<lambda>((g', ident', c), v). \<not> (g' = g \<and> ident' = ident \<and> c \<notin> K)) (columnVersions S),
     changeLog := filter (\<lambda>(lk, _). lk \<notin> doomed_entries g ident K (columnVersions S)) (changeLog S)\<rparr>"

lemma fold_alist_delete: "fold AList.delete ks xs = filter (\<lambda>(k, _). k \<notin> set ks) xs"
  by (induction ks arbitrary: xs) (auto simp: AList.delete_eq intro!: filter_cong)

lemma cleanup_purge:
  "write_deletes (deleteRowVersionsAndLogEntries E schema table pk K S) S = (case generationOf S schema table of
     None \<Rightarrow> S | Some g \<Rightarrow> purge g (identity_of E schema table pk) K S)"
proof (cases "generationOf S schema table")
  case None
  then show ?thesis
    by (simp add: deleteRowVersionsAndLogEntries_def deleteRowVersionsBatch_def getRowVersions_def write_deletes_def)
next
  case (Some g)
  define i where "i = identity_of E schema table pk"
  define removed where "removed = filter (\<lambda>(c, _). c \<notin> K) (row_versions S g i)"
  have member: "(c, v) \<in> set removed \<longleftrightarrow> ((g, i, c), v) \<in> set (columnVersions S) \<and> c \<notin> K" for c v
    by (force simp: removed_def row_versions_def)
  have batch: "deleteRowVersionsAndLogEntries E schema table pk K S = \<lparr>db_cells = map (\<lambda>(c, v). (g, i, c)) removed,
      db_entries = map (\<lambda>(c, v). (filingPosition (cv_filed v), ColumnEntry, g, i, Some c)) removed\<rparr>"
    using Some by (simp add: deleteRowVersionsAndLogEntries_def deleteRowVersionsBatch_def getRowVersions_def removed_def
        i_def staged_entry_def Let_def case_prod_unfold)
  have keys: "k \<in> set (map (\<lambda>(c, v). (g, i, c)) removed) \<longleftrightarrow> (\<exists>c v. k = (g, i, c) \<and> (c, v) \<in> set removed)" for k
    by force
  have entries: "lk \<in> set (map (\<lambda>(c, v). (filingPosition (cv_filed v), ColumnEntry, g, i, Some c)) removed) \<longleftrightarrow>
      lk \<in> doomed_entries g i K (columnVersions S)" for lk
    unfolding doomed_entries_def using member by force
  have "filter (\<lambda>(k, _). k \<notin> set (map (\<lambda>(c, v). (g, i, c)) removed)) (columnVersions S) =
      filter (\<lambda>((g', i', c), v). \<not> (g' = g \<and> i' = i \<and> c \<notin> K)) (columnVersions S)"
    by (intro filter_cong) (auto simp only: keys member split: prod.splits)
  moreover have "filter (\<lambda>(k, _). k \<notin> set (map (\<lambda>(c, v). (filingPosition (cv_filed v), ColumnEntry, g, i, Some c)) removed)) (changeLog S) =
      filter (\<lambda>(lk, _). lk \<notin> doomed_entries g i K (columnVersions S)) (changeLog S)"
    by (simp only: entries)
  ultimately show ?thesis using Some by (simp add: batch write_deletes_def purge_def fold_alist_delete i_def)
qed

definition survivors :: "js_string \<Rightarrow> js_string \<Rightarrow> js_string set \<Rightarrow> (cell_key \<times> column_version) list \<Rightarrow> (cell_key \<times> column_version) list" where
  "survivors g ident K = filter (\<lambda>((g', ident', c), v). \<not> (g' = g \<and> ident' = ident \<and> c \<notin> K))"

lemma purge_survivors:
  "purge g i K S = S\<lparr>columnVersions := survivors g i K (columnVersions S),
     changeLog := filter (\<lambda>e. fst e \<notin> doomed_entries g i K (columnVersions S)) (changeLog S)\<rparr>"
  by (simp add: purge_def survivors_def case_prod_unfold)

lemma doomed_survivors:
  "doomed_entries g i K (survivors g' i' K' cv) \<union> doomed_entries g' i' K' cv = doomed_entries g i K cv \<union> doomed_entries g' i' K' cv"
  by (auto simp: doomed_entries_def survivors_def)

lemma survivors_commute: "survivors g i K (survivors g' i' K' cv) = survivors g' i' K' (survivors g i K cv)"
  by (auto simp: survivors_def intro!: filter_cong)

lemma purge_commute: "purge g i K (purge g' i' K' S) = purge g' i' K' (purge g i K S)"
proof -
  have "x \<notin> doomed_entries g' i' K' cv \<and> x \<notin> doomed_entries g i K (survivors g' i' K' cv) \<longleftrightarrow>
      x \<notin> doomed_entries g i K cv \<and> x \<notin> doomed_entries g' i' K' (survivors g i K cv)" for x cv
    using doomed_survivors [of g i K g' i' K' cv] doomed_survivors [of g' i' K' g i K cv] by blast
  then show ?thesis by (simp add: purge_survivors survivors_commute [of g i K])
qed

lemma generationOf_purge [simp]: "generationOf (purge g i K S) = generationOf S"
  by (simp add: purge_def generationOf_def fun_eq_iff)

text \<open>The cleanup of one filed fact as a single step.\<close>

definition cleanup_fact :: "sync_env \<Rightarrow> local_writes \<Rightarrow> fact \<Rightarrow> sync_meta \<Rightarrow> sync_meta" where
  "cleanup_fact E w f S = (case f of DeleteFact d r \<Rightarrow> write_deletes (cleanup_batch E w d r S) S | _ \<Rightarrow> S)"

lemma cleanup_fact_simps [simp]:
  "cleanup_fact E w (DeleteFact d r) S = write_deletes (cleanup_batch E w d r S) S"
  "cleanup_fact E w (ColumnFact c r) S = S" "cleanup_fact E w (HeldFact ch t fw) S = S"
  by (simp_all add: cleanup_fact_def)

lemma cleanup_commute: "cleanup_fact E w f \<circ> cleanup_fact E w g = cleanup_fact E w g \<circ> cleanup_fact E w f"
proof (rule ext)
  fix S
  show "(cleanup_fact E w f \<circ> cleanup_fact E w g) S = (cleanup_fact E w g \<circ> cleanup_fact E w f) S"
    by (cases f; cases g) (auto simp: cleanup_fact_def cleanup_batch_def cleanup_purge purge_commute split: option.split)
qed

section \<open>Local commits to other rows\<close>

text \<open>
  A local commit spares a batch if it stays off the batch's rows: what a resolution reads of such
  a row is unchanged by it, and it commutes with the cleanup of such a row.
\<close>

definition reads_alike :: "sync_env \<Rightarrow> change \<Rightarrow> sync_meta \<Rightarrow> sync_meta \<Rightarrow> bool" where
  "reads_alike E c S S' \<longleftrightarrow>
     generationOf S (change_schema c) (change_table c) = generationOf S' (change_schema c) (change_table c) \<and>
     getTombstone E S (change_schema c) (change_table c) (change_pk c) = getTombstone E S' (change_schema c) (change_table c) (change_pk c) \<and>
     getRowVersions E S (change_schema c) (change_table c) (change_pk c) = getRowVersions E S' (change_schema c) (change_table c) (change_pk c) \<and>
     getColumnVersion E S (change_schema c) (change_table c) (change_pk c) = getColumnVersion E S' (change_schema c) (change_table c) (change_pk c) \<and>
     deltaFloor S = deltaFloor S'"

definition purged :: "sync_env \<Rightarrow> change \<Rightarrow> js_string set \<Rightarrow> 'db replica \<Rightarrow> 'db replica" where
  "purged E c K R = R\<lparr>rep_meta := write_deletes (deleteRowVersionsAndLogEntries E (change_schema c) (change_table c) (change_pk c) K (rep_meta R))
     (rep_meta R)\<rparr>"

definition spares :: "sync_env \<Rightarrow> change list \<Rightarrow> 'db local_commits \<Rightarrow> bool" where
  "spares E cs L \<longleftrightarrow> (\<forall>R. \<forall>c \<in> set cs. reads_alike E c (rep_meta (fst (L R))) (rep_meta R) \<and>
     (\<forall>K. fst (L (purged E c K R)) = purged E c K (fst (L R))))"

lemma spares_reads: "spares E cs L \<Longrightarrow> c \<in> set cs \<Longrightarrow> reads_alike E c (rep_meta (fst (L R))) (rep_meta R)"
  by (simp add: spares_def)

lemma reads_alike_trans: "reads_alike E c S S' \<Longrightarrow> reads_alike E c S' S'' \<Longrightarrow> reads_alike E c S S''"
  by (simp add: reads_alike_def)

lemma resolve_alike:
  assumes "\<And>k. reads_alike E c (S k) S0"
  shows "resolveChange E S c = resolveChange E (\<lambda>_. S0) c"
proof (cases c)
  case (ColumnChange x)
  let ?at = "\<lambda>g. g (cc_schema x) (cc_table x) (cc_pk x)"
  have "?at (getColumnVersion E (S 0)) = ?at (getColumnVersion E S0)" "?at (getTombstone E (S 1)) = ?at (getTombstone E S0)"
    "deltaFloor (S 2) = deltaFloor S0" "?at (getRowVersions E (S 3)) = ?at (getRowVersions E S0)"
    using assms [of 0] assms [of 1] assms [of 2] assms [of 3] by (simp_all add: reads_alike_def ColumnChange)
  then have "?at (getColumnVersion E (S 0)) = ?at (getColumnVersion E S0)"
    "?at (isDeletedAndBlocking E (S 1)) = ?at (isDeletedAndBlocking E S0)"
    "isEditOfForgottenRow E (S 2) (S 3) x = isEditOfForgottenRow E S0 S0 x"
    by (simp_all add: isDeletedAndBlocking_def isEditOfForgottenRow_def fun_eq_iff)
  then show ?thesis by (simp only: ColumnChange resolveChange_def resolveColumn_def change.case)
next
  case (RowDeletion d)
  then show ?thesis using assms [of 0] by (simp add: reads_alike_def resolveChange_def resolveDelete_def)
qed

primrec after_resolving :: "'db sync_host \<Rightarrow> nat \<Rightarrow> nat \<Rightarrow> 'db replica \<Rightarrow> 'db replica" where
  "after_resolving H i 0 R = R"
| "after_resolving H i (Suc n) R = after_resolving H (Suc i) n (replica_at H i R 3)"

lemma replica_at_alike:
  assumes "\<And>k. spares E cs (whileResolving H i k)" "c \<in> set cs"
  shows "reads_alike E c (rep_meta (replica_at H i R k)) (rep_meta R)"
proof (induction k)
  case (Suc k)
  then show ?case
    using reads_alike_trans [OF spares_reads [OF assms, of "Suc k" "replica_at H i R k"]] by simp
qed (simp add: spares_reads [OF assms])

lemma resolve_loop_spared:
  assumes "\<And>i k. spares E cs (whileResolving H i k)"
  shows "set xs \<subseteq> set cs \<Longrightarrow>
    resolve_loop E H i xs R = (map (resolveChange E (\<lambda>_. rep_meta R)) xs, after_resolving H i (length xs) R)"
proof (induction xs arbitrary: i R)
  case (Cons c xs)
  let ?R = "replica_at H i R 3"
  have alike: "reads_alike E x (rep_meta (replica_at H i R k)) (rep_meta R)" if "x \<in> set (c # xs)" for x k
    using that Cons.prems by (intro replica_at_alike [OF assms]) blast
  have head: "resolveChange E (\<lambda>k. rep_meta (replica_at H i R k)) c = resolveChange E (\<lambda>_. rep_meta R) c"
    using alike by (intro resolve_alike) simp
  have tail: "map (resolveChange E (\<lambda>_. rep_meta ?R)) xs = map (resolveChange E (\<lambda>_. rep_meta R)) xs"
    using alike [where k = 3] by (intro map_cong [OF refl] resolve_alike) simp
  have rest: "resolve_loop E H (Suc i) xs ?R = (map (resolveChange E (\<lambda>_. rep_meta R)) xs, after_resolving H (Suc i) (length xs) ?R)"
    using Cons.IH [of "Suc i" ?R] Cons.prems tail by simp
  show ?case unfolding resolve_loop.simps rest head by (simp add: Let_def)
qed simp

primrec after_cleaning :: "'db sync_host \<Rightarrow> nat \<Rightarrow> nat \<Rightarrow> 'db replica \<Rightarrow> 'db replica" where
  "after_cleaning H i 0 R = R"
| "after_cleaning H i (Suc n) R = after_cleaning H (Suc i) n (fst (whileCleaning H i 1 (fst (whileCleaning H i 0 R))))"

lemma after_cleaning_purged:
  assumes "\<And>i k. spares E cs (whileCleaning H i k)" "c \<in> set cs"
  shows "after_cleaning H i n (purged E c K R) = purged E c K (after_cleaning H i n R)"
  using assms by (induction n arbitrary: i R) (simp_all add: spares_def)

primrec delete_fact :: "fact \<Rightarrow> bool" where
  "delete_fact (DeleteFact d r) = True"
| "delete_fact (ColumnFact c r) = False"
| "delete_fact (HeldFact c t fw) = False"

lemma cleanup_batch_alike:
  "reads_alike E (RowDeletion d) S S' \<Longrightarrow> cleanup_batch E w d r S = cleanup_batch E w d r S'"
  by (simp add: reads_alike_def cleanup_batch_def deleteRowVersionsAndLogEntries_def deleteRowVersionsBatch_def staged_entry_def)

lemma cleanup_loop_spared:
  assumes "\<And>i k. spares E cs (whileCleaning H i k)"
  shows "(\<And>d r. DeleteFact d r \<in> set fs \<Longrightarrow> RowDeletion d \<in> set cs) \<Longrightarrow>
    cleanup_loop E H w i fs R = (let R' = after_cleaning H i (length (filter delete_fact fs)) R
      in R'\<lparr>rep_meta := fold (cleanup_fact E w) fs (rep_meta R')\<rparr>)"
proof (induction fs arbitrary: i R)
  case (Cons f fs)
  have IH: "cleanup_loop E H w j fs X = (let R' = after_cleaning H j (length (filter delete_fact fs)) X
      in R'\<lparr>rep_meta := fold (cleanup_fact E w) fs (rep_meta R')\<rparr>)" for j X
    by (rule Cons.IH) (rule Cons.prems, rule list.set_intros(2))
  show ?case
  proof (cases f)
    case f: (DeleteFact d r)
    let ?n = "length (filter delete_fact fs)"
    define R0 where "R0 = fst (whileCleaning H i 0 R)"
    define R1 where "R1 = fst (whileCleaning H i 1 R0)"
    have d: "RowDeletion d \<in> set cs" using Cons.prems [of d r] f by simp
    have "cleanup_batch E w d r (rep_meta R0) = cleanup_batch E w d r (rep_meta R1)"
      using cleanup_batch_alike [OF spares_reads [OF assms d, of i 1 R0]] by (simp add: R1_def)
    then have "cleanup_loop E H w i (f # fs) R = cleanup_loop E H w (Suc i) fs (purged E (RowDeletion d) (columnsKeptPastDelete E d r w) R1)"
      by (simp add: f Let_def R0_def [symmetric] R1_def [symmetric] purged_def cleanup_batch_def del: One_nat_def)
    also have "\<dots> = (let R' = purged E (RowDeletion d) (columnsKeptPastDelete E d r w) (after_cleaning H (Suc i) ?n R1)
        in R'\<lparr>rep_meta := fold (cleanup_fact E w) fs (rep_meta R')\<rparr>)"
      unfolding IH after_cleaning_purged [OF assms d] ..
    also have "\<dots> = (let R' = after_cleaning H i (length (filter delete_fact (f # fs))) R
        in R'\<lparr>rep_meta := fold (cleanup_fact E w) (f # fs) (rep_meta R')\<rparr>)"
      by (simp add: f Let_def purged_def cleanup_batch_def R0_def R1_def)
    finally show ?thesis .
  qed (simp_all add: IH)
qed simp

section \<open>Filing a permuted batch\<close>

interpretation origin_order: comparator_on UNIV by_origin
  unfolding by_origin_def [abs_def] by (rule hlc_order.vimage) simp

lemma fileAtNextTick_perm:
  assumes "mset F = mset F'" "\<And>a b. a \<in> set F \<Longrightarrow> b \<in> set F \<Longrightarrow> by_origin a b = 0 \<Longrightarrow> a = b"
    and spared: "\<And>i k. spares E cs (whileCleaning H i k)" "\<And>d r. DeleteFact d r \<in> set F \<Longrightarrow> RowDeletion d \<in> set cs"
  shows "(case fileAtNextTick E N F wm w S of Inl e \<Rightarrow> Inl e | Inr (filed, S') \<Rightarrow> Inr (cleanup_loop E H w 0 filed (R\<lparr>rep_meta := S'\<rparr>))) =
    (case fileAtNextTick E N F' wm w S of Inl e \<Rightarrow> Inl e | Inr (filed, S') \<Rightarrow> Inr (cleanup_loop E H w 0 filed (R\<lparr>rep_meta := S'\<rparr>)))"
proof -
  let ?T = "filter (\<lambda>f. \<not> lostToLocalWrite E w f) F" and ?T' = "filter (\<lambda>f. \<not> lostToLocalWrite E w f) F'"
  have T: "mset ?T = mset ?T'" using assms(1) by simp
  have sort: "sort_cmp by_origin ?T = sort_cmp by_origin ?T'"
    using assms(2) by (intro sort_cmp_unique [OF origin_order.comparator_on_axioms T]) auto
  have empty: "?T = [] \<longleftrightarrow> ?T' = []" using T by (metis mset_zero_iff)
  have folds: "fold (cleanup_fact E w) ?T = fold (cleanup_fact E w) ?T'"
    by (rule fold_multiset_equiv [OF cleanup_commute T])
  have deletes: "length (filter delete_fact ?T) = length (filter delete_fact ?T')"
    using T by (metis mset_filter size_mset)
  have F': "set F' = set F" using assms(1) by (metis set_mset_mset)
  have "cleanup_loop E H w 0 ?T X = cleanup_loop E H w 0 ?T' X" for X
  proof -
    have "cleanup_loop E H w 0 ?T X = (let R' = after_cleaning H 0 (length (filter delete_fact ?T)) X
        in R'\<lparr>rep_meta := fold (cleanup_fact E w) ?T (rep_meta R')\<rparr>)"
      by (rule cleanup_loop_spared [OF spared(1)]) (use spared(2) in auto)
    moreover have "cleanup_loop E H w 0 ?T' X = (let R' = after_cleaning H 0 (length (filter delete_fact ?T')) X
        in R'\<lparr>rep_meta := fold (cleanup_fact E w) ?T' (rep_meta R')\<rparr>)"
      by (rule cleanup_loop_spared [OF spared(1)]) (use spared(2) F' in auto)
    ultimately show ?thesis by (simp only: folds deletes)
  qed
  then show ?thesis
    by (simp add: fileAtNextTick_def Let_def sort empty split: sum.split prod.split)
qed

lemma collapse_applied: "collapseInBatchRepeats E (filter (\<lambda>r. rc_outcome r = Applied) L) = collapseInBatchRepeats E L"
proof -
  have "fold (collapse_step E) (filter (\<lambda>r. rc_outcome r = Applied) L) acc = fold (collapse_step E) L acc" for acc
    by (induction L arbitrary: acc) (auto simp: collapse_step_def)
  then show ?thesis by (simp add: collapseInBatchRepeats_def)
qed

lemma mset_unknownByTable: "mset (concat (map snd (unknownByTable cs))) = mset cs"
proof -
  have add: "mset (concat (map snd (add_to_group c gs))) = add_mset c (mset (concat (map snd gs)))" for c gs
    by (induction c gs rule: add_to_group.induct) auto
  have "mset (concat (map snd (fold add_to_group cs gs))) = mset (concat (map snd gs)) + mset cs" for gs
    by (induction cs arbitrary: gs) (simp_all add: add)
  then show ?thesis by (simp add: unknownByTable_def)
qed

lemma commit_perm:
  assumes rs: "mset rs = mset rs'" "inj_on entry_hlc (set rs)" "\<And>r. r \<in> set rs \<Longrightarrow> fresh_resolution r"
    and held: "mset held = mset held'" "inj_on change_hlc (rc_change ` set rs \<union> set held)" "rc_change ` set rs \<inter> set held = {}"
    and spared: "\<And>i k. spares E cs (whileCleaning H i k)" "rc_change ` set rs \<subseteq> set cs"
  shows "commitChangeMetadata E H N (filter (\<lambda>r. rc_outcome r = Applied) (batch_outcome E rs)) wm (holdOptions disp held now) w R =
    commitChangeMetadata E H N (filter (\<lambda>r. rc_outcome r = Applied) (batch_outcome E rs')) wm (holdOptions disp held' now) w R"
proof -
  let ?F = "collapseInBatchRepeats E (batch_outcome E rs) @ heldFacts (holdOptions disp held now)"
  let ?F' = "collapseInBatchRepeats E (batch_outcome E rs') @ heldFacts (holdOptions disp held' now)"
  have "held = [] \<longleftrightarrow> held' = []" using held(1) by (metis mset_zero_iff)
  then have "mset (heldFacts (holdOptions disp held now)) = mset (heldFacts (holdOptions disp held' now))"
    using held(1) by (simp add: heldFacts_def holdOptions_def)
  then have F: "mset ?F = mset ?F'" using facts_perm [OF rs] by simp
  have change: "rc_change r \<in> rc_change ` set rs" if "r \<in> set (batch_outcome E rs)" for r
  proof -
    have "erase r \<in> set (settled E rs)" using that outcome_erase [OF rs(3)] by (metis image_eqI set_map)
    then show ?thesis by (auto simp: settled_def dest: arg_cong [where f = rc_change])
  qed
  have member: "(\<not> is_held f \<and> fact_change f \<in> rc_change ` set rs \<and> f \<in> set (collapseInBatchRepeats E (batch_outcome E rs))) \<or>
      (\<exists>c \<in> set held. f = HeldFact c now (disp = DispStoreAndForward))" if f: "f \<in> set ?F" for f
  proof (cases "f \<in> set (collapseInBatchRepeats E (batch_outcome E rs))")
    case True
    then obtain r where "r \<in> set (batch_outcome E rs)" "f = fact_of r" using collapse_member by blast
    then show ?thesis using change True by simp
  next
    case False
    then show ?thesis using f by (auto simp: heldFacts_def holdOptions_def split: if_splits)
  qed
  have unique: "a = b" if "a \<in> set ?F" "b \<in> set ?F" "by_origin a b = 0" for a b
  proof -
    have "change_hlc (fact_change a) = change_hlc (fact_change b)"
      using that(3) hlc_order.cmp_eq_iff by (simp add: by_origin_def)
    moreover have "fact_change a \<in> rc_change ` set rs \<union> set held" "fact_change b \<in> rc_change ` set rs \<union> set held"
      using member [OF that(1)] member [OF that(2)] by auto
    ultimately have same: "fact_change a = fact_change b" using held(2) by (auto dest: inj_onD)
    from member [OF that(1)] member [OF that(2)] show ?thesis
    proof (elim disjE conjE bexE exE)
      assume "a \<in> set (collapseInBatchRepeats E (batch_outcome E rs))" "b \<in> set (collapseInBatchRepeats E (batch_outcome E rs))"
      then show ?thesis using collapse_by_change same by blast
    qed (use same held(3) in \<open>auto simp: disjoint_iff\<close>)
  qed
  have deletes: "RowDeletion d \<in> set cs" if "DeleteFact d r \<in> set ?F" for d r
    using member [OF that] spared(2) by auto
  have empty: "?F = [] \<longleftrightarrow> ?F' = []" using F by (metis mset_zero_iff)
  show ?thesis
    unfolding commitChangeMetadata_def Let_def collapse_applied empty
    by (rule if_cong [OF refl refl fileAtNextTick_perm [OF F unique spared(1) deletes]])
qed

section \<open>The whole apply\<close>

lemma maxHLC_first_max: "maxHLC hs = first_max (\<lambda>h. h) hs"
proof -
  have "foldl (\<lambda>max h. case max of None \<Rightarrow> Some h | Some m \<Rightarrow> if 0 < compareHLC h m then Some h else Some m) acc hs =
      fold (max_step (\<lambda>h. h)) hs acc" for acc
    by (induction hs arbitrary: acc) (simp_all add: max_step_def)
  then show ?thesis by (simp add: maxHLC_def first_max_def)
qed

lemma maxHLC_perm: "mset hs = mset hs' \<Longrightarrow> maxHLC hs = maxHLC hs'"
  unfolding maxHLC_first_max by (rule first_max_set_cong) (auto dest: mset_eq_setD)

lemma length_filter_perm: "mset xs = mset ys \<Longrightarrow> length (filter P xs) = length (filter P ys)"
  by (metis mset_filter size_mset)

lemma length_filter_outcome:
  assumes "mset (map erase L) = mset (map erase L')" "\<And>r. P (erase r) = P r"
  shows "length (filter P L) = length (filter P L')"
proof -
  have "length (filter P L) = length (filter P (map erase L))" for L using assms(2) by (simp add: filter_map comp_def)
  then show ?thesis using length_filter_perm [OF assms(1)] by simp
qed

lemma data_changes_perm:
  assumes "mset (map erase L) = mset (map erase L')" "inj_on entry_hlc (set (map erase L))"
  shows "orderDataChangesByHLC (filter (\<lambda>r. rc_outcome r = Applied) L) = orderDataChangesByHLC (filter (\<lambda>r. rc_outcome r = Applied) L')"
proof -
  define ops where "ops L = map (\<lambda>r. (entry_hlc r, the (rc_dataChange r)))
    (filter (\<lambda>r. rc_dataChange r \<noteq> None) (filter (\<lambda>r. rc_outcome r = Applied) L))" for L
  define c where "c = (\<lambda>(a :: hlc \<times> data_change) (b :: hlc \<times> data_change). compareHLC (fst a) (fst b))"
  have order: "orderDataChangesByHLC (filter (\<lambda>r. rc_outcome r = Applied) L) = map snd (sort_cmp c (ops L))" for L
  proof -
    have sorted: "map (\<lambda>r. (entry_hlc r, the (rc_dataChange r))) (sort_cmp (\<lambda>a b. compareHLC (entry_hlc a) (entry_hlc b))
        (filter (\<lambda>r. rc_dataChange r \<noteq> None) (filter (\<lambda>r. rc_outcome r = Applied) L))) = sort_cmp c (ops L)"
      unfolding ops_def by (rule map_sort_cmp) (simp add: c_def)
    show ?thesis unfolding sorted [symmetric] by (simp add: orderDataChangesByHLC_def)
  qed
  have erased: "ops L = ops (map erase L)" for L by (simp add: ops_def filter_map comp_def)
  have mset_ops: "mset (ops M) = image_mset (\<lambda>r. (entry_hlc r, the (rc_dataChange r)))
      (filter_mset (\<lambda>r. rc_dataChange r \<noteq> None) (filter_mset (\<lambda>r. rc_outcome r = Applied) (mset M)))" for M
    unfolding ops_def mset_map mset_filter ..
  have "mset (ops L) = mset (ops L')"
    using mset_ops [of "map erase L"] mset_ops [of "map erase L'"] assms(1) erased by metis
  moreover have "a = b" if ab: "a \<in> set (ops L)" "b \<in> set (ops L)" "c a b = 0" for a b
  proof -
    have "a \<in> set (ops (map erase L))" "b \<in> set (ops (map erase L))" using ab(1,2) erased by metis+
    then obtain r r' where r: "r \<in> set (map erase L)" "a = (entry_hlc r, the (rc_dataChange r))"
      "r' \<in> set (map erase L)" "b = (entry_hlc r', the (rc_dataChange r'))"
      unfolding ops_def set_map set_filter by blast
    then have "entry_hlc r = entry_hlc r'" using ab(3) by (simp add: c_def hlc_order.cmp_eq_iff)
    then show ?thesis using inj_onD [OF assms(2) _ r(1,3)] r by simp
  qed
  moreover have "comparator_on UNIV c" unfolding c_def by (rule hlc_order.vimage) simp
  ultimately have "sort_cmp c (ops L) = sort_cmp c (ops L')" by (intro sort_cmp_unique) auto
  then show ?thesis by (simp add: order)
qed

lemma applyTrackedBatch_perm:
  assumes "mset (batch_changes css) = mset (batch_changes css')" "length css = length css'"
    and inj: "inj_on change_hlc (set (batch_changes css))"
    and spared: "\<And>i k. spares E (batch_changes css) (whileResolving H i k)" "\<And>i k. spares E (batch_changes css) (whileCleaning H i k)"
  shows "applyTrackedBatch E H N css wm R = applyTrackedBatch E H N css' wm R"
proof -
  let ?cs = "batch_changes css" and ?cs' = "batch_changes css'"
  define rs where "rs = map (resolveChange E (\<lambda>_. rep_meta R)) (to_resolve E ?cs)"
  define rs' where "rs' = map (resolveChange E (\<lambda>_. rep_meta R)) (to_resolve E ?cs')"
  have members: "set ?cs' = set ?cs" using assms(1) by (metis set_mset_mset)
  have todo: "length (to_resolve E ?cs) = length (to_resolve E ?cs')"
    unfolding to_resolve_def by (rule length_filter_perm [OF assms(1)])
  have loops: "resolve_loop E H 0 (to_resolve E ?cs) R = (rs, after_resolving H 0 (length (to_resolve E ?cs)) R)"
    "resolve_loop E H 0 (to_resolve E ?cs') R = (rs', after_resolving H 0 (length (to_resolve E ?cs')) R)"
    unfolding rs_def rs'_def by (rule resolve_loop_spared [OF spared(1)], auto simp: to_resolve_def members)+
  define un where "un = filter (\<lambda>c. \<not> own_change E c \<and> \<not> known_table E c) ?cs"
  define un' where "un' = filter (\<lambda>c. \<not> own_change E c \<and> \<not> known_table E c) ?cs'"
  have rs: "mset rs = mset rs'" using assms(1) by (simp add: rs_def rs'_def to_resolve_def)
  have rs_changes: "rc_change ` set rs \<subseteq> set ?cs" by (auto simp: rs_def to_resolve_def)
  have fresh: "\<And>r. r \<in> set rs \<Longrightarrow> fresh_resolution r" using resolve_fresh by (auto simp: rs_def)
  then have fresh': "\<And>r. r \<in> set rs' \<Longrightarrow> fresh_resolution r" using rs by (metis set_mset_mset)
  have inj_rs: "inj_on entry_hlc (set rs)" using inj by (auto simp: rs_def to_resolve_def inj_on_def)
  have outcome: "mset (map erase (batch_outcome E rs)) = mset (map erase (batch_outcome E rs'))"
    using settled_perm [OF rs inj_rs] by (simp add: outcome_erase [OF fresh] outcome_erase [OF fresh'])
  have inj_outcome: "inj_on entry_hlc (set (map erase (batch_outcome E rs)))"
    using settled_inj [OF inj_rs] by (simp add: outcome_erase [OF fresh])
  have un: "mset un = mset un'" using assms(1) by (simp add: un_def un'_def)
  have held: "mset (concat (map snd (unknownByTable un))) = mset (concat (map snd (unknownByTable un')))"
    by (simp add: mset_unknownByTable un)
  have held_set: "set (concat (map snd (unknownByTable un))) = set un"
    using mset_unknownByTable by (metis set_mset_mset)
  have commit: "commitChangeMetadata E H N (filter (\<lambda>r. rc_outcome r = Applied) (batch_outcome E rs)) wm
      (holdOptions disp (concat (map snd (unknownByTable un))) now) w X =
    commitChangeMetadata E H N (filter (\<lambda>r. rc_outcome r = Applied) (batch_outcome E rs')) wm
      (holdOptions disp (concat (map snd (unknownByTable un'))) now) w X" for disp now w X
  proof (rule commit_perm [OF rs inj_rs fresh held _ _ spared(2) rs_changes])
    show "inj_on change_hlc (rc_change ` set rs \<union> set (concat (map snd (unknownByTable un))))"
      unfolding held_set by (rule inj_on_subset [OF inj]) (auto simp: rs_def un_def to_resolve_def)
    show "rc_change ` set rs \<inter> set (concat (map snd (unknownByTable un))) = {}"
      unfolding held_set by (auto simp: rs_def un_def to_resolve_def)
  qed
  have counts: "length (filter P (batch_outcome E rs)) = length (filter P (batch_outcome E rs'))" if "\<And>r. P (erase r) = P r" for P
    using that by (rule length_filter_outcome [OF outcome])
  have data: "orderDataChangesByHLC (filter (\<lambda>r. rc_outcome r = Applied) (batch_outcome E rs)) =
      orderDataChangesByHLC (filter (\<lambda>r. rc_outcome r = Applied) (batch_outcome E rs'))"
    by (rule data_changes_perm [OF outcome inj_outcome])
  have n: "length un = length un'" using un by (metis size_mset)
  have echoes: "length (filter (own_change E) ?cs) = length (filter (own_change E) ?cs')"
    by (rule length_filter_perm [OF assms(1)])
  have outcomes: "length (filter (\<lambda>r. rc_outcome r = out) (batch_outcome E rs)) =
      length (filter (\<lambda>r. rc_outcome r = out) (batch_outcome E rs'))" for out
    by (rule counts) simp
  have lost: "length (filter (\<lambda>r. supersededChange E w (rc_change r)) (filter (\<lambda>r. rc_outcome r = Applied) (batch_outcome E rs))) =
      length (filter (\<lambda>r. supersededChange E w (rc_change r)) (filter (\<lambda>r. rc_outcome r = Applied) (batch_outcome E rs')))" for w
    unfolding filter_filter by (rule counts) simp
  show ?thesis
    unfolding applyTrackedBatch_def Let_def loops prod.case todo un_def [symmetric] un'_def [symmetric]
    unfolding data commit outcomes lost n echoes assms(2) ..
qed

text \<open>
  C38. A batch may arrive in any order: two arrays of change sets that carry the same changes and
  the same set timestamps, in whatever order and grouping, give the same reply, the same operations
  for the row store in the same order, and the same records, filing positions, holds and clock, or
  the same error. This holds for every conflict resolver and configuration, as long as a timestamp
  identifies its change. Any local commit may land before the data write and before the filing;
  those that land while changes are being resolved or deletes cleaned up must stay off the rows
  of the batch, since a change resolved before such a commit and one resolved after it read
  different records.
\<close>

theorem apply_order_independent:
  assumes "mset (batch_changes css) = mset (batch_changes css')"
    and "mset (map cs_hlc css) = mset (map cs_hlc css')"
    and "inj_on change_hlc (set (batch_changes css))"
    and "\<And>i k. spares E (batch_changes css) (whileResolving H i k)"
    and "\<And>i k. spares E (batch_changes css) (whileCleaning H i k)"
  shows "applyChanges E H N css R = applyChanges E H N css' R"
proof -
  have "length css = length css'" using assms(2) by (metis length_map size_mset)
  then show ?thesis
    unfolding applyChanges_def Let_def maxHLC_perm [OF assms(2)]
    by (simp add: applyTrackedBatch_perm [OF assms(1) _ assms(3-5)] split: option.split sum.split)
qed

text \<open>A relay with no records, a peer's write of one cell and its later delete of the row.\<close>

definition demo_env :: sync_env where
  "demo_env = \<lparr>getPkKeying = (\<lambda>_ _. RAW_PK_KEYING), mintGeneration = (\<lambda>s t. joinKeyParts [s, t]), ownSiteId = [1],
     isTableInBasis = (\<lambda>_ _. True), lowerCase = (\<lambda>s. s), allowResurrection = False, conflictResolver = None,
     unknownTableDisposition = DispQuarantine\<rparr>"

definition demo_host :: "data_change list sync_host" where
  "demo_host = \<lparr>applyToStore = (\<lambda>ops _ db. Inr (db @ ops)), whileResolving = (\<lambda>i k R. (R, no_local_writes)),
     beforeWrite = (\<lambda>R. (R, no_local_writes)), beforeFiling = (\<lambda>R. (R, no_local_writes)),
     whileCleaning = (\<lambda>i k R. (R, no_local_writes))\<rparr>"

definition demo_meta :: sync_meta where
  "demo_meta = \<lparr>tableGenerations = [], columnVersions = [], tombstones = [], changeLog = [], quarantine = [],
     deltaFloor = None, hlcManager = new_manager [1] None, persistedClock = None\<rparr>"

definition demo_replica :: "data_change list replica" where
  "demo_replica = \<lparr>rep_meta = demo_meta, rep_rows = []\<rparr>"

definition demo_clock :: clock_readings where
  "demo_clock = \<lparr>now_check = 100, now_merge = 100, now_received = 100, now_file = 101, now_tick = 101, now_created = (\<lambda>_. 102)\<rparr>"

definition demo_write :: "int \<Rightarrow> int \<Rightarrow> change" where
  "demo_write t v = ColumnChange \<lparr>cc_schema = lit ''main'', cc_table = lit ''t'', cc_pk = [SqlBig 1], cc_column = lit ''c'',
     cc_value = SqlBig v, cc_hlc = createHLC t 0 [2] 0, cc_priorValue = None, cc_priorHlc = None\<rparr>"

definition demo_delete :: "int \<Rightarrow> change" where
  "demo_delete t = RowDeletion \<lparr>rd_schema = lit ''main'', rd_table = lit ''t'', rd_pk = [SqlBig 1],
     rd_hlc = createHLC t 0 [2] 0, rd_priorRow = None\<rparr>"

definition demo_set :: "change \<Rightarrow> change_set" where
  "demo_set c = \<lparr>cs_siteId = [2], cs_transactionId = deterministicTxnId (change_hlc c), cs_hlc = change_hlc c, cs_changes = [c]\<rparr>"

text \<open>
  The same host while another row is being written: at every \<open>await\<close> of the resolution and of the
  cleanup a local commit to another table ticks the clock and writes its row.
\<close>

definition demo_commit :: "data_change list local_commits" where
  "demo_commit R = (\<lparr>rep_meta = (rep_meta R)\<lparr>hlcManager := snd (tick 100 (hlcManager (rep_meta R)))\<rparr>,
      rep_rows = rep_rows R @ [DataDelete (lit ''main'') (lit ''u'') [SqlBig 9]]\<rparr>,
    noteRowReplaced demo_env (lit ''main'') (lit ''u'') [SqlBig 9] no_local_writes)"

definition demo_busy_host :: "data_change list sync_host" where
  "demo_busy_host = demo_host\<lparr>whileResolving := (\<lambda>i k. demo_commit), whileCleaning := (\<lambda>i k. demo_commit)\<rparr>"

lemma clock_reads:
  "generationOf (S\<lparr>hlcManager := m\<rparr>) = generationOf S" "row_versions (S\<lparr>hlcManager := m\<rparr>) = row_versions S"
  "getTombstoneByIdentity (S\<lparr>hlcManager := m\<rparr>) = getTombstoneByIdentity S"
  "getColumnVersionByIdentity (S\<lparr>hlcManager := m\<rparr>) = getColumnVersionByIdentity S"
  by (simp_all add: generationOf_def row_versions_def getTombstoneByIdentity_def getColumnVersionByIdentity_def fun_eq_iff)

lemma clock_spares:
  assumes "\<And>R. rep_meta (fst (L R)) = (rep_meta R)\<lparr>hlcManager := f (hlcManager (rep_meta R))\<rparr>"
    and "\<And>R S. fst (L (R\<lparr>rep_meta := S\<rparr>)) = (fst (L R))\<lparr>rep_meta := S\<lparr>hlcManager := f (hlcManager S)\<rparr>\<rparr>"
  shows "spares E cs L"
  unfolding spares_def
proof (intro allI ballI conjI)
  fix R :: "'a replica" and c K
  show "reads_alike E c (rep_meta (fst (L R))) (rep_meta R)"
    by (simp add: reads_alike_def assms(1) getTombstone_def getRowVersions_def getColumnVersion_def clock_reads fun_eq_iff split: option.split)
  show "fst (L (purged E c K R)) = purged E c K (fst (L R))"
    by (simp add: purged_def assms write_deletes_def deleteRowVersionsAndLogEntries_def
        deleteRowVersionsBatch_def getRowVersions_def staged_entry_def clock_reads split: option.split)
qed

lemma demo_commit_spares: "spares E cs demo_commit"
  by (rule clock_spares [where f = "\<lambda>m. snd (tick 100 m)"]) (simp_all add: demo_commit_def)

theorem apply_order_independent_witness:
  "demo_write 10 7 \<noteq> demo_delete 20 \<and> inj_on change_hlc {demo_write 10 7, demo_delete 20} \<and>
     applyChanges demo_env demo_busy_host demo_clock [demo_set (demo_write 10 7), demo_set (demo_delete 20)] demo_replica =
     applyChanges demo_env demo_busy_host demo_clock [demo_set (demo_delete 20), demo_set (demo_write 10 7)] demo_replica"
proof (intro conjI)
  show "demo_write 10 7 \<noteq> demo_delete 20" by (simp add: demo_write_def demo_delete_def)
  show inj: "inj_on change_hlc {demo_write 10 7, demo_delete 20}"
    by (simp add: demo_write_def demo_delete_def inj_on_def createHLC_def)
  show "applyChanges demo_env demo_busy_host demo_clock [demo_set (demo_write 10 7), demo_set (demo_delete 20)] demo_replica =
      applyChanges demo_env demo_busy_host demo_clock [demo_set (demo_delete 20), demo_set (demo_write 10 7)] demo_replica"
    by (rule apply_order_independent)
      (use inj in \<open>simp_all add: batch_changes_def demo_set_def demo_busy_host_def demo_commit_spares\<close>)
qed

end
