(* ===== verification/Sync_Inv.thy ===== *)
theory Sync_Inv
  imports Sync_Order
begin

text \<open>
  Well-formed replication records: every record lies under a live table generation and under the
  identity of its own primary key, and the change log is exactly the index of the live records by
  filing position. Filing a fact keeps both.
\<close>

section \<open>The change log as an index\<close>

definition log_of :: "sync_meta \<Rightarrow> log_key \<Rightarrow> hlc option" where
  "log_of S lk = (case lk of
     (p, ColumnEntry, g, ident, Some column) \<Rightarrow>
       (case map_of (columnVersions S) (g, ident, column) of
          None \<Rightarrow> None | Some v \<Rightarrow> if filingPosition (cv_filed v) = p then Some (cv_hlc v) else None)
   | (p, DeleteEntry, g, ident, None) \<Rightarrow>
       (case map_of (tombstones S) (g, ident) of
          None \<Rightarrow> None | Some t \<Rightarrow> if filingPosition (tb_filed t) = p then Some (tb_hlc t) else None)
   | _ \<Rightarrow> None)"

lemma log_of_cong: "columnVersions S = columnVersions S' \<Longrightarrow> tombstones S = tombstones S' \<Longrightarrow> log_of S = log_of S'"
  unfolding log_of_def [abs_def] by (simp only:)

lemma log_of_update [simp]:
  "log_of (S\<lparr>changeLog := cl\<rparr>) = log_of S" "log_of (S\<lparr>quarantine := q\<rparr>) = log_of S"
  "log_of (S\<lparr>hlcManager := m\<rparr>) = log_of S" "log_of (S\<lparr>persistedClock := pc\<rparr>) = log_of S"
  by (rule log_of_cong; simp)+

definition log_exact :: "sync_meta \<Rightarrow> bool" where
  "log_exact S \<longleftrightarrow> map_of (changeLog S) = log_of S"

definition generations :: "sync_meta \<Rightarrow> js_string set" where
  "generations S = snd ` set (tableGenerations S)"

definition generations_ok :: "sync_meta \<Rightarrow> bool" where
  "generations_ok S \<longleftrightarrow> distinct (map fst (tableGenerations S)) \<and> distinct (map snd (tableGenerations S)) \<and>
     (\<forall>g ident column. map_of (columnVersions S) (g, ident, column) \<noteq> None \<longrightarrow> g \<in> generations S) \<and>
     (\<forall>g ident. map_of (tombstones S) (g, ident) \<noteq> None \<longrightarrow> g \<in> generations S)"

text \<open>Random generations never repeat: names draw different ones, none of them in use.\<close>

definition fresh_generations :: "('k) sync_keying_scheme \<Rightarrow> sync_meta \<Rightarrow> bool" where
  "fresh_generations E S \<longleftrightarrow> inj (\<lambda>(s, t). mintGeneration E s t) \<and>
     (\<forall>s t. generationOf S s t = None \<longrightarrow> mintGeneration E s t \<notin> generations S)"

section \<open>Ensuring a generation\<close>

definition generation_after :: "('k) sync_keying_scheme \<Rightarrow> sync_meta \<Rightarrow> js_string \<Rightarrow> js_string \<Rightarrow> js_string" where
  "generation_after E S s t = (case generationOf S s t of Some g \<Rightarrow> g | None \<Rightarrow> mintGeneration E s t)"

definition with_generation :: "('k) sync_keying_scheme \<Rightarrow> js_string \<Rightarrow> js_string \<Rightarrow> sync_meta \<Rightarrow> sync_meta" where
  "with_generation E s t S = snd (ensure E s t S)"

lemma ensure_eq: "ensure E s t S = (generation_after E S s t, with_generation E s t S)"
  by (simp add: with_generation_def generation_after_def ensure_def Let_def split: option.split)

lemma with_generation_sel [simp]:
  "columnVersions (with_generation E s t S) = columnVersions S" "tombstones (with_generation E s t S) = tombstones S"
  "changeLog (with_generation E s t S) = changeLog S" "quarantine (with_generation E s t S) = quarantine S"
  "deltaFloor (with_generation E s t S) = deltaFloor S" "hlcManager (with_generation E s t S) = hlcManager S"
  "persistedClock (with_generation E s t S) = persistedClock S"
  by (simp_all add: with_generation_def ensure_def Let_def split: option.split)

lemma generationOf_with [simp]:
  "generationOf (with_generation E s t S) s' t' = (if (s', t') = (s, t) then Some (generation_after E S s t) else generationOf S s' t')"
  by (auto simp: with_generation_def ensure_def Let_def generation_after_def generationOf_def map_add_def split: option.split)

lemma generationOf_update [simp]:
  "generationOf (S\<lparr>columnVersions := cv\<rparr>) = generationOf S" "generationOf (S\<lparr>tombstones := tb\<rparr>) = generationOf S"
  "generationOf (S\<lparr>changeLog := cl\<rparr>) = generationOf S" "generationOf (S\<lparr>quarantine := q\<rparr>) = generationOf S"
  "generationOf (S\<lparr>hlcManager := m\<rparr>) = generationOf S" "generationOf (S\<lparr>persistedClock := pc\<rparr>) = generationOf S"
  by (simp_all add: generationOf_def fun_eq_iff)

lemma generation_after_update [simp]:
  "generation_after E (S\<lparr>columnVersions := cv\<rparr>) = generation_after E S" "generation_after E (S\<lparr>tombstones := tb\<rparr>) = generation_after E S"
  "generation_after E (S\<lparr>changeLog := cl\<rparr>) = generation_after E S"
  by (simp_all add: generation_after_def fun_eq_iff)

lemma generation_after_with [simp]:
  "generation_after E (with_generation E s t S) s t = generation_after E S s t"
  by (simp add: generation_after_def)

lemma with_generation_idem [simp]: "with_generation E s t (S\<lparr>columnVersions := cv\<rparr>) = (with_generation E s t S)\<lparr>columnVersions := cv\<rparr>"
  "with_generation E s t (S\<lparr>tombstones := tb\<rparr>) = (with_generation E s t S)\<lparr>tombstones := tb\<rparr>"
  "with_generation E s t (S\<lparr>changeLog := cl\<rparr>) = (with_generation E s t S)\<lparr>changeLog := cl\<rparr>"
  "with_generation E s t (with_generation E s t S) = with_generation E s t S"
     apply (simp_all add: with_generation_def ensure_def Let_def split: option.split)
  by (auto simp: generationOf_def)

section \<open>Effect of filing one fact\<close>

definition cell_key_of :: "('k) sync_keying_scheme \<Rightarrow> sync_meta \<Rightarrow> column_change \<Rightarrow> cell_key" where
  "cell_key_of E S c = (generation_after E S (cc_schema c) (cc_table c), identity_of E (cc_schema c) (cc_table c) (cc_pk c), cc_column c)"

definition row_key_of :: "('k) sync_keying_scheme \<Rightarrow> sync_meta \<Rightarrow> row_deletion \<Rightarrow> row_key" where
  "row_key_of E S d = (generation_after E S (rd_schema d) (rd_table d), identity_of E (rd_schema d) (rd_table d) (rd_pk d))"

definition filed_version :: "column_change \<Rightarrow> hlc \<Rightarrow> column_version option \<Rightarrow> bool \<Rightarrow> column_version" where
  "filed_version c p old erased =
     (let prior = (case old of Some v \<Rightarrow> if cc_priorHlc c \<noteq> None \<and> \<not> erased then Some v else None | None \<Rightarrow> None)
      in \<lparr>cv_hlc = cc_hlc c, cv_position = positionField (cc_hlc c) (Some p), cv_value = cc_value c, cv_pk = cc_pk c,
          cv_priorHlc = map_option cv_hlc prior, cv_priorValue = map_option cv_value prior\<rparr>)"

definition filed_tombstone :: "row_deletion \<Rightarrow> hlc \<Rightarrow> int \<Rightarrow> tombstone" where
  "filed_tombstone d p created = \<lparr>tb_hlc = rd_hlc d, tb_position = positionField (rd_hlc d) (Some p), tb_createdAt = created,
     tb_pk = rd_pk d, tb_priorRow = rd_priorRow d\<rparr>"

lemma filed_record_position [simp]:
  "filingPosition (cv_filed (filed_version c p old erased)) = p" "cv_hlc (filed_version c p old erased) = cc_hlc c"
  "filingPosition (tb_filed (filed_tombstone d p created)) = p" "tb_hlc (filed_tombstone d p created) = rd_hlc d"
  by (simp_all add: filed_version_def filed_tombstone_def cv_filed_def tb_filed_def Let_def)

lemma commitColumn_eq:
  assumes "old = getColumnVersion E S (cc_schema c) (cc_table c) (cc_pk c) (cc_column c)"
  shows "commitColumnMetadata E c p old erased S =
    (case cell_key_of E S c of (g, i, col) \<Rightarrow>
      (with_generation E (cc_schema c) (cc_table c) S)
        \<lparr>columnVersions := AList.update (g, i, col) (filed_version c p old erased) (columnVersions S),
         changeLog := AList.update (p, ColumnEntry, g, i, Some col) (cc_hlc c)
           (case old of None \<Rightarrow> changeLog S
            | Some v \<Rightarrow> AList.delete (filingPosition (cv_filed v), ColumnEntry, g, i, Some col) (changeLog S))\<rparr>)"
proof (cases "generationOf S (cc_schema c) (cc_table c)")
  case None
  then have "old = None" by (simp add: assms getColumnVersion_def)
  then show ?thesis
    by (simp add: commitColumnMetadata_def Let_def recordColumnChangeBatch_def setColumnVersionBatch_def ensure_eq
        filed_version_def cell_key_of_def cv_filed_def filingPosition_def)
next
  case (Some g)
  then show ?thesis
    by (cases old)
      (simp_all add: commitColumnMetadata_def Let_def recordColumnChangeBatch_def setColumnVersionBatch_def ensure_eq
        filed_version_def cell_key_of_def cv_filed_def filingPosition_def deleteEntryBatch_def generation_after_def)
qed

lemma commitDelete_eq:
  assumes "old = getTombstone E S (rd_schema d) (rd_table d) (rd_pk d)"
  shows "commitDeleteMetadata E d p old created S =
    (case row_key_of E S d of (g, i) \<Rightarrow>
      (with_generation E (rd_schema d) (rd_table d) S)
        \<lparr>tombstones := AList.update (g, i) (filed_tombstone d p created) (tombstones S),
         changeLog := AList.update (p, DeleteEntry, g, i, None) (rd_hlc d)
           (case old of None \<Rightarrow> changeLog S
            | Some t \<Rightarrow> AList.delete (filingPosition (tb_filed t), DeleteEntry, g, i, None) (changeLog S))\<rparr>)"
proof (cases "generationOf S (rd_schema d) (rd_table d)")
  case None
  then have "old = None" by (simp add: assms getTombstone_def)
  then show ?thesis
    by (simp add: commitDeleteMetadata_def Let_def recordDeletionBatch_def setTombstoneBatch_def ensure_eq
        filed_tombstone_def row_key_of_def filingPosition_def)
next
  case (Some g)
  then show ?thesis
    by (cases old)
      (simp_all add: commitDeleteMetadata_def Let_def recordDeletionBatch_def setTombstoneBatch_def ensure_eq
        filed_tombstone_def row_key_of_def filingPosition_def deleteEntryBatch_def generation_after_def)
qed

lemma unlisted_generation:
  assumes "generations_ok S" "g \<notin> generations S"
  shows "map_of (columnVersions S) (g, i, c) = None" "map_of (tombstones S) (g, i) = None"
  using assms unfolding generations_ok_def by blast+

lemma stored_version:
  assumes "generations_ok S" "fresh_generations E S" "old = getColumnVersion E S (cc_schema c) (cc_table c) (cc_pk c) (cc_column c)"
  shows "map_of (columnVersions S) (cell_key_of E S c) = old"
proof (cases "generationOf S (cc_schema c) (cc_table c)")
  case None
  then have "mintGeneration E (cc_schema c) (cc_table c) \<notin> generations S" using assms(2) by (simp add: fresh_generations_def)
  then have "map_of (columnVersions S) (cell_key_of E S c) = None"
    using unlisted_generation [OF assms(1)] None by (simp add: cell_key_of_def generation_after_def)
  then show ?thesis using None assms(3) by (simp add: getColumnVersion_def)
qed (simp add: assms(3) getColumnVersion_def getColumnVersionByIdentity_def cell_key_of_def generation_after_def)

lemma stored_tombstone:
  assumes "generations_ok S" "fresh_generations E S" "old = getTombstone E S (rd_schema d) (rd_table d) (rd_pk d)"
  shows "map_of (tombstones S) (row_key_of E S d) = old"
proof (cases "generationOf S (rd_schema d) (rd_table d)")
  case None
  then have "mintGeneration E (rd_schema d) (rd_table d) \<notin> generations S" using assms(2) by (simp add: fresh_generations_def)
  then have "map_of (tombstones S) (row_key_of E S d) = None"
    using unlisted_generation [OF assms(1)] None by (simp add: row_key_of_def generation_after_def)
  then show ?thesis using None assms(3) by (simp add: getTombstone_def)
qed (simp add: assms(3) getTombstone_def getTombstoneByIdentity_def row_key_of_def generation_after_def)

lemma log_exact_column:
  assumes "log_exact S" "generations_ok S" "fresh_generations E S"
    and old: "old = getColumnVersion E S (cc_schema c) (cc_table c) (cc_pk c) (cc_column c)"
  shows "log_exact (commitColumnMetadata E c p old erased S)"
proof -
  define S' where "S' = commitColumnMetadata E c p old erased S"
  obtain g i col where k: "cell_key_of E S c = (g, i, col)" by (cases "cell_key_of E S c")
  have stored: "map_of (columnVersions S) (g, i, col) = old" using stored_version [OF assms(2-4)] k by simp
  have cv: "map_of (columnVersions S') = (map_of (columnVersions S))((g, i, col) \<mapsto> filed_version c p old erased)"
    and tb: "tombstones S' = tombstones S"
    and cl: "map_of (changeLog S') = (case old of None \<Rightarrow> map_of (changeLog S)
      | Some v \<Rightarrow> (map_of (changeLog S))((filingPosition (cv_filed v), ColumnEntry, g, i, Some col) := None))
      ((p, ColumnEntry, g, i, Some col) \<mapsto> cc_hlc c)"
    by (simp_all add: S'_def commitColumn_eq [OF old] k AList.update_conv' AList.delete_conv' split: option.split)
  have "map_of (changeLog S') lk = log_of S' lk" for lk
  proof -
    obtain q ty g' i' col' where lk: "lk = (q, ty, g', i', col')" by (cases lk)
    have before: "map_of (changeLog S) lk = log_of S lk" using assms(1) by (simp add: log_exact_def)
    show ?thesis
      using before stored
      by (cases ty; cases col'; cases old) (auto simp: lk log_of_def cv tb cl)
  qed
  then show ?thesis by (simp add: log_exact_def fun_eq_iff S'_def)
qed

lemma log_exact_delete:
  assumes "log_exact S" "generations_ok S" "fresh_generations E S"
    and old: "old = getTombstone E S (rd_schema d) (rd_table d) (rd_pk d)"
  shows "log_exact (commitDeleteMetadata E d p old created S)"
proof -
  define S' where "S' = commitDeleteMetadata E d p old created S"
  obtain g i where k: "row_key_of E S d = (g, i)" by (cases "row_key_of E S d")
  have stored: "map_of (tombstones S) (g, i) = old" using stored_tombstone [OF assms(2-4)] k by simp
  have tb: "map_of (tombstones S') = (map_of (tombstones S))((g, i) \<mapsto> filed_tombstone d p created)"
    and cv: "columnVersions S' = columnVersions S"
    and cl: "map_of (changeLog S') = (case old of None \<Rightarrow> map_of (changeLog S)
      | Some t \<Rightarrow> (map_of (changeLog S))((filingPosition (tb_filed t), DeleteEntry, g, i, None) := None))
      ((p, DeleteEntry, g, i, None) \<mapsto> rd_hlc d)"
    by (simp_all add: S'_def commitDelete_eq [OF old] k AList.update_conv' AList.delete_conv' split: option.split)
  have "map_of (changeLog S') lk = log_of S' lk" for lk
  proof -
    obtain q ty g' i' col' where lk: "lk = (q, ty, g', i', col')" by (cases lk)
    have before: "map_of (changeLog S) lk = log_of S lk" using assms(1) by (simp add: log_exact_def)
    show ?thesis
      using before stored
      by (cases ty; cases col'; cases old) (auto simp: lk log_of_def cv tb cl)
  qed
  then show ?thesis by (simp add: log_exact_def fun_eq_iff S'_def)
qed

section \<open>Generations and addresses\<close>

definition addressed_ok :: "('k) sync_keying_scheme \<Rightarrow> sync_meta \<Rightarrow> bool" where
  "addressed_ok E S \<longleftrightarrow> (\<forall>s t g. generationOf S s t = Some g \<longrightarrow>
     (\<forall>i c v. map_of (columnVersions S) (g, i, c) = Some v \<longrightarrow> identity_of E s t (cv_pk v) = i) \<and>
     (\<forall>i v. map_of (tombstones S) (g, i) = Some v \<longrightarrow> identity_of E s t (tb_pk v) = i))"

lemma tableGenerations_with:
  "tableGenerations (with_generation E s t S) =
     (if generationOf S s t = None then tableGenerations S @ [((s, t), mintGeneration E s t)] else tableGenerations S)"
  by (simp add: with_generation_def ensure_def Let_def split: option.split)

lemma generations_with: "generations (with_generation E s t S) = insert (generation_after E S s t) (generations S)"
proof (cases "generationOf S s t")
  case (Some g)
  then have "g \<in> generations S" by (force simp: generations_def generationOf_def dest: map_of_SomeD)
  then show ?thesis using Some by (auto simp: generations_def tableGenerations_with generation_after_def)
qed (simp add: generations_def tableGenerations_with generation_after_def)

lemma generationOf_name: "generationOf S s t = None \<longleftrightarrow> (s, t) \<notin> fst ` set (tableGenerations S)"
  by (simp add: generationOf_def map_of_eq_None_iff)

lemma generation_names_with:
  assumes "distinct (map fst (tableGenerations S))" "distinct (map snd (tableGenerations S))" "fresh_generations E S"
  shows "distinct (map fst (tableGenerations (with_generation E s t S)))" "distinct (map snd (tableGenerations (with_generation E s t S)))"
  using assms by (auto simp: tableGenerations_with generationOf_name fresh_generations_def generations_def)

lemma fresh_generations_with:
  assumes "fresh_generations E S"
  shows "fresh_generations E (with_generation E s t S)"
proof -
  have inj: "inj (\<lambda>(s, t). mintGeneration E s t)" and
    new: "\<And>s t. generationOf S s t = None \<Longrightarrow> mintGeneration E s t \<notin> generations S"
    using assms by (auto simp: fresh_generations_def)
  have "mintGeneration E s' t' \<noteq> generation_after E S s t" if "generationOf S s' t' = None" "(s', t') \<noteq> (s, t)" for s' t'
  proof (cases "generationOf S s t")
    case None
    then show ?thesis using injD [OF inj, of "(s', t')" "(s, t)"] that(2) by (auto simp: generation_after_def)
  next
    case (Some g)
    then have "g \<in> generations S" by (force simp: generations_def generationOf_def dest: map_of_SomeD)
    then show ?thesis using new [OF that(1)] Some by (auto simp: generation_after_def)
  qed
  then show ?thesis using inj new by (auto simp: fresh_generations_def generations_with)
qed

lemma generations_update [simp]:
  "generations (S\<lparr>columnVersions := cv\<rparr>) = generations S" "generations (S\<lparr>tombstones := tb\<rparr>) = generations S"
  "generations (S\<lparr>changeLog := cl\<rparr>) = generations S" "generations (S\<lparr>quarantine := q\<rparr>) = generations S"
  "generations (S\<lparr>hlcManager := m\<rparr>) = generations S" "generations (S\<lparr>persistedClock := pc\<rparr>) = generations S"
  by (simp_all add: generations_def)

lemma generation_names_inj:
  assumes "distinct (map snd (tableGenerations S))" "generationOf S s t = Some g" "generationOf S s' t' = Some g"
  shows "(s, t) = (s', t')"
proof -
  have "((s, t), g) \<in> set (tableGenerations S)" "((s', t'), g) \<in> set (tableGenerations S)"
    using assms(2,3) by (simp_all add: generationOf_def map_of_SomeD)
  then show ?thesis using inj_onD [of snd "set (tableGenerations S)"] assms(1) by (fastforce simp: distinct_map)
qed

definition catalog_ok :: "('k) sync_keying_scheme \<Rightarrow> sync_meta \<Rightarrow> bool" where
  "catalog_ok E S \<longleftrightarrow> generations_ok S \<and> fresh_generations E S \<and> addressed_ok E S"

lemma catalog_step:
  assumes "catalog_ok E S" "tableGenerations S' = tableGenerations (with_generation E s t S)"
    and cells: "\<And>g i c v. map_of (columnVersions S') (g, i, c) = Some v \<Longrightarrow>
      map_of (columnVersions S) (g, i, c) = Some v \<or> g = generation_after E S s t \<and> identity_of E s t (cv_pk v) = i"
    and tombs: "\<And>g i v. map_of (tombstones S') (g, i) = Some v \<Longrightarrow>
      map_of (tombstones S) (g, i) = Some v \<or> g = generation_after E S s t \<and> identity_of E s t (tb_pk v) = i"
  shows "catalog_ok E S'"
proof -
  define S1 g where "S1 = with_generation E s t S" and "g = generation_after E S s t"
  have ok: "generations_ok S" "fresh_generations E S" "addressed_ok E S" using assms(1) by (simp_all add: catalog_ok_def)
  have gens: "generations S' = insert g (generations S)" "generationOf S' = generationOf S1"
    using generations_with [of E s t S] assms(2) by (simp_all add: generations_def generationOf_def fun_eq_iff S1_def g_def)
  have names: "distinct (map fst (tableGenerations S1))" "distinct (map snd (tableGenerations S1))"
    using generation_names_with [of S E s t] ok(1,2) by (simp_all add: S1_def generations_ok_def)
  have listed: "map_of (columnVersions S) (g', i, c) = Some v \<Longrightarrow> g' \<in> generations S"
    "map_of (tombstones S) (g', i) = Some w \<Longrightarrow> g' \<in> generations S" for g' i c v w
    using unlisted_generation [OF ok(1), of g'] by (metis option.distinct(1))+
  have own: "(s', t') = (s, t)" if "generationOf S' s' t' = Some g" for s' t'
  proof -
    have "generationOf S1 s t = Some g" by (simp add: S1_def g_def)
    then show ?thesis using generation_names_inj [OF names(2)] that unfolding gens by blast
  qed
  have kept: "generationOf S s' t' = Some g'" if g': "generationOf S' s' t' = Some g'" "g' \<in> generations S" for s' t' g'
  proof (cases "generationOf S s t = None \<and> (s', t') = (s, t)")
    case True
    then have "g' = mintGeneration E s t" using g'(1) by (simp add: gens S1_def generation_after_def)
    then show ?thesis using g'(2) True ok(2) by (auto simp: fresh_generations_def)
  next
    case False
    then show ?thesis using g'(1) by (auto simp: gens S1_def generation_after_def split: if_splits)
  qed
  have "generations_ok S'"
    unfolding generations_ok_def
  proof (intro conjI allI impI)
    show "distinct (map fst (tableGenerations S'))" "distinct (map snd (tableGenerations S'))"
      using names assms(2) by (simp_all add: S1_def)
    fix g' i c assume "map_of (columnVersions S') (g', i, c) \<noteq> None"
    then obtain v where "map_of (columnVersions S') (g', i, c) = Some v" by blast
    from cells [OF this] show "g' \<in> generations S'" unfolding gens g_def using listed(1) by blast
  next
    fix g' i assume "map_of (tombstones S') (g', i) \<noteq> None"
    then obtain v where "map_of (tombstones S') (g', i) = Some v" by blast
    from tombs [OF this] show "g' \<in> generations S'" unfolding gens g_def using listed(2) by blast
  qed
  moreover have "fresh_generations E S'"
    using fresh_generations_with [OF ok(2), of s t] unfolding fresh_generations_def gens generations_with
    by (simp add: S1_def g_def)
  moreover have "addressed_ok E S'"
    unfolding addressed_ok_def
  proof (intro allI impI conjI)
    fix s' t' g' i' c' v assume g': "generationOf S' s' t' = Some g'" and v: "map_of (columnVersions S') (g', i', c') = Some v"
    from cells [OF v] show "identity_of E s' t' (cv_pk v) = i'"
    proof (elim disjE conjE)
      assume "map_of (columnVersions S) (g', i', c') = Some v"
      then show ?thesis using kept [OF g'] listed(1) ok(3) unfolding addressed_ok_def by blast
    qed (use own g' in \<open>auto simp: g_def\<close>)
  next
    fix s' t' g' i' v assume g': "generationOf S' s' t' = Some g'" and v: "map_of (tombstones S') (g', i') = Some v"
    from tombs [OF v] show "identity_of E s' t' (tb_pk v) = i'"
    proof (elim disjE conjE)
      assume "map_of (tombstones S) (g', i') = Some v"
      then show ?thesis using kept [OF g'] listed(2) ok(3) unfolding addressed_ok_def by blast
    qed (use own g' in \<open>auto simp: g_def\<close>)
  qed
  ultimately show ?thesis by (simp add: catalog_ok_def)
qed

lemma catalog_column:
  assumes "catalog_ok E S" and old: "old = getColumnVersion E S (cc_schema c) (cc_table c) (cc_pk c) (cc_column c)"
  shows "catalog_ok E (commitColumnMetadata E c p old erased S)"
  by (rule catalog_step [OF assms(1), where s = "cc_schema c" and t = "cc_table c"])
    (auto simp: commitColumn_eq [OF old] cell_key_of_def AList.update_conv' filed_version_def Let_def split: if_splits)

lemma catalog_delete:
  assumes "catalog_ok E S" and old: "old = getTombstone E S (rd_schema d) (rd_table d) (rd_pk d)"
  shows "catalog_ok E (commitDeleteMetadata E d p old created S)"
  by (rule catalog_step [OF assms(1), where s = "rd_schema d" and t = "rd_table d"])
    (auto simp: commitDelete_eq [OF old] row_key_of_def AList.update_conv' filed_tombstone_def split: if_splits)

section \<open>Addresses during a batch\<close>

text \<open>The generation a name has or will draw is fixed for the whole batch, and names it one to one.\<close>

lemma generation_after_stable [simp]: "generation_after E (with_generation E s t S) = generation_after E S"
  by (auto simp: generation_after_def fun_eq_iff)

lemma generation_after_inj:
  assumes "catalog_ok E S" "generation_after E S s t = generation_after E S s' t'"
  shows "(s, t) = (s', t')"
proof -
  define S1 where "S1 = with_generation E s' t' (with_generation E s t S)"
  have fresh: "fresh_generations E S" and ok: "generations_ok S" using assms(1) by (simp_all add: catalog_ok_def)
  have "distinct (map fst (tableGenerations (with_generation E s t S)))" "distinct (map snd (tableGenerations (with_generation E s t S)))"
    using generation_names_with [of S E s t] ok fresh by (simp_all add: generations_ok_def)
  then have "distinct (map snd (tableGenerations S1))"
    unfolding S1_def using fresh_generations_with [OF fresh] by (rule generation_names_with(2))
  moreover have "generationOf S1 s t = Some (generation_after E S s t)" "generationOf S1 s' t' = Some (generation_after E S s t)"
    using assms(2) by (simp_all add: S1_def)
  ultimately show ?thesis by (rule generation_names_inj)
qed

lemma lookup_version:
  assumes "catalog_ok E S"
  shows "getColumnVersion E S s t pk col = map_of (columnVersions S) (generation_after E S s t, identity_of E s t pk, col)"
  using stored_version [of S E _ "\<lparr>cc_schema = s, cc_table = t, cc_pk = pk, cc_column = col, cc_value = SqlNull,
      cc_hlc = createHLC 0 0 [] 0, cc_priorValue = None, cc_priorHlc = None\<rparr>"] assms
  by (simp add: cell_key_of_def catalog_ok_def)

lemma lookup_tombstone:
  assumes "catalog_ok E S"
  shows "getTombstone E S s t pk = map_of (tombstones S) (generation_after E S s t, identity_of E s t pk)"
  using stored_tombstone [of S E _ "\<lparr>rd_schema = s, rd_table = t, rd_pk = pk, rd_hlc = createHLC 0 0 [] 0, rd_priorRow = None\<rparr>"] assms
  by (simp add: row_key_of_def catalog_ok_def)

definition fact_addr :: "sync_env \<Rightarrow> fact \<Rightarrow> js_string \<times> js_string \<times> js_string \<times> js_string option" where
  "fact_addr E f = (let c = fact_change f in
     (change_schema c, change_table c, identity_of E (change_schema c) (change_table c) (change_pk c), change_column c))"

definition same_at :: "sync_env \<Rightarrow> sync_meta \<Rightarrow> sync_meta \<Rightarrow> fact \<Rightarrow> bool" where
  "same_at E S0 S f = (case f of
     DeleteFact d _ \<Rightarrow> getTombstone E S0 (rd_schema d) (rd_table d) (rd_pk d) = getTombstone E S (rd_schema d) (rd_table d) (rd_pk d)
   | ColumnFact c _ \<Rightarrow> getColumnVersion E S0 (cc_schema c) (cc_table c) (cc_pk c) (cc_column c) =
       getColumnVersion E S (cc_schema c) (cc_table c) (cc_pk c) (cc_column c)
   | HeldFact _ _ _ \<Rightarrow> True)"

definition records_ok :: "sync_env \<Rightarrow> sync_meta \<Rightarrow> bool" where
  "records_ok E S \<longleftrightarrow> catalog_ok E S \<and> log_exact S"

lemma records_ok_update [simp]:
  "records_ok E (S\<lparr>quarantine := q\<rparr>) = records_ok E S" "records_ok E (S\<lparr>hlcManager := m\<rparr>) = records_ok E S"
  "records_ok E (S\<lparr>persistedClock := pc\<rparr>) = records_ok E S"
  by (simp_all add: records_ok_def catalog_ok_def log_exact_def generations_ok_def fresh_generations_def addressed_ok_def)

lemma quarantine_records: "records_ok E (quarantine_put c r fw p S) = records_ok E S"
  by (simp add: quarantine_put_def)

lemma fileFact_current: "same_at E S0 S f \<Longrightarrow> fileFact E created S0 f p S = fileFact E created S f p S"
  by (cases f) (simp_all add: fileFact_def same_at_def)

lemmas file_eqs = fileFact_def commitColumn_eq [OF refl] commitDelete_eq [OF refl] quarantine_put_def

lemma file_records:
  assumes "records_ok E S"
  shows "records_ok E (fileFact E created S f p S)"
proof -
  have c: "catalog_ok E S" and l: "log_exact S" and g: "generations_ok S" and fr: "fresh_generations E S"
    using assms by (simp_all add: records_ok_def catalog_ok_def)
  show ?thesis
    using catalog_column [OF c refl] catalog_delete [OF c refl] log_exact_column [OF l g fr refl] log_exact_delete [OF l g fr refl]
      quarantine_records assms
    by (cases f) (simp_all add: fileFact_def records_ok_def)
qed

lemma file_generation [simp]: "generation_after E (fileFact E created S f p S) = generation_after E S"
  by (cases f) (simp_all add: file_eqs generation_after_def [abs_def] fun_eq_iff split: prod.split)

lemma file_clock [simp]: "hlcManager (fileFact E created S f p S) = hlcManager S" "deltaFloor (fileFact E created S f p S) = deltaFloor S"
  by (cases f; simp add: file_eqs split: prod.split)+

lemma file_lookup:
  "map_of (tombstones (fileFact E created S f p S)) = (case f of
     DeleteFact d _ \<Rightarrow> (map_of (tombstones S))(row_key_of E S d \<mapsto> filed_tombstone d p created) | _ \<Rightarrow> map_of (tombstones S))"
  "map_of (columnVersions (fileFact E created S f p S)) = (case f of
     ColumnFact c r \<Rightarrow> (map_of (columnVersions S))(cell_key_of E S c \<mapsto> filed_version c p
       (getColumnVersion E S (cc_schema c) (cc_table c) (cc_pk c) (cc_column c)) (rc_priorErased r)) | _ \<Rightarrow> map_of (columnVersions S))"
  by (cases f; simp add: file_eqs AList.update_conv' split: prod.split)+

lemma same_at_other:
  assumes ok: "records_ok E S" and other: "is_held f \<or> fact_addr E f \<noteq> fact_addr E g" and same: "same_at E S0 S g"
  shows "same_at E S0 (fileFact E created S f p S) g"
proof -
  let ?S' = "fileFact E created S f p S"
  have c: "catalog_ok E S" "catalog_ok E ?S'" using ok file_records [OF ok] by (simp_all add: records_ok_def)
  have inj: "generation_after E S s t = generation_after E S s' t' \<longleftrightarrow> s = s' \<and> t = t'" for s t s' t'
    using generation_after_inj [OF c(1), of s t s' t'] by auto
  have tomb: "getTombstone E ?S' s t pk = getTombstone E S s t pk" if "is_held f \<or> fact_addr E f \<noteq> (s, t, identity_of E s t pk, None)" for s t pk
    using that unfolding lookup_tombstone [OF c(1)] lookup_tombstone [OF c(2)] file_generation file_lookup
    by (cases f) (auto simp: row_key_of_def fact_addr_def inj)
  have cell: "getColumnVersion E ?S' s t pk col = getColumnVersion E S s t pk col"
    if "is_held f \<or> fact_addr E f \<noteq> (s, t, identity_of E s t pk, Some col)" for s t pk col
    using that unfolding lookup_version [OF c(1)] lookup_version [OF c(2)] file_generation file_lookup
    by (cases f) (auto simp: cell_key_of_def fact_addr_def inj)
  show ?thesis
  proof (cases g)
    case (DeleteFact d r)
    then show ?thesis using same other tomb [of "rd_schema d" "rd_table d" "rd_pk d"] by (auto simp: same_at_def fact_addr_def [of E "DeleteFact d r"])
  next
    case (ColumnFact c r)
    then show ?thesis
      using same other cell [of "cc_schema c" "cc_table c" "cc_pk c" "cc_column c"] by (auto simp: same_at_def fact_addr_def [of E "ColumnFact c r"])
  qed (simp add: same_at_def)
qed

end
