(* ===== verification/Sync_Filing.thy ===== *)
theory Sync_Filing
  imports Sync_Inv
begin

text \<open>
  Filing positions: where each record of a replica stands in the order a peer reads. Positions
  are distinct, never below the timestamp of their fact, keep the facts of one transaction and
  tick side by side, and are covered by the persisted clock. An apply keeps all of this and files
  only above the clock it started from.
\<close>

section \<open>Filings\<close>

datatype slot = CellSlot js_string js_string js_string | RowSlot js_string js_string | HoldSlot quarantine_key

definition filings :: "sync_meta \<Rightarrow> slot \<Rightarrow> (hlc \<times> hlc) option" where
  "filings S s = (case s of
     CellSlot g i c \<Rightarrow> map_option (\<lambda>v. (filingPosition (cv_filed v), cv_hlc v)) (map_of (columnVersions S) (g, i, c))
   | RowSlot g i \<Rightarrow> map_option (\<lambda>t. (filingPosition (tb_filed t), tb_hlc t)) (map_of (tombstones S) (g, i))
   | HoldSlot k \<Rightarrow> map_option (\<lambda>e. (holdPosition e, change_hlc (q_change e))) (map_of (quarantine S) k))"

definition slot_of :: "sync_env \<Rightarrow> sync_meta \<Rightarrow> fact \<Rightarrow> slot" where
  "slot_of E S f = (case f of
     DeleteFact d _ \<Rightarrow> (case row_key_of E S d of (g, i) \<Rightarrow> RowSlot g i)
   | ColumnFact c _ \<Rightarrow> (case cell_key_of E S c of (g, i, col) \<Rightarrow> CellSlot g i col)
   | HeldFact c _ _ \<Rightarrow> HoldSlot (quarantineKeyOf c))"

definition stores_ok :: "sync_meta \<Rightarrow> bool" where
  "stores_ok S \<longleftrightarrow> (\<forall>k e. map_of (quarantine S) k = Some e \<longrightarrow> quarantineKeyOf (q_change e) = k) \<and>
     distinct (map fst (columnVersions S)) \<and> distinct (map fst (tombstones S)) \<and>
     distinct (map fst (changeLog S)) \<and> distinct (map fst (quarantine S))"

lemma filings_cong:
  "columnVersions S = columnVersions S' \<Longrightarrow> tombstones S = tombstones S' \<Longrightarrow> quarantine S = quarantine S' \<Longrightarrow> filings S = filings S'"
  unfolding filings_def [abs_def] by (simp only:)

lemma filings_update [simp]:
  "filings (S\<lparr>changeLog := cl\<rparr>) = filings S" "filings (S\<lparr>hlcManager := m\<rparr>) = filings S"
  "filings (S\<lparr>persistedClock := pc\<rparr>) = filings S"
  by (rule filings_cong; simp)+

lemma stores_ok_update [simp]:
  "stores_ok (S\<lparr>hlcManager := m\<rparr>) = stores_ok S" "stores_ok (S\<lparr>persistedClock := pc\<rparr>) = stores_ok S"
  by (simp_all add: stores_ok_def)

lemma file_quarantine:
  "map_of (quarantine (fileFact E created S f p S)) = (case f of
     HeldFact c r fw \<Rightarrow> (map_of (quarantine S))(quarantineKeyOf c \<mapsto>
       \<lparr>q_change = c, q_receivedAt = r, q_forwardable = fw, q_position = positionField (change_hlc c) (Some p)\<rparr>)
   | _ \<Rightarrow> map_of (quarantine S))"
  by (cases f; simp add: file_eqs AList.update_conv' split: prod.split)

lemma file_filings: "filings (fileFact E created S f p S) = (filings S)(slot_of E S f \<mapsto> (p, change_hlc (fact_change f)))"
proof
  fix s
  show "filings (fileFact E created S f p S) s = ((filings S)(slot_of E S f \<mapsto> (p, change_hlc (fact_change f)))) s"
    by (cases f; cases s)
      (auto simp: filings_def slot_of_def file_lookup file_quarantine row_key_of_def cell_key_of_def holdPosition_def)
qed

lemma slot_of_stable [simp]: "slot_of E (fileFact E created S f p S) = slot_of E S"
  by (auto simp: slot_of_def fun_eq_iff row_key_of_def cell_key_of_def split: fact.split)

lemma file_stores:
  assumes "stores_ok S"
  shows "stores_ok (fileFact E created S f p S)"
proof -
  have "\<forall>k e. map_of (quarantine (fileFact E created S f p S)) k = Some e \<longrightarrow> quarantineKeyOf (q_change e) = k"
    using assms unfolding stores_ok_def file_quarantine by (cases f) auto
  then show ?thesis
    using assms
    by (cases f) (auto simp: stores_ok_def file_eqs AList.distinct_update AList.distinct_delete split: prod.split option.split)
qed

section \<open>Positions within a tick\<close>

definition same_base :: "hlc \<Rightarrow> hlc \<Rightarrow> bool" where
  "same_base a b \<longleftrightarrow> wallTime a = wallTime b \<and> counter a = counter b \<and> siteId a = siteId b"

definition before_tick :: "hlc \<Rightarrow> hlc \<Rightarrow> bool" where
  "before_tick p t \<longleftrightarrow> wallTime p < wallTime t \<or> wallTime p = wallTime t \<and> counter p < counter t"

abbreviation tick_pos :: "hlc \<Rightarrow> nat \<Rightarrow> hlc" where
  "tick_pos t j \<equiv> createHLC (wallTime t) (counter t) (siteId t) j"

text \<open>A transaction's facts of one tick stand side by side.\<close>

definition contiguous :: "('s \<Rightarrow> (hlc \<times> hlc) option) \<Rightarrow> bool" where
  "contiguous M \<longleftrightarrow> (\<forall>a b c pa pb pc ha hb hc. M a = Some (pa, ha) \<longrightarrow> M b = Some (pb, hb) \<longrightarrow> M c = Some (pc, hc) \<longrightarrow>
     same_base ha hc \<longrightarrow> same_base pa pc \<longrightarrow> compareHLC pa pb \<le> 0 \<longrightarrow> compareHLC pb pc \<le> 0 \<longrightarrow> same_base ha hb \<and> same_base pa pb)"

definition positions_ok :: "('s \<Rightarrow> (hlc \<times> hlc) option) \<Rightarrow> bool" where
  "positions_ok M \<longleftrightarrow> (\<forall>s p h. M s = Some (p, h) \<longrightarrow> compareHLC h p \<le> 0) \<and>
     (\<forall>s s' p h h'. M s = Some (p, h) \<longrightarrow> M s' = Some (p, h') \<longrightarrow> s = s') \<and> contiguous M"

definition in_tick :: "hlc \<Rightarrow> nat \<Rightarrow> hlc set \<Rightarrow> ('s \<Rightarrow> (hlc \<times> hlc) option) \<Rightarrow> bool" where
  "in_tick t n hs M \<longleftrightarrow>
     (\<forall>s p h. M s = Some (p, h) \<longrightarrow> before_tick p t \<or>
        (\<exists>j < n. p = tick_pos t j \<and> before_tick h t \<and> (\<forall>h' \<in> hs. compareHLC h h' \<le> 0))) \<and>
     (\<forall>s s' h h' j j'. M s = Some (tick_pos t j, h) \<longrightarrow> M s' = Some (tick_pos t j', h') \<longrightarrow>
        j \<le> j' \<longrightarrow> compareHLC h h' \<le> 0 \<and> (j = j' \<longrightarrow> s = s'))"

lemma before_tick_less: "before_tick p t \<Longrightarrow> compareHLC p (tick_pos t j) < 0"
  by (auto simp: before_tick_def compareHLC_chain createHLC_def cmp_simps ord_cmp_def)

lemma before_tick_mono: "before_tick c t \<Longrightarrow> compareHLC b c \<le> 0 \<Longrightarrow> before_tick b t"
  by (auto simp: before_tick_def compareHLC_chain ord_cmp_def split: if_splits)

lemma tick_pos_le: "compareHLC (tick_pos t j) (tick_pos t j') \<le> 0 \<longleftrightarrow> j \<le> j'"
  by (auto simp: compareHLC_chain createHLC_def ord_cmp_def compareSiteIds_eq_iff)

lemma not_before_tick_pos: "\<not> before_tick (tick_pos t j) t" "same_base (tick_pos t j) c \<Longrightarrow> \<not> before_tick c t"
  by (auto simp: before_tick_def same_base_def createHLC_def)

lemma same_base_sandwich:
  assumes "compareHLC x y \<le> 0" "compareHLC y z \<le> 0" "same_base x z"
  shows "same_base x y"
proof -
  have w: "wallTime x = wallTime y" using assms by (auto simp: compareHLC_chain ord_cmp_def same_base_def split: if_splits)
  have c: "counter x = counter y" using assms w by (auto simp: compareHLC_chain ord_cmp_def same_base_def split: if_splits)
  have "compareSiteIds (siteId x) (siteId y) \<le> 0"
    using assms(1) w c by (simp add: compareHLC_chain cmp_simps split: if_splits)
  moreover have "compareSiteIds (siteId y) (siteId x) \<le> 0"
    using assms(2,3) w c by (simp add: compareHLC_chain cmp_simps same_base_def split: if_splits)
  ultimately have "compareSiteIds (siteId x) (siteId y) = 0"
    using comparator_on.cmp_le_flip [OF compareSiteIds_comparator, of "siteId x" "siteId y"] by simp
  then show ?thesis using w c by (simp add: same_base_def compareSiteIds_eq_iff)
qed

lemma tick_pos_eq [simp]: "tick_pos t j = tick_pos t j' \<longleftrightarrow> j = j'"
  by (simp add: createHLC_def)

lemma in_tickD:
  assumes "in_tick t n hs M" "M s = Some (p, h)" "\<not> before_tick p t"
  obtains j where "j < n" "p = tick_pos t j" "before_tick h t" "\<And>h'. h' \<in> hs \<Longrightarrow> compareHLC h h' \<le> 0"
  using assms unfolding in_tick_def by blast

lemma in_tick_order:
  assumes "in_tick t n hs M" "M s = Some (tick_pos t j, h)" "M s' = Some (tick_pos t j', h')" "j \<le> j'"
  shows "compareHLC h h' \<le> 0" "j = j' \<Longrightarrow> s = s'"
  using assms unfolding in_tick_def by blast+

lemma contiguous_in_tick:
  assumes t: "in_tick t n hs M'" and old: "\<And>s p h. M' s = Some (p, h) \<Longrightarrow> before_tick p t \<Longrightarrow> M s = Some (p, h)" and M: "contiguous M"
  shows "contiguous M'"
  unfolding contiguous_def
proof (intro allI impI)
  fix a b c pa pb pc ha hb hc
  assume m: "M' a = Some (pa, ha)" "M' b = Some (pb, hb)" "M' c = Some (pc, hc)" and base: "same_base ha hc" "same_base pa pc"
    and le: "compareHLC pa pb \<le> 0" "compareHLC pb pc \<le> 0"
  show "same_base ha hb \<and> same_base pa pb"
  proof (cases "before_tick pa t")
    case True
    then have "before_tick pc t" using base(2) by (auto simp: before_tick_def same_base_def)
    moreover from this have "before_tick pb t" using le(2) by (rule before_tick_mono)
    ultimately have "M a = Some (pa, ha)" "M b = Some (pb, hb)" "M c = Some (pc, hc)" using old m True by blast+
    then show ?thesis using M base le unfolding contiguous_def by blast
  next
    case False
    then obtain j where a: "pa = tick_pos t j" using in_tickD [OF t m(1)] by blast
    then have "\<not> before_tick pc t" using base(2) not_before_tick_pos(2) by metis
    then obtain j'' where c: "pc = tick_pos t j''" using in_tickD [OF t m(3)] by blast
    have "\<not> before_tick pb t" using le(1) a before_tick_mono not_before_tick_pos(1) by metis
    then obtain j' where b: "pb = tick_pos t j'" using in_tickD [OF t m(2)] by blast
    have "j \<le> j'" "j' \<le> j''" using le by (simp_all add: a b c tick_pos_le)
    then have "compareHLC ha hb \<le> 0" "compareHLC hb hc \<le> 0"
      using in_tick_order(1) [OF t m(1) [unfolded a] m(2) [unfolded b]] in_tick_order(1) [OF t m(2) [unfolded b] m(3) [unfolded c]] by blast+
    then show ?thesis using same_base_sandwich [OF _ _ base(1)] a b by (simp add: same_base_def createHLC_def)
  qed
qed

lemma positions_in_tick:
  assumes t: "in_tick t n hs M'" and old: "\<And>s p h. M' s = Some (p, h) \<Longrightarrow> before_tick p t \<Longrightarrow> M s = Some (p, h)" and M: "positions_ok M"
  shows "positions_ok M'"
  unfolding positions_ok_def
proof (intro conjI allI impI)
  show "contiguous M'" using contiguous_in_tick [OF t old] M by (simp add: positions_ok_def)
next
  fix s p h assume s: "M' s = Some (p, h)"
  show "compareHLC h p \<le> 0"
  proof (cases "before_tick p t")
    case True
    then show ?thesis using old [OF s] M by (simp add: positions_ok_def)
  next
    case False
    then obtain j where "p = tick_pos t j" "before_tick h t" using in_tickD [OF t s] by blast
    then show ?thesis using before_tick_less [of h t j] by simp
  qed
next
  fix s s' p h h' assume s: "M' s = Some (p, h)" "M' s' = Some (p, h')"
  show "s = s'"
  proof (cases "before_tick p t")
    case True
    then show ?thesis using old s M unfolding positions_ok_def by blast
  next
    case False
    then obtain j where "p = tick_pos t j" using in_tickD [OF t s(1)] by blast
    then show ?thesis using in_tick_order(2) [OF t, of s j h s' j h'] s by simp
  qed
qed

lemma in_tick_step:
  assumes t: "in_tick t n (insert h hs) M" and h: "before_tick h t" "\<And>h'. h' \<in> hs \<Longrightarrow> compareHLC h h' \<le> 0"
  shows "in_tick t (Suc n) hs (M(s \<mapsto> (tick_pos t n, h)))"
proof -
  let ?M = "M(s \<mapsto> (tick_pos t n, h))"
  have old: "compareHLC k h \<le> 0 \<and> j < n" if "M u = Some (tick_pos t j, k)" for u j k
    using in_tickD [OF t that not_before_tick_pos(1)] by (metis insertI1 tick_pos_eq)
  show ?thesis
    unfolding in_tick_def
  proof (intro conjI allI impI)
    fix u p k assume u: "?M u = Some (p, k)"
    show "before_tick p t \<or> (\<exists>j < Suc n. p = tick_pos t j \<and> before_tick k t \<and> (\<forall>h' \<in> hs. compareHLC k h' \<le> 0))"
    proof (cases "u = s")
      case False
      then have "M u = Some (p, k)" using u by simp
      then show ?thesis using in_tickD [OF t] by (metis insertI2 less_SucI)
    qed (use u h in auto)
  next
    fix u u' k k' j j' assume u: "?M u = Some (tick_pos t j, k)" "?M u' = Some (tick_pos t j', k')" "j \<le> j'"
    then show "compareHLC k k' \<le> 0"
      using old in_tick_order(1) [OF t] hlc_order.cmp_refl [of h] by (fastforce split: if_splits)
    assume "j = j'"
    then show "u = u'" using u old in_tick_order(2) [OF t, of u j k u' j' k'] by (fastforce split: if_splits)
  qed
qed

lemma in_tick_start: "(\<And>s p h. M s = Some (p, h) \<Longrightarrow> before_tick p t) \<Longrightarrow> in_tick t 0 hs M"
  unfolding in_tick_def using not_before_tick_pos(1) by blast

lemma in_tick_weaken: "in_tick t n hs M \<Longrightarrow> hs' \<subseteq> hs \<Longrightarrow> in_tick t n hs' M"
  unfolding in_tick_def by blast

section \<open>Filing a batch\<close>

lemma held_slot: "slot_of E S f = slot_of E S g \<Longrightarrow> is_held f = is_held g"
  by (cases f; cases g) (auto simp: slot_of_def split: prod.splits)

text \<open>What the filing loop needs of the facts still to file, over the records \<open>S\<close> written so far.\<close>

definition fileable :: "sync_env \<Rightarrow> sync_meta \<Rightarrow> hlc \<Rightarrow> fact list \<Rightarrow> sync_meta \<Rightarrow> bool" where
  "fileable E S0 t fs S \<longleftrightarrow> records_ok E S \<and> stores_ok S \<and> sorted_cmp by_origin fs \<and>
     distinct (map (fact_addr E) (filter (\<lambda>f. \<not> is_held f) fs)) \<and>
     (\<forall>f \<in> set fs. before_tick (change_hlc (fact_change f)) t \<and> same_at E S0 S f \<and>
        (\<forall>p. positionOfExistingHold S0 f = Some p \<longrightarrow> filings S (slot_of E S f) = Some (p, change_hlc (fact_change f)))) \<and>
     (\<forall>f \<in> set fs. \<forall>g \<in> set fs. slot_of E S f = slot_of E S g \<longrightarrow> positionOfExistingHold S0 f = positionOfExistingHold S0 g)"

lemma fileableD:
  assumes "fileable E S0 t fs S"
  shows "records_ok E S" "stores_ok S" "sorted_cmp by_origin fs" "distinct (map (fact_addr E) (filter (\<lambda>f. \<not> is_held f) fs))"
    and "\<And>f. f \<in> set fs \<Longrightarrow> before_tick (change_hlc (fact_change f)) t" "\<And>f. f \<in> set fs \<Longrightarrow> same_at E S0 S f"
    and "\<And>f p. f \<in> set fs \<Longrightarrow> positionOfExistingHold S0 f = Some p \<Longrightarrow> filings S (slot_of E S f) = Some (p, change_hlc (fact_change f))"
    and "\<And>f g. f \<in> set fs \<Longrightarrow> g \<in> set fs \<Longrightarrow> slot_of E S f = slot_of E S g \<Longrightarrow> positionOfExistingHold S0 f = positionOfExistingHold S0 g"
  using assms unfolding fileable_def by blast+

lemma fileable_step:
  assumes f: "fileable E S0 t (f # fs) S" and p: "positionOfExistingHold S0 f = Some p \<or> positionOfExistingHold S0 f = None"
  shows "fileable E S0 t fs (fileFact E created S f p S)"
proof -
  let ?S = "fileFact E created S f p S"
  note d = fileableD [OF f]
  have dist: "distinct (map (fact_addr E) (filter (\<lambda>f. \<not> is_held f) (f # fs)))" by (rule d(4))
  have other: "is_held f \<or> fact_addr E f \<noteq> fact_addr E g" if "g \<in> set fs" "\<not> is_held g" for g
  proof -
    have "g \<in> set (filter (\<lambda>f. \<not> is_held f) fs)" using that by simp
    then show ?thesis using dist by force
  qed
  have same: "same_at E S0 ?S g" if "g \<in> set fs" for g
  proof (cases "is_held g")
    case True
    then show ?thesis by (cases g) (simp_all add: same_at_def)
  next
    case False
    have "same_at E S0 S g" using that by (intro d(6)) simp
    with d(1) other [OF that False] show ?thesis by (rule same_at_other)
  qed
  have kept: "filings ?S (slot_of E ?S g) = Some (q, change_hlc (fact_change g))"
    if g: "g \<in> set fs" "positionOfExistingHold S0 g = Some q" for g q
  proof -
    have g': "f \<in> set (f # fs)" "g \<in> set (f # fs)" using g(1) by simp_all
    have stored: "filings S (slot_of E S g) = Some (q, change_hlc (fact_change g))" by (rule d(7) [OF g'(2) g(2)])
    show ?thesis
    proof (cases "slot_of E S f = slot_of E S g")
      case True
      then have same_pos: "positionOfExistingHold S0 f = Some q" using d(8) [OF g' True] g(2) by simp
      then have "filings S (slot_of E S f) = Some (q, change_hlc (fact_change f))" by (rule d(7) [OF g'(1)])
      then have "change_hlc (fact_change f) = change_hlc (fact_change g)" using stored True by simp
      moreover have "p = q" using p same_pos by simp
      ultimately show ?thesis using True by (simp add: file_filings)
    qed (use stored in \<open>simp add: file_filings\<close>)
  qed
  have rest: "sorted_cmp by_origin fs" "distinct (map (fact_addr E) (filter (\<lambda>f. \<not> is_held f) fs))"
    using d(3) dist by (simp_all split: if_splits)
  have agree: "positionOfExistingHold S0 g = positionOfExistingHold S0 g'"
    if "g \<in> set fs" "g' \<in> set fs" "slot_of E ?S g = slot_of E ?S g'" for g g'
    using that by (intro d(8)) simp_all
  have early: "before_tick (change_hlc (fact_change g)) t" if "g \<in> set fs" for g using that by (intro d(5)) simp
  show ?thesis
    unfolding fileable_def
  proof (intro conjI ballI allI impI)
    show "records_ok E ?S" "stores_ok ?S" by (rule file_records [OF d(1)], rule file_stores [OF d(2)])
  qed (fact rest | rule early same kept agree; assumption)+
qed

lemma file_loop_positions:
  assumes "file_loop E created S0 t n fs S = Inr S'" "fileable E S0 t fs S"
    and "in_tick t n ((\<lambda>f. change_hlc (fact_change f)) ` set fs) (filings S)"
  shows "records_ok E S' \<and> stores_ok S' \<and> hlcManager S' = hlcManager S \<and> persistedClock S' = persistedClock S \<and>
    (\<exists>m. in_tick t m {} (filings S')) \<and> (\<forall>s p h. filings S' s = Some (p, h) \<longrightarrow> before_tick p t \<longrightarrow> filings S s = Some (p, h))"
  using assms
proof (induction fs arbitrary: n S)
  case Nil
  then show ?case using fileableD(1,2) [OF Nil.prems(2)] by auto
next
  case (Cons f fs)
  let ?h = "change_hlc (fact_change f)" and ?hs = "(\<lambda>f. change_hlc (fact_change f)) ` set fs"
  note d = fileableD [OF Cons.prems(2)]
  have current: "fileFact E (created (length fs)) S0 f p S = fileFact E (created (length fs)) S f p S" for p
    by (intro fileFact_current d(6)) simp
  have h: "before_tick ?h t" by (rule d(5)) simp
  have le: "compareHLC ?h h' \<le> 0" if "h' \<in> ?hs" for h' using d(3) that by (auto simp: by_origin_def)
  have tick: "in_tick t n (insert ?h ?hs) (filings S)" using Cons.prems(3) by simp
  have clock: "persistedClock (fileFact E (created (length fs)) S f p S) = persistedClock S" for p
    by (cases f; simp add: file_eqs split: prod.split)
  show ?case
  proof (cases "positionOfExistingHold S0 f")
    case (Some p)
    let ?S = "fileFact E (created (length fs)) S f p S"
    have "filings S (slot_of E S f) = Some (p, ?h)" by (rule d(7) [OF _ Some]) simp
    then have unchanged: "filings ?S = filings S" by (auto simp: file_filings fun_eq_iff)
    have "file_loop E created S0 t n fs ?S = Inr S'" using Cons.prems(1) Some current by simp
    moreover have "fileable E S0 t fs ?S" using fileable_step [OF Cons.prems(2)] Some by blast
    moreover have "in_tick t n ?hs (filings ?S)" unfolding unchanged by (rule in_tick_weaken [OF tick]) blast
    ultimately show ?thesis using Cons.IH [of n ?S] by (simp add: unchanged clock)
  next
    case None
    then obtain p where p: "positionsFrom t n = Some p" "file_loop E created S0 t (Suc n) fs (fileFact E (created (length fs)) S f p S) = Inr S'"
      using Cons.prems(1) current by (auto split: option.splits)
    then have pos: "p = tick_pos t n" by (simp add: positionsFrom_def split: if_splits)
    let ?S = "fileFact E (created (length fs)) S f p S"
    have "in_tick t (Suc n) ?hs (filings ?S)" unfolding file_filings pos by (rule in_tick_step [OF tick h le])
    from Cons.IH [OF p(2) fileable_step [OF Cons.prems(2)] this] None
    have "records_ok E S' \<and> stores_ok S' \<and> hlcManager S' = hlcManager ?S \<and> persistedClock S' = persistedClock ?S \<and>
        (\<exists>m. in_tick t m {} (filings S'))"
      and old: "\<And>s q k. filings S' s = Some (q, k) \<Longrightarrow> before_tick q t \<Longrightarrow> filings ?S s = Some (q, k)" by blast+
    moreover have "filings S s = Some (q, k)" if "filings ?S s = Some (q, k)" "before_tick q t" for s q k
      using that not_before_tick_pos(1) [of t n] by (auto simp: file_filings pos split: if_splits)
    ultimately show ?thesis by (simp add: clock)
  qed
qed

section \<open>The clock\<close>

definition within_clock :: "hlc \<Rightarrow> int \<times> nat \<Rightarrow> bool" where
  "within_clock p c \<longleftrightarrow> wallTime p < fst c \<or> wallTime p = fst c \<and> counter p \<le> snd c"

definition clock_le :: "int \<times> nat \<Rightarrow> int \<times> nat \<Rightarrow> bool" where
  "clock_le a b \<longleftrightarrow> fst a < fst b \<or> fst a = fst b \<and> snd a \<le> snd b"

abbreviation clock_of :: "sync_meta \<Rightarrow> int \<times> nat" where
  "clock_of S \<equiv> getState (hlcManager S)"

lemma clock_le_refl [simp]: "clock_le c c" by (simp add: clock_le_def)

lemma clock_le_trans: "clock_le a b \<Longrightarrow> clock_le b c \<Longrightarrow> clock_le a c" by (auto simp: clock_le_def)

lemma within_clock_mono: "within_clock p a \<Longrightarrow> clock_le a b \<Longrightarrow> within_clock p b" by (auto simp: within_clock_def clock_le_def)

lemma within_clock_lower: "compareHLC h p \<le> 0 \<Longrightarrow> within_clock p c \<Longrightarrow> within_clock h c"
  by (auto simp: within_clock_def compareHLC_chain ord_cmp_def split: if_splits)

lemma tick_clock:
  assumes "tick now m = (t, m')"
  shows "within_clock p (getState m) \<Longrightarrow> before_tick p t" "within_clock (tick_pos t j) (getState m')"
    and "\<not> within_clock (tick_pos t j) (getState m)" "clock_le (getState m) (getState m')"
  using assms by (auto simp: tick_def Let_def within_clock_def before_tick_def clock_le_def getState_def now_hlc_def createHLC_def split: if_splits)

lemma now_hlc_before: "compareHLC r (now_hlc m) < 0 \<Longrightarrow> within_clock r (getState m)"
  by (auto simp: within_clock_def getState_def now_hlc_def createHLC_def compareHLC_chain ord_cmp_def split: if_splits)

lemma within_now: "within_clock (now_hlc m) c = clock_le (getState m) c"
  by (simp add: within_clock_def clock_le_def getState_def now_hlc_def createHLC_def)

lemma receive_clock:
  assumes "receive now m r = Inr (h, m')"
  shows "within_clock r (getState m')" "clock_le (getState m) (getState m')"
  using receive_step [OF assms] now_hlc_before [of r m'] now_hlc_before [of "now_hlc m" m'] by (simp_all add: within_now)

text \<open>Every position taken is covered by the persisted clock, so a restart never hands one out again.\<close>

definition durable :: "sync_meta \<Rightarrow> bool" where
  "durable S \<longleftrightarrow> (\<forall>s p h. filings S s = Some (p, h) \<longrightarrow> (\<exists>c. persistedClock S = Some c \<and> within_clock p c)) \<and>
     (\<forall>c. persistedClock S = Some c \<longrightarrow> clock_le c (clock_of S))"

definition meta_ok :: "sync_env \<Rightarrow> sync_meta \<Rightarrow> bool" where
  "meta_ok E S \<longleftrightarrow> records_ok E S \<and> stores_ok S \<and> positions_ok (filings S) \<and> durable S"

text \<open>The clock never goes back, and whatever is filed anew is filed above it.\<close>

definition grows :: "sync_meta \<Rightarrow> sync_meta \<Rightarrow> bool" where
  "grows S S' \<longleftrightarrow> clock_le (clock_of S) (clock_of S') \<and>
     (\<forall>s p h. filings S' s = Some (p, h) \<longrightarrow> filings S s = Some (p, h) \<or> \<not> within_clock p (clock_of S))"

text \<open>A restarted replica reads its clock back from storage.\<close>

definition restart :: "sync_meta \<Rightarrow> sync_meta" where
  "restart S = S\<lparr>hlcManager := new_manager (mgr_siteId (hlcManager S)) (persistedClock S)\<rparr>"

lemma filed_within: "meta_ok E S \<Longrightarrow> filings S s = Some (p, h) \<Longrightarrow> within_clock p (clock_of S)"
  unfolding meta_ok_def durable_def using within_clock_mono by blast

lemma grows_refl [simp]: "grows S S" by (simp add: grows_def)

lemma grows_trans: "grows S S' \<Longrightarrow> grows S' S'' \<Longrightarrow> grows S S''"
  unfolding grows_def using clock_le_trans within_clock_mono by blast

lemma meta_ok_restart: "meta_ok E S \<Longrightarrow> meta_ok E (restart S)"
  by (auto simp: meta_ok_def restart_def durable_def new_manager_def getState_def)

lemma merge_clock_ok:
  assumes "merge_clock now w S = Inr S'" "meta_ok E S"
  shows "meta_ok E S'" "grows S S'" "\<And>h. w = Some h \<Longrightarrow> within_clock h (clock_of S')"
proof -
  obtain m where S': "S' = S\<lparr>hlcManager := m\<rparr>" and le: "clock_le (clock_of S) (getState m)"
    and w: "\<And>h. w = Some h \<Longrightarrow> within_clock h (getState m)"
  proof (cases w)
    case None
    show ?thesis by (rule that [of "hlcManager S"]) (use assms(1) None in \<open>simp_all add: merge_clock_def\<close>)
  next
    case (Some h)
    then obtain x m where r: "receive now (hlcManager S) h = Inr (x, m)" "S' = S\<lparr>hlcManager := m\<rparr>"
      using assms(1) by (auto simp: merge_clock_def split: sum.splits)
    show ?thesis by (rule that [OF r(2)]) (use receive_clock [OF r(1)] Some in simp_all)
  qed
  show "meta_ok E S'" using assms(2) le by (auto simp: S' meta_ok_def durable_def intro: clock_le_trans)
  show "grows S S'" using le by (simp add: S' grows_def)
  show "within_clock h (clock_of S')" if "w = Some h" for h using w [OF that] by (simp add: S')
qed

section \<open>Filing at the next tick\<close>

text \<open>What a batch brings: facts of distinct addresses, held alike, none above the merged clock.\<close>

definition batch_facts :: "sync_env \<Rightarrow> hlc option \<Rightarrow> fact list \<Rightarrow> bool" where
  "batch_facts E w fs \<longleftrightarrow> distinct (map (fact_addr E) (filter (\<lambda>f. \<not> is_held f) fs)) \<and>
     (\<exists>fw. \<forall>c r fw'. HeldFact c r fw' \<in> set fs \<longrightarrow> fw' = fw) \<and>
     (\<forall>f \<in> set fs. \<exists>h. w = Some h \<and> compareHLC (change_hlc (fact_change f)) h \<le> 0)"

lemma batch_facts_sub:
  assumes "batch_facts E w fs" "set gs \<subseteq> set fs" "distinct (map (fact_addr E) (filter (\<lambda>f. \<not> is_held f) gs))"
  shows "batch_facts E w gs"
  using assms unfolding batch_facts_def by (meson subsetD)

lemma batch_facts_filter:
  assumes "batch_facts E w fs"
  shows "batch_facts E w (filter P fs)"
proof (rule batch_facts_sub [OF assms])
  note assms
  moreover have "filter (\<lambda>f. \<not> is_held f) (filter P fs) = filter P (filter (\<lambda>f. \<not> is_held f) fs)" by (simp add: conj_commute)
  ultimately show "distinct (map (fact_addr E) (filter (\<lambda>f. \<not> is_held f) (filter P fs)))"
    by (simp only: batch_facts_def distinct_map_filter)
qed simp

lemma batch_facts_sort:
  assumes "batch_facts E w fs"
  shows "batch_facts E w (sort_cmp by_origin fs)"
proof (rule batch_facts_sub [OF assms])
  have "distinct (map (fact_addr E) (filter (\<lambda>f. \<not> is_held f) fs))" using assms by (simp only: batch_facts_def)
  moreover have "mset (map (fact_addr E) (filter (\<lambda>f. \<not> is_held f) (sort_cmp by_origin fs))) =
      mset (map (fact_addr E) (filter (\<lambda>f. \<not> is_held f) fs))" by simp
  ultimately show "distinct (map (fact_addr E) (filter (\<lambda>f. \<not> is_held f) (sort_cmp by_origin fs)))"
    by (metis mset_eq_imp_distinct_iff)
qed simp

lemma existing_hold:
  assumes "stores_ok S" "positionOfExistingHold S f = Some p"
  shows "filings S (slot_of E S f) = Some (p, change_hlc (fact_change f))"
proof -
  obtain c r fw e where f: "f = HeldFact c r fw" and e: "quarantine_get S c = Some e" "p = holdPosition e"
    using assms(2) by (cases f) (auto simp: positionOfExistingHold_def split: option.splits if_splits)
  then have "quarantineKeyOf (q_change e) = quarantineKeyOf c" using assms(1) unfolding stores_ok_def quarantine_get_def by blast
  then have "change_hlc (q_change e) = change_hlc c" by (simp add: quarantineKeyOf_def)
  then show ?thesis using e by (simp add: f filings_def slot_of_def quarantine_get_def)
qed

lemma hold_agree:
  assumes "batch_facts E w fs" "f \<in> set fs" "g \<in> set fs" "slot_of E S f = slot_of E S g"
  shows "positionOfExistingHold S0 f = positionOfExistingHold S0 g"
proof (cases "is_held f")
  case True
  then obtain c r fw c' r' fw' where fg: "f = HeldFact c r fw" "g = HeldFact c' r' fw'"
    using held_slot [OF assms(4)] by (metis is_held.simps fact.exhaust)
  moreover have "fw = fw'" using assms(1-3) fg unfolding batch_facts_def by metis
  ultimately show ?thesis using assms(4) by (simp add: slot_of_def positionOfExistingHold_def quarantine_get_def)
next
  case False
  then show ?thesis using held_slot [OF assms(4)] by (cases f; cases g) (simp_all add: positionOfExistingHold_def)
qed

lemma update_clock [simp]:
  "generation_after E (S\<lparr>hlcManager := m\<rparr>) = generation_after E S" "slot_of E (S\<lparr>hlcManager := m\<rparr>) = slot_of E S"
  "same_at E S (S\<lparr>hlcManager := m\<rparr>) f"
  by (auto simp: generation_after_def [abs_def] slot_of_def [abs_def] row_key_of_def cell_key_of_def same_at_def
      getTombstone_def getColumnVersion_def getTombstoneByIdentity_def getColumnVersionByIdentity_def fun_eq_iff split: fact.split option.split)

lemma origin_sorted: "sorted_cmp by_origin (sort_cmp by_origin fs)"
  using origin_order.sorted_sort_cmp by simp

lemma file_at_tick:
  assumes ok: "meta_ok E S" and b: "batch_facts E w fs" and w: "\<And>h. w = Some h \<Longrightarrow> within_clock h (clock_of S)"
    and t: "tick now (hlcManager S) = (t, m)"
    and run: "file_loop E created S t 0 (sort_cmp by_origin fs) (S\<lparr>hlcManager := m\<rparr>) = Inr S'"
  shows "meta_ok E (persistHLCStateBatch S') \<and> grows S (persistHLCStateBatch S')"
proof -
  let ?fs = "sort_cmp by_origin fs" and ?S = "S\<lparr>hlcManager := m\<rparr>"
  have parts: "records_ok E S" "stores_ok S" "positions_ok (filings S)" using ok by (simp_all add: meta_ok_def)
  have b': "batch_facts E w ?fs" using b by (rule batch_facts_sort)
  have early: "before_tick (change_hlc (fact_change f)) t" if "f \<in> set ?fs" for f
  proof -
    obtain h where "w = Some h" "compareHLC (change_hlc (fact_change f)) h \<le> 0" using b' \<open>f \<in> set ?fs\<close> unfolding batch_facts_def by blast
    then show ?thesis using within_clock_lower w tick_clock(1) [OF t] by blast
  qed
  have files: "fileable E S t ?fs ?S"
    unfolding fileable_def
  proof (intro conjI ballI allI impI)
    show "distinct (map (fact_addr E) (filter (\<lambda>f. \<not> is_held f) ?fs))" using b' by (simp only: batch_facts_def)
    show "filings ?S (slot_of E ?S f) = Some (p, change_hlc (fact_change f))" if "positionOfExistingHold S f = Some p" for f p
      using existing_hold [OF parts(2) that] by simp
    show "positionOfExistingHold S f = positionOfExistingHold S g"
      if "f \<in> set ?fs" "g \<in> set ?fs" "slot_of E ?S f = slot_of E ?S g" for f g
      using hold_agree [OF b' that] .
  qed (use parts early in \<open>simp_all add: origin_sorted\<close>)
  have old: "before_tick p t" if "filings S s = Some (p, h)" for s p h
    using filed_within [OF ok that] tick_clock(1) [OF t] by blast
  have start: "in_tick t 0 hs (filings ?S)" for hs by (rule in_tick_start) (use old in simp)
  from file_loop_positions [OF run files start] obtain k where r: "records_ok E S'" "stores_ok S'" "hlcManager S' = m" "in_tick t k {} (filings S')"
    and kept: "\<And>s p h. filings S' s = Some (p, h) \<Longrightarrow> before_tick p t \<Longrightarrow> filings S s = Some (p, h)"
    by auto
  have pos: "positions_ok (filings S')" by (rule positions_in_tick [OF r(4) kept parts(3)])
  have new: "(filings S s = Some (p, h) \<or> \<not> within_clock p (clock_of S)) \<and> within_clock p (getState m)" if at: "filings S' s = Some (p, h)" for s p h
  proof (cases "before_tick p t")
    case True
    then have "filings S s = Some (p, h)" by (rule kept [OF at])
    then show ?thesis using within_clock_mono [OF filed_within [OF ok] tick_clock(4) [OF t]] by blast
  next
    case False
    then obtain j where "p = tick_pos t j" using in_tickD [OF r(4) at] by blast
    then show ?thesis using tick_clock(2,3) [OF t] by simp
  qed
  show ?thesis
    using r(1-3) pos new tick_clock(4) [OF t] by (auto simp: meta_ok_def durable_def grows_def persistHLCStateBatch_def)
qed

lemma fileAtNextTick_ok:
  assumes run: "fileAtNextTick E N fs w lw S = Inr (filed, S')" and ok: "meta_ok E S" and b: "batch_facts E w fs"
  shows "meta_ok E S' \<and> grows S S'"
proof -
  let ?fs = "filter (\<lambda>f. \<not> lostToLocalWrite E lw f) fs"
  obtain S1 S2 where S1: "merge_clock (now_file N) w S = Inr S1" and S': "S' = persistHLCStateBatch S2" and
    S2: "(if ?fs = [] then Inr S1 else (case tick (now_tick N) (hlcManager S1) of (t, m) \<Rightarrow>
        file_loop E (now_created N) S1 t 0 (sort_cmp by_origin ?fs) (S1\<lparr>hlcManager := m\<rparr>))) = Inr S2"
    using run unfolding fileAtNextTick_def Let_def by (auto split: sum.splits)
  note m = merge_clock_ok [OF S1 ok]
  have "meta_ok E S' \<and> grows S1 S'"
  proof (cases "?fs = []")
    case True
    then have "S' = S1\<lparr>persistedClock := Some (clock_of S1)\<rparr>" using S2 S' by (simp add: persistHLCStateBatch_def)
    then show ?thesis using m(1) filed_within [OF m(1)] by (auto simp: meta_ok_def durable_def grows_def)
  next
    case False
    obtain t k where t: "tick (now_tick N) (hlcManager S1) = (t, k)" by (cases "tick (now_tick N) (hlcManager S1)")
    show ?thesis
      unfolding S' by (rule file_at_tick [OF m(1) batch_facts_filter [OF b] m(3) t]) (use S2 False t in simp_all)
  qed
  then show ?thesis using grows_trans [OF m(2)] by blast
qed

end
