(* ===== verification/Sync_Preserve.thy ===== *)
theory Sync_Preserve
  imports Sync_Filing
begin

text \<open>
  An apply keeps the replica's records well formed: the cleanup after a delete, the facts a batch
  gives rise to, and the whole of \<open>applyChanges\<close> with the local commits that land during it.
\<close>

section \<open>Cleanup\<close>

lemma map_of_survivors: "map_of (survivors g i K cv) k = (case k of (g', i', c) \<Rightarrow> if g' = g \<and> i' = i \<and> c \<notin> K then None else map_of cv k)"
  by (induction cv) (auto simp: survivors_def split: prod.splits)

lemma map_of_kept_entries: "map_of (filter (\<lambda>e. fst e \<notin> D) cl) lk = (if lk \<in> D then None else map_of cl lk)"
  by (induction cl) auto

lemma doomed_iff:
  assumes "map_of cv (g, i, c) = Some v" "c \<notin> K"
  shows "(filingPosition (cv_filed v), ColumnEntry, g, i, Some c) \<in> doomed_entries g i K cv"
  using assms map_of_SomeD [OF assms(1)] unfolding doomed_entries_def by blast

lemma purge_log:
  assumes "log_exact S"
  shows "log_exact (purge g i K S)"
proof -
  have "map_of (changeLog (purge g i K S)) lk = log_of (purge g i K S) lk" for lk
  proof -
    obtain q ty g' i' c' where lk: "lk = (q, ty, g', i', c')" by (cases lk)
    have before: "map_of (changeLog S) lk = log_of S lk" using assms by (simp add: log_exact_def)
    have dead: "lk \<in> doomed_entries g i K cv \<Longrightarrow> ty = ColumnEntry \<and> g' = g \<and> i' = i \<and> (\<exists>c. c' = Some c \<and> c \<notin> K)" for cv
      by (auto simp: lk doomed_entries_def)
    show ?thesis
    proof (cases "ty = ColumnEntry \<and> g' = g \<and> i' = i \<and> (\<exists>c. c' = Some c \<and> c \<notin> K)")
      case True
      then obtain c where c: "lk = (q, ColumnEntry, g, i, Some c)" "c \<notin> K" by (auto simp: lk)
      have "log_of S lk = None" if "lk \<notin> doomed_entries g i K (columnVersions S)"
        using that doomed_iff [OF _ c(2), of "columnVersions S" g i] by (auto simp: c log_of_def split: option.split)
      then show ?thesis using before c by (auto simp: purge_survivors map_of_kept_entries log_of_def map_of_survivors)
    next
      case False
      then have "lk \<notin> doomed_entries g i K (columnVersions S)" using dead by blast
      moreover have "log_of (S\<lparr>columnVersions := survivors g i K (columnVersions S)\<rparr>) lk = log_of S lk"
        using False by (cases ty; cases c') (auto simp: lk log_of_def map_of_survivors)
      ultimately show ?thesis using before by (simp add: purge_survivors map_of_kept_entries)
    qed
  qed
  then show ?thesis by (simp add: log_exact_def fun_eq_iff)
qed

lemma purge_catalog: "catalog_ok E S \<Longrightarrow> catalog_ok E (purge g i K S)"
  by (auto simp: catalog_ok_def generations_ok_def fresh_generations_def addressed_ok_def purge_survivors map_of_survivors split: if_splits)

lemma purge_filings: "filings (purge g i K S) s = Some x \<Longrightarrow> filings S s = Some x"
  by (cases s) (auto simp: filings_def purge_survivors map_of_survivors split: if_splits)

lemma positions_ok_sub:
  assumes "positions_ok M" "\<And>s x. M' s = Some x \<Longrightarrow> M s = Some x"
  shows "positions_ok M'"
  using assms unfolding positions_ok_def contiguous_def by meson

lemma purge_ok:
  assumes "meta_ok E S"
  shows "meta_ok E (purge g i K S) \<and> grows S (purge g i K S)"
proof -
  have fields: "hlcManager (purge g i K S) = hlcManager S" "persistedClock (purge g i K S) = persistedClock S"
    by (simp_all add: purge_survivors)
  have "stores_ok S" using assms by (simp add: meta_ok_def)
  then have stores: "stores_ok (purge g i K S)"
    unfolding stores_ok_def by (simp add: purge_survivors survivors_def distinct_map_filter)
  have "positions_ok (filings (purge g i K S))"
    using assms positions_ok_sub purge_filings unfolding meta_ok_def by blast
  moreover have "durable (purge g i K S)"
    using assms purge_filings unfolding meta_ok_def durable_def fields by blast
  moreover have "records_ok E (purge g i K S)"
    using assms purge_log purge_catalog unfolding meta_ok_def records_ok_def by blast
  moreover have "grows S (purge g i K S)" unfolding grows_def fields by (blast intro: clock_le_refl purge_filings)
  ultimately show ?thesis using assms by (simp add: meta_ok_def stores)
qed

lemma cleanup_fact_ok: "meta_ok E S \<Longrightarrow> meta_ok E (cleanup_fact E w f S) \<and> grows S (cleanup_fact E w f S)"
  using purge_ok by (cases f) (auto simp: cleanup_batch_def cleanup_purge split: option.split)

text \<open>What is asked of the local commits that land during an apply: they keep the records as the apply does.\<close>

definition lawful_commits :: "sync_env \<Rightarrow> 'db local_commits \<Rightarrow> bool" where
  "lawful_commits E L \<longleftrightarrow> (\<forall>R. meta_ok E (rep_meta R) \<longrightarrow>
     meta_ok E (rep_meta (fst (L R))) \<and> grows (rep_meta R) (rep_meta (fst (L R))))"

lemma lawful_step:
  assumes "lawful_commits E L" "meta_ok E (rep_meta R) \<and> grows S (rep_meta R)"
  shows "meta_ok E (rep_meta (fst (L R))) \<and> grows S (rep_meta (fst (L R)))"
  using assms grows_trans unfolding lawful_commits_def by blast

lemma cleanup_loop_ok:
  assumes "\<And>i k. lawful_commits E (whileCleaning H i k)" "\<And>i. spares E cs (whileCleaning H i 1)"
  shows "(\<And>d r. DeleteFact d r \<in> set fs \<Longrightarrow> RowDeletion d \<in> set cs) \<Longrightarrow> meta_ok E (rep_meta R) \<and> grows S (rep_meta R) \<Longrightarrow>
    meta_ok E (rep_meta (cleanup_loop E H w i fs R)) \<and> grows S (rep_meta (cleanup_loop E H w i fs R))"
proof (induction fs arbitrary: i R)
  case (Cons f fs)
  have IH: "meta_ok E (rep_meta (cleanup_loop E H w j fs X)) \<and> grows S (rep_meta (cleanup_loop E H w j fs X))"
    if "meta_ok E (rep_meta X) \<and> grows S (rep_meta X)" for j X
    by (rule Cons.IH [OF _ that]) (rule Cons.prems(1), rule list.set_intros(2))
  show ?case
  proof (cases f)
    case f: (DeleteFact d r)
    define R0 where "R0 = fst (whileCleaning H i 0 R)"
    define R1 where "R1 = fst (whileCleaning H i 1 R0)"
    have d: "RowDeletion d \<in> set cs" using Cons.prems(1) [of d r] f by simp
    have batch: "cleanup_batch E w d r (rep_meta R0) = cleanup_batch E w d r (rep_meta R1)"
      using cleanup_batch_alike [OF spares_reads [OF assms(2) d, of i R0]] by (simp add: R1_def)
    have loop: "cleanup_loop E H w i (f # fs) R =
        cleanup_loop E H w (Suc i) fs (R1\<lparr>rep_meta := cleanup_fact E w f (rep_meta R1)\<rparr>)"
      by (simp add: f Let_def R0_def [symmetric] R1_def [symmetric] batch del: One_nat_def)
    have "meta_ok E (rep_meta R1) \<and> grows S (rep_meta R1)"
      unfolding R1_def R0_def by (intro lawful_step [OF assms(1)] Cons.prems(2))
    then have "meta_ok E (cleanup_fact E w f (rep_meta R1)) \<and> grows S (cleanup_fact E w f (rep_meta R1))"
      using cleanup_fact_ok grows_trans by blast
    then show ?thesis unfolding loop by (intro IH) simp
  qed (use IH [OF Cons.prems(2)] in simp_all)
qed simp

text \<open>
  Without the condition on the commits between scan and write the cleanup can break the change
  log. A capture in between that files a scanned cell again, at a new position, loses its new
  version to the write, and its log entry stays behind without a record.
\<close>

lemma cleanup_race:
  assumes "generationOf S schema table = Some g" "i = identity_of E schema table pk"
    and scanned: "((g, i, c), v) \<in> set (columnVersions S)" "c \<notin> K"
    and log: "map_of (changeLog S') (p, ColumnEntry, g, i, Some c) = Some h"
    and moved: "\<And>v. ((g, i, c), v) \<in> set (columnVersions S) \<Longrightarrow> filingPosition (cv_filed v) \<noteq> p"
  defines "S'' \<equiv> write_deletes (deleteRowVersionsAndLogEntries E schema table pk K S) S'"
  shows "map_of (columnVersions S'') (g, i, c) = None" "map_of (changeLog S'') (p, ColumnEntry, g, i, Some c) = Some h"
    "\<not> log_exact S''"
proof -
  define removed where "removed = filter (\<lambda>(c, _). c \<notin> K) (row_versions S g i)"
  have member: "(c', v') \<in> set removed \<longleftrightarrow> ((g, i, c'), v') \<in> set (columnVersions S) \<and> c' \<notin> K" for c' v'
    by (force simp: removed_def row_versions_def)
  have batch: "deleteRowVersionsAndLogEntries E schema table pk K S = \<lparr>db_cells = map (\<lambda>(c, v). (g, i, c)) removed,
      db_entries = map (\<lambda>(c, v). (filingPosition (cv_filed v), ColumnEntry, g, i, Some c)) removed\<rparr>"
    using assms(1,2) by (simp add: deleteRowVersionsAndLogEntries_def deleteRowVersionsBatch_def getRowVersions_def removed_def
        staged_entry_def Let_def case_prod_unfold)
  have kept: "map_of (filter (\<lambda>(k, _). k \<notin> X) xs) k = (if k \<in> X then None else map_of xs k)" for X xs and k :: 'k
    by (induction xs) auto
  have cell: "(g, i, c) \<in> set (map (\<lambda>(c, v). (g, i, c)) removed)"
    using scanned member [of c v] by force
  have entry: "(p, ColumnEntry, g, i, Some c) \<notin> set (map (\<lambda>(c, v). (filingPosition (cv_filed v), ColumnEntry, g, i, Some c)) removed)"
    using moved member by force
  show none: "map_of (columnVersions S'') (g, i, c) = None"
    using cell by (simp add: S''_def write_deletes_def batch fold_alist_delete kept)
  show some: "map_of (changeLog S'') (p, ColumnEntry, g, i, Some c) = Some h"
    using entry log by (simp add: S''_def write_deletes_def batch fold_alist_delete kept)
  show "\<not> log_exact S''"
  proof
    assume "log_exact S''"
    then have "log_of S'' (p, ColumnEntry, g, i, Some c) = Some h" using some by (metis log_exact_def)
    then show False using none by (simp add: log_of_def)
  qed
qed

section \<open>The facts of a batch\<close>

lemma keep_max_keys:
  "map K (map snd (fold (\<lambda>x m. if P x then keep_max f (K x) x m else m) xs [])) =
     map fst (fold (\<lambda>x m. if P x then keep_max f (K x) x m else m) xs [])"
  using keep_max_member by (fastforce intro!: map_cong)

lemma winners_distinct:
  assumes "\<And>x. P x \<Longrightarrow> K x = F (A x)"
  shows "distinct (map A (map snd (fold (\<lambda>x m. if P x then keep_max f (K x) x m else m) xs [])))"
proof -
  let ?m = "fold (\<lambda>x m. if P x then keep_max f (K x) x m else m) xs []"
  have "map K (map snd ?m) = map F (map A (map snd ?m))"
    using keep_max_member [of _ _ P f K xs] assms by fastforce
  moreover have "distinct (map K (map snd ?m))"
    unfolding keep_max_keys using keep_max_fold(2) [of "[]" P f K xs] by simp
  ultimately have "distinct (map F (map A (map snd ?m)))" by (rule subst)
  then show ?thesis by (subst (asm) distinct_map) (rule conjunct1)
qed

lemma collapse_distinct: "distinct (map (fact_addr E) (collapseInBatchRepeats E L))"
proof -
  let ?A = "\<lambda>r. fact_addr E (fact_of r)"
  define F where "F = (\<lambda>(s, t, i, c). case c of
      None \<Rightarrow> lit ''delete:'' @ joinKeyParts [s, t, i] | Some col \<Rightarrow> lit ''column:'' @ joinKeyParts [s, t, i] @ joinKeyParts [col])"
  have addr: "?A r = (change_schema (rc_change r), change_table (rc_change r),
      identity_of E (change_schema (rc_change r)) (change_table (rc_change r)) (change_pk (rc_change r)), change_column (rc_change r))" for r
    by (simp add: fact_addr_def fact_of_def Let_def split: change.split)
  have "distinct (map ?A (map snd (delete_winners_of E L)))"
    by (rule winners_distinct [where F = F]) (simp add: addr F_def deleteKey_def rowIdentityKey_def applied_delete_def is_delete_def)
  moreover have "distinct (map ?A (map snd (column_winners_of E L)))"
    by (rule winners_distinct [where F = F])
      (auto simp: addr F_def columnKey_def rowIdentityKey_def applied_column_def is_delete_def)
  moreover have "?A r \<noteq> ?A r'" if "r \<in> delete_winner_set E L" "r' \<in> column_winner_set E L" for r r'
    using winner_sources(1) [OF that(1)] winner_sources(2) [OF that(2)] by (auto simp: addr is_delete_def)
  then have "?A ` delete_winner_set E L \<inter> ?A ` column_winner_set E L = {}" by blast
  then have "set (map ?A (map snd (delete_winners_of E L))) \<inter> set (map ?A (map snd (column_winners_of E L))) = {}"
    by (simp only: delete_winner_set_def column_winner_set_def set_map)
  ultimately have "distinct (map ?A (map snd (delete_winners_of E L)) @ map ?A (map snd (column_winners_of E L)))"
    by (simp only: distinct_append)
  then show ?thesis by (simp add: collapse_facts comp_def)
qed

lemma outcome_list: "map rc_change (batch_outcome E rs) = map rc_change rs"
proof -
  have refuse: "map rc_change (refuseEditsOfForgottenRows E rs) = map rc_change rs" for rs
    by (auto simp: refuseEditsOfForgottenRows_def Let_def)
  have "map rc_change (map (reconcile_entry E W rs) (enumerate n ss)) = map rc_change ss" for W rs n ss
    by (induction ss arbitrary: n) (auto simp: reconcile_entry_def split: option.split)
  then have "map rc_change (reconcileInBatchDeletes E rs) = map rc_change rs" for rs
    by (simp add: reconcileInBatchDeletes_def Let_def)
  then show ?thesis by (simp add: refuse)
qed

lemma resolve_loop_changes: "map rc_change (fst (resolve_loop E H i cs R)) = cs"
  by (induction cs arbitrary: i R) (simp_all add: case_prod_unfold Let_def)

lemma outcome_changes:
  assumes "resolve_loop E H i (to_resolve E cs) R = (rs, R')" "r \<in> set (batch_outcome E rs)"
  shows "rc_change r \<in> set cs"
proof -
  have "rc_change r \<in> set (map rc_change (batch_outcome E rs))" using assms(2) by simp
  moreover have "map rc_change rs = to_resolve E cs"
    using resolve_loop_changes [of E H i "to_resolve E cs" R] by (simp only: assms(1) fst_conv)
  ultimately have "rc_change r \<in> set (to_resolve E cs)" by (simp only: outcome_list)
  then show ?thesis by (simp add: to_resolve_def)
qed

lemma resolve_loop_ok:
  assumes "\<And>i k. lawful_commits E (whileResolving H i k)"
  shows "meta_ok E (rep_meta R) \<and> grows S (rep_meta R) \<Longrightarrow>
    meta_ok E (rep_meta (snd (resolve_loop E H i cs R))) \<and> grows S (rep_meta (snd (resolve_loop E H i cs R)))"
proof (induction cs arbitrary: i R)
  case (Cons c cs)
  have "meta_ok E (rep_meta (replica_at H i R k)) \<and> grows S (rep_meta (replica_at H i R k))" for k
    by (induction k) (unfold replica_at.simps, rule lawful_step [OF assms Cons.prems], rule lawful_step [OF assms])
  from Cons.IH [OF this] show ?case by (simp add: case_prod_unfold Let_def)
qed simp

definition well_stamped :: "change_set list \<Rightarrow> bool" where
  "well_stamped css \<longleftrightarrow> (\<forall>cs \<in> set css. \<forall>c \<in> set (cs_changes cs). compareHLC (change_hlc c) (cs_hlc cs) \<le> 0)"

lemma maxHLC_upper:
  assumes "h \<in> set hs"
  obtains m where "maxHLC hs = Some m" "compareHLC h m \<le> 0"
proof -
  obtain x xs where hs: "hs = x # xs" using assms by (cases hs) auto
  define step where "step = (\<lambda>max h. case max of None \<Rightarrow> Some h | Some m \<Rightarrow> if 0 < compareHLC h m then Some h else Some m)"
  have "\<exists>r. foldl step (Some m) xs = Some r" for m by (induction xs arbitrary: m) (auto simp: step_def)
  then obtain r where r: "foldl step (Some x) xs = Some r" by blast
  then have "maxHLC hs = Some r" by (simp add: hs maxHLC_def step_def)
  moreover have "compareHLC h r \<le> 0" using maxHLC_fold [OF r [unfolded step_def]] assms by (auto simp: hs)
  ultimately show ?thesis by (rule that)
qed

lemma stamped_below:
  assumes "well_stamped css" "c \<in> set (batch_changes css)"
  shows "\<exists>h. maxHLC (map cs_hlc css) = Some h \<and> compareHLC (change_hlc c) h \<le> 0"
proof -
  obtain cs where cs: "cs \<in> set css" "c \<in> set (cs_changes cs)" using assms(2) by (auto simp: batch_changes_def)
  then have "cs_hlc cs \<in> set (map cs_hlc css)" by simp
  then obtain m where "maxHLC (map cs_hlc css) = Some m" "compareHLC (cs_hlc cs) m \<le> 0" by (rule maxHLC_upper)
  moreover have "compareHLC (change_hlc c) (cs_hlc cs) \<le> 0" using assms(1) cs by (auto simp: well_stamped_def)
  ultimately show ?thesis using hlc_order.cmp_trans [of "change_hlc c" "cs_hlc cs" m] by auto
qed

lemma batch_facts_of:
  assumes "well_stamped css" "\<And>r. r \<in> set rs \<Longrightarrow> rc_change r \<in> set (batch_changes css)" "set held \<subseteq> set (batch_changes css)"
  shows "batch_facts E (maxHLC (map cs_hlc css)) (collapseInBatchRepeats E rs @ heldFacts (holdOptions disp held now))"
proof -
  have plain: "\<not> is_held f \<and> fact_change f \<in> set (batch_changes css)" if f: "f \<in> set (collapseInBatchRepeats E rs)" for f
  proof -
    obtain r where r: "r \<in> set rs" "f = fact_of r" using collapse_member [OF f] by blast
    then show ?thesis using assms(2) [OF r(1)] by (auto simp: fact_of_def split: change.split)
  qed
  have other: "is_held f \<and> fact_change f \<in> set (batch_changes css)" if "f \<in> set (heldFacts (holdOptions disp held now))" for f
    using that assms(3) by (auto simp: heldFacts_def holdOptions_def split: if_splits)
  have "filter (\<lambda>f. \<not> is_held f) (collapseInBatchRepeats E rs @ heldFacts (holdOptions disp held now)) = collapseInBatchRepeats E rs"
    using plain other by (simp add: filter_id_conv filter_empty_conv)
  moreover have "fw = (disp = DispStoreAndForward)"
    if "HeldFact c r fw \<in> set (collapseInBatchRepeats E rs @ heldFacts (holdOptions disp held now))" for c r fw
    using that plain by (force simp: heldFacts_def holdOptions_def split: if_splits)
  moreover have "\<exists>h. maxHLC (map cs_hlc css) = Some h \<and> compareHLC (change_hlc (fact_change f)) h \<le> 0"
    if "f \<in> set (collapseInBatchRepeats E rs @ heldFacts (holdOptions disp held now))" for f
    using that plain other stamped_below [OF assms(1)] by auto
  ultimately show ?thesis unfolding batch_facts_def using collapse_distinct [of E rs] by metis
qed

section \<open>A whole apply\<close>

lemma commit_ok:
  assumes run: "commitChangeMetadata E H N rs w hold lw R = Inr R'" and ok: "meta_ok E (rep_meta R)"
    and b: "batch_facts E w (collapseInBatchRepeats E rs @ heldFacts hold)"
    and L: "\<And>i k. lawful_commits E (whileCleaning H i k)" "\<And>i. spares E cs (whileCleaning H i 1)"
    and cs: "\<And>r. r \<in> set rs \<Longrightarrow> rc_change r \<in> set cs"
  shows "meta_ok E (rep_meta R') \<and> grows (rep_meta R) (rep_meta R')"
proof (cases "collapseInBatchRepeats E rs @ heldFacts hold = [] \<and> w = None")
  case True
  then show ?thesis using run ok by (simp add: commitChangeMetadata_def)
next
  case False
  then obtain filed S1 where S1: "fileAtNextTick E N (collapseInBatchRepeats E rs @ heldFacts hold) w lw (rep_meta R) = Inr (filed, S1)"
    and R': "R' = cleanup_loop E H lw 0 filed (R\<lparr>rep_meta := S1\<rparr>)"
    using run unfolding commitChangeMetadata_def Let_def by (auto split: sum.splits if_splits)
  have filed: "set filed \<subseteq> set (collapseInBatchRepeats E rs @ heldFacts hold)"
    using S1 unfolding fileAtNextTick_def Let_def by (auto split: sum.splits prod.splits)
  have "RowDeletion d \<in> set cs" if at: "DeleteFact d r \<in> set filed" for d r
  proof -
    have "DeleteFact d r \<in> set (collapseInBatchRepeats E rs)"
      using at filed by (auto simp: heldFacts_def split: option.splits)
    then obtain r' where r': "r' \<in> set rs" "DeleteFact d r = fact_of r'" using collapse_member by blast
    then have "rc_change r' = RowDeletion d" by (auto simp: fact_of_def split: change.splits)
    then show ?thesis using cs [OF r'(1)] by simp
  qed
  moreover have "meta_ok E S1 \<and> grows (rep_meta R) S1" by (rule fileAtNextTick_ok [OF S1 ok b])
  ultimately show ?thesis unfolding R' by (intro cleanup_loop_ok [OF L]) simp_all
qed

lemma applyTracked_ok:
  assumes run: "applyTrackedBatch E H N css (maxHLC (map cs_hlc css)) R = Inr (res, R')" and ok: "meta_ok E (rep_meta R)"
    and L: "\<And>i k. lawful_commits E (whileResolving H i k)" "lawful_commits E (beforeWrite H)" "lawful_commits E (beforeFiling H)"
      "\<And>i k. lawful_commits E (whileCleaning H i k)" "\<And>i. spares E (batch_changes css) (whileCleaning H i 1)"
    and css: "well_stamped css"
  shows "meta_ok E (rep_meta R') \<and> grows (rep_meta R) (rep_meta R')"
proof -
  obtain ds R0 where R0: "resolve_loop E H 0 (to_resolve E (batch_changes css)) R = (ds, R0)"
    by (cases "resolve_loop E H 0 (to_resolve E (batch_changes css)) R")
  define rs where "rs = filter (\<lambda>r. rc_outcome r = Applied) (batch_outcome E ds)"
  define held where "held = concat (map snd (unknownByTable (filter (\<lambda>c. \<not> own_change E c \<and> \<not> known_table E c) (batch_changes css))))"
  obtain R1 w1 where R1: "beforeWrite H R0 = (R1, w1)" by (cases "beforeWrite H R0")
  obtain db R2 w2 where R2: "beforeFiling H (R1\<lparr>rep_rows := db\<rparr>) = (R2, w2)"
    and R': "commitChangeMetadata E H N rs (maxHLC (map cs_hlc css)) (holdOptions (unknownTableDisposition E) held (now_received N)) w2 R2 = Inr R'"
    using run unfolding applyTrackedBatch_def Let_def R0 prod.case R1 rs_def [symmetric] held_def [symmetric]
    by (auto split: sum.splits prod.splits)
  have "meta_ok E (rep_meta R0) \<and> grows (rep_meta R) (rep_meta R0)"
    using resolve_loop_ok [OF L(1), where R = R and S = "rep_meta R"] ok R0 by (metis grows_refl snd_conv)
  from lawful_step [OF L(2) this] have "meta_ok E (rep_meta (R1\<lparr>rep_rows := db\<rparr>)) \<and> grows (rep_meta R) (rep_meta (R1\<lparr>rep_rows := db\<rparr>))"
    by (simp add: R1)
  from lawful_step [OF L(3) this] have R2_ok: "meta_ok E (rep_meta R2) \<and> grows (rep_meta R) (rep_meta R2)" by (simp add: R2)
  have changes: "rc_change r \<in> set (batch_changes css)" if "r \<in> set rs" for r
    using that outcome_changes [OF R0] by (auto simp: rs_def)
  have "batch_facts E (maxHLC (map cs_hlc css))
      (collapseInBatchRepeats E rs @ heldFacts (holdOptions (unknownTableDisposition E) held (now_received N)))"
  proof (rule batch_facts_of [OF css changes])
    have "set held = set (filter (\<lambda>c. \<not> own_change E c \<and> \<not> known_table E c) (batch_changes css))"
      unfolding held_def using mset_unknownByTable by (metis set_mset_mset)
    then show "set held \<subseteq> set (batch_changes css)" by auto
  qed
  then show ?thesis using commit_ok [OF R' _ _ L(4,5) changes] R2_ok grows_trans by blast
qed

section \<open>An apply returns\<close>

lemma file_loop_returns: "n + length fs \<le> Suc MAX_OPSEQ \<Longrightarrow> \<exists>S'. file_loop E created S0 t n fs S = Inr S'"
  by (induction fs arbitrary: n S) (auto simp: positionsFrom_def split: option.split)

lemma receive_returns: "wallTime r \<le> now + MAX_DRIFT_MS \<Longrightarrow> \<exists>h m'. receive now m r = Inr (h, m')"
  by (simp add: receive_def assertWithinDrift_def Let_def)

lemma merge_clock_returns:
  assumes "\<And>w. wm = Some w \<Longrightarrow> wallTime w \<le> now + MAX_DRIFT_MS"
  shows "\<exists>S'. merge_clock now wm S = Inr S'"
proof (cases wm)
  case (Some w)
  then obtain h m where "receive now (hlcManager S) w = Inr (h, m)" using receive_returns assms by blast
  then show ?thesis using Some by (simp add: merge_clock_def)
qed (simp add: merge_clock_def)

lemma keep_max_length: "length (fold (\<lambda>x m. if P x then keep_max f (K x) x m else m) xs m) \<le> length m + length (filter P xs)"
proof (induction xs arbitrary: m)
  case (Cons x xs)
  have "length (AList.update k y m) \<le> Suc (length m)" for k y by (induction m) auto
  then have "length (keep_max f (K x) x m) \<le> Suc (length m)" by (simp add: keep_max_def le_SucI split: option.split)
  then show ?case using Cons.IH [of m] Cons.IH [of "keep_max f (K x) x m"] by auto
qed simp

lemma collapse_length: "length (collapseInBatchRepeats E rs) \<le> length rs"
proof -
  have "length (filter applied_delete rs) + length (filter applied_column rs) \<le> length rs"
    by (induction rs) (auto simp: applied_delete_def applied_column_def)
  moreover have "length (delete_winners_of E rs) \<le> length (filter applied_delete rs)"
    "length (column_winners_of E rs) \<le> length (filter applied_column rs)"
    using keep_max_length [where m = "[]"] by fastforce+
  ultimately show ?thesis by (simp add: collapse_facts)
qed

lemma fileAtNextTick_returns:
  assumes "length fs \<le> Suc MAX_OPSEQ" "\<And>w. wm = Some w \<Longrightarrow> wallTime w \<le> now_file N + MAX_DRIFT_MS"
  shows "\<exists>filed S'. fileAtNextTick E N fs wm lw S = Inr (filed, S')"
proof -
  let ?fs = "filter (\<lambda>f. \<not> lostToLocalWrite E lw f) fs"
  obtain S1 where S1: "merge_clock (now_file N) wm S = Inr S1" using merge_clock_returns [OF assms(2)] by blast
  have "\<exists>S'. file_loop E (now_created N) S1 t 0 (sort_cmp by_origin ?fs) S2 = Inr S'" for t S2
    using le_trans [OF length_filter_le assms(1)] by (intro file_loop_returns) simp
  then show ?thesis by (auto simp: fileAtNextTick_def Let_def S1 split: prod.split sum.split) (metis sum.distinct(1))
qed

lemma apply_returns:
  assumes "\<And>w. maxHLC (map cs_hlc css) = Some w \<Longrightarrow>
      wallTime w \<le> min (now_check N) (min (now_merge N) (now_file N)) + MAX_DRIFT_MS"
    and store: "\<And>ops sup db. \<exists>db'. applyToStore H ops sup db = Inr db'" and few: "length (batch_changes css) \<le> Suc MAX_OPSEQ"
  shows "\<exists>res R'. applyChanges E H N css R = Inr (res, R')"
proof -
  let ?wm = "maxHLC (map cs_hlc css)"
  have drift: "(case ?wm of None \<Rightarrow> None | Some w \<Rightarrow> assertWithinDrift (wallTime w) (now_check N)) = None"
    using assms(1) by (auto simp: assertWithinDrift_def split: option.split)
  obtain S where S: "merge_clock (now_merge N) ?wm (rep_meta R) = Inr S"
    using merge_clock_returns [of ?wm "now_merge N"] assms(1) by fastforce
  let ?R = "R\<lparr>rep_meta := S\<rparr>"
  obtain ds R0 where R0: "resolve_loop E H 0 (to_resolve E (batch_changes css)) ?R = (ds, R0)"
    by (cases "resolve_loop E H 0 (to_resolve E (batch_changes css)) ?R")
  define rs where "rs = filter (\<lambda>r. rc_outcome r = Applied) (batch_outcome E ds)"
  define held where "held = concat (map snd (unknownByTable (filter (\<lambda>c. \<not> own_change E c \<and> \<not> known_table E c) (batch_changes css))))"
  obtain R1 w1 where R1: "beforeWrite H R0 = (R1, w1)" by (cases "beforeWrite H R0")
  have "\<exists>db. applyDataToStore H ops sup rows = Inr db" for ops sup rows
    using store [of ops sup rows] by (auto simp: applyDataToStore_def)
  then obtain db where db: "applyDataToStore H (orderDataChangesByHLC rs) (supersedes E w1) (rep_rows R1) = Inr db" by blast
  obtain R2 w2 where R2: "beforeFiling H (R1\<lparr>rep_rows := db\<rparr>) = (R2, w2)" by (cases "beforeFiling H (R1\<lparr>rep_rows := db\<rparr>)")
  let ?hold = "holdOptions (unknownTableDisposition E) held (now_received N)"
  let ?known = "filter (\<lambda>c. \<not> own_change E c \<and> known_table E c) (batch_changes css)"
    and ?unknown = "filter (\<lambda>c. \<not> own_change E c \<and> \<not> known_table E c) (batch_changes css)"
  have held: "length held = length ?unknown"
    unfolding held_def using mset_unknownByTable [of ?unknown] by (metis size_mset)
  have "length rs \<le> length (batch_outcome E ds)" by (simp add: rs_def)
  also have "\<dots> = length ds" using outcome_list [of E ds] by (metis length_map)
  also have "\<dots> = length ?known"
    using resolve_loop_changes [of E H 0 "to_resolve E (batch_changes css)" ?R] R0 by (metis fst_conv length_map to_resolve_def)
  finally have rs: "length rs \<le> length ?known" .
  have "length (filter (\<lambda>c. \<not> own_change E c \<and> known_table E c) cs) + length (filter (\<lambda>c. \<not> own_change E c \<and> \<not> known_table E c) cs) \<le> length cs" for cs
    by (induction cs) auto
  from this [of "batch_changes css"]
  have "length rs + length held \<le> length (batch_changes css)" using rs held by linarith
  moreover have "length (heldFacts ?hold) \<le> length held" by (simp add: heldFacts_def holdOptions_def)
  ultimately have "length (collapseInBatchRepeats E rs @ heldFacts ?hold) \<le> length (batch_changes css)"
    using collapse_length [of E rs] by simp
  then have facts: "length (collapseInBatchRepeats E rs @ heldFacts ?hold) \<le> Suc MAX_OPSEQ" using few by simp
  have "\<And>w. ?wm = Some w \<Longrightarrow> wallTime w \<le> now_file N + MAX_DRIFT_MS" using assms(1) by fastforce
  then obtain filed S1 where "fileAtNextTick E N (collapseInBatchRepeats E rs @ heldFacts ?hold) ?wm w2 (rep_meta R2) = Inr (filed, S1)"
    using fileAtNextTick_returns [OF facts, of ?wm N] by blast
  then have "\<exists>R'. commitChangeMetadata E H N rs ?wm ?hold w2 R2 = Inr R'"
    by (simp add: commitChangeMetadata_def Let_def)
  then obtain R' where R': "commitChangeMetadata E H N rs ?wm ?hold w2 R2 = Inr R'" by blast
  show ?thesis
    unfolding applyChanges_def applyTrackedBatch_def Let_def drift
    by (simp add: S R0 R1 rs_def [symmetric] held_def [symmetric] db R2 R')
qed

text \<open>
  C39. Applying a batch keeps a replica's records well formed. If every record is filed under a
  generation of a live table and the identity of its own key, the change log lists exactly the
  records at their positions, positions are distinct, not below the timestamp of their fact and
  keep each transaction's facts of one tick together, and the persisted clock covers every
  position, then all of this holds after the apply, and also after a crash that restarts the
  clock from storage. Whatever the apply files stands above the clock it started from, so a peer
  that has read up to that clock misses nothing. The sets must carry a timestamp not below those
  of their changes. Local commits landing at any \<open>await\<close> of the apply must themselves keep the
  records well formed, and one that lands between the scan and the write of a delete's cleanup
  must stay off the rows of the batch.
\<close>

theorem apply_well_formed:
  assumes "meta_ok E (rep_meta R)" and "well_stamped css"
    and "\<And>i k. lawful_commits E (whileResolving H i k)"
    and "lawful_commits E (beforeWrite H)" and "lawful_commits E (beforeFiling H)"
    and "\<And>i k. lawful_commits E (whileCleaning H i k)" and "\<And>i. spares E (batch_changes css) (whileCleaning H i 1)"
    and "applyChanges E H N css R = Inr (res, R')"
  shows "meta_ok E (rep_meta R') \<and> meta_ok E (restart (rep_meta R')) \<and> grows (rep_meta R) (rep_meta R')"
proof -
  obtain S where S: "merge_clock (now_merge N) (maxHLC (map cs_hlc css)) (rep_meta R) = Inr S"
    and run: "applyTrackedBatch E H N css (maxHLC (map cs_hlc css)) (R\<lparr>rep_meta := S\<rparr>) = Inr (res, R')"
    using assms(8) unfolding applyChanges_def Let_def by (auto split: option.splits sum.splits)
  note m = merge_clock_ok [OF S assms(1)]
  have "meta_ok E (rep_meta R') \<and> grows S (rep_meta R')"
    using applyTracked_ok [OF run _ assms(3-7,2)] m(1) by simp
  then show ?thesis using grows_trans [OF m(2)] meta_ok_restart by blast
qed

lemma demo_meta_ok: "meta_ok demo_env demo_meta"
proof -
  have none: "filings demo_meta s = None" for s by (cases s) (simp_all add: filings_def demo_meta_def)
  have "inj (\<lambda>(s, t). joinKeyParts [s, t])" by (auto simp: inj_def joinKeyParts_inj)
  then have "catalog_ok demo_env demo_meta"
    by (simp add: catalog_ok_def generations_ok_def fresh_generations_def addressed_ok_def generations_def demo_meta_def demo_env_def)
  moreover have "log_of demo_meta lk = None" for lk
    by (auto simp: log_of_def demo_meta_def split: prod.split entry_type.split option.split)
  then have "log_exact demo_meta" by (simp add: log_exact_def demo_meta_def fun_eq_iff)
  moreover have "stores_ok demo_meta" "persistedClock demo_meta = None" by (simp_all add: stores_ok_def demo_meta_def)
  ultimately show ?thesis by (simp add: meta_ok_def records_ok_def durable_def positions_ok_def contiguous_def none)
qed

lemma demo_apply_returns:
  "\<exists>res R'. applyChanges demo_env demo_host demo_clock [demo_set (demo_write 10 7), demo_set (demo_delete 20)] demo_replica = Inr (res, R')"
proof (rule apply_returns)
  show "\<exists>db'. applyToStore demo_host ops sup db = Inr db'" for ops sup db by (simp add: demo_host_def)
qed (auto simp: maxHLC_def demo_set_def demo_write_def demo_delete_def demo_clock_def batch_changes_def createHLC_def
    MAX_DRIFT_MS_def MAX_OPSEQ_def split: if_splits)

theorem apply_well_formed_witness:
  "meta_ok demo_env demo_meta \<and> well_stamped [demo_set (demo_write 10 7), demo_set (demo_delete 20)] \<and>
   lawful_commits demo_env (whileResolving demo_host 0 0) \<and> lawful_commits demo_env (beforeWrite demo_host) \<and>
   lawful_commits demo_env (beforeFiling demo_host) \<and> lawful_commits demo_env (whileCleaning demo_host 0 1) \<and>
   (\<exists>res R'. applyChanges demo_env demo_host demo_clock [demo_set (demo_write 10 7), demo_set (demo_delete 20)] demo_replica = Inr (res, R') \<and>
      meta_ok demo_env (rep_meta R') \<and> meta_ok demo_env (restart (rep_meta R')) \<and> grows demo_meta (rep_meta R'))"
proof -
  have stamped: "well_stamped [demo_set (demo_write 10 7), demo_set (demo_delete 20)]"
    by (simp add: well_stamped_def demo_set_def hlc_order.cmp_refl)
  have lawful: "lawful_commits demo_env (whileResolving demo_host i k)" "lawful_commits demo_env (beforeWrite demo_host)"
    "lawful_commits demo_env (beforeFiling demo_host)" "lawful_commits demo_env (whileCleaning demo_host i k)" for i k
    by (simp_all add: lawful_commits_def demo_host_def grows_refl)
  have quiet: "spares demo_env cs (whileCleaning demo_host i 1)" for cs i
    by (simp add: spares_def reads_alike_def demo_host_def)
  have start: "rep_meta demo_replica = demo_meta" by (simp add: demo_replica_def)
  obtain res R' where run: "applyChanges demo_env demo_host demo_clock
      [demo_set (demo_write 10 7), demo_set (demo_delete 20)] demo_replica = Inr (res, R')" using demo_apply_returns by blast
  have "meta_ok demo_env (rep_meta R') \<and> meta_ok demo_env (restart (rep_meta R')) \<and> grows demo_meta (rep_meta R')"
    using apply_well_formed [OF _ stamped lawful quiet run] demo_meta_ok unfolding start by blast
  then show ?thesis using demo_meta_ok stamped lawful run by blast
qed

end
