(* ===== verification/Spec2Isabelle.thy ===== *)
theory Spec2Isabelle
  imports Paged_Iterate Cached_Store Effective_Reads Merge_Streams Fd_Join_Facts Sync_Preserve
begin

text \<open>
  Quereus is an SQL engine in TypeScript. Its packages, and how they meet:

  \<^item> \<open>quereus\<close> plans and runs statements. The planner attaches facts to plan nodes (keys,
    functional dependencies, equivalence classes) and chooses join algorithms from them; the
    runtime evaluates joins and orders rows with the comparators of \<open>util/comparison.ts\<close>.
  \<^item> \<open>quereus-store\<close> keeps tables in ordered key-value stores. Rows are filed under keys whose
    byte order must be the order of the comparators; a coordinator buffers the writes of a
    transaction, and reads merge the buffer with the store. A cache and a paged scan sit between
    the coordinator and a back end.
  \<^item> \<open>quereus-isolation\<close> merges a transaction's overlay rows with committed rows in key order.
  \<^item> \<open>quereus-sync\<close> replicates rows between sites: a hybrid logical clock stamps changes, and a
    replica files cell versions, tombstones and a change log under primary-key identities.

  Paths below are relative to src/packages.

  \<^bold>\<open>Shared ground.\<close>
  \<^item> \<open>Prelude\<close>: comparators as functions to \<^typ>\<open>int\<close> with the contract \<open>comparator_on\<close> (a total
    preorder by sign, on a set) and \<open>discriminating_comparator_on\<close> (zero only on equals); their
    lexicographic lifting; \<open>sep_encoder\<close>, encodings whose images compare before they can end;
    the stable sort \<open>sort_cmp\<close> that stands for \<open>Array.prototype.sort\<close>.
  \<^item> \<open>Js_Values\<close>: doubles as their 64 bits with the IEEE order, bigints as \<^typ>\<open>int\<close>, strings as
    lists of 16-bit units with UTF-8 and the JSON text of JSON.stringify, SQL values.

  \<^bold>\<open>Values and their order\<close> (quereus/src/util).
  \<^item> \<open>Json_Canonical\<close> (json-canonical.ts): the canonical text identifies JSON values up to the
    order of object keys, except for a key named \<open>__proto__\<close>, which is lost.
  \<^item> \<open>Comparison\<close>, \<open>Sql_Compare\<close> (comparison.ts): collations, storage classes, the value, ORDER BY
    and row comparators. They are total preorders, code points compare as UTF-8 bytes, NULL
    placement is absolute, and collation refinement is sound. The host's \<open>toLowerCase\<close> is a
    parameter. What a column may hold is a carrier set: the TIMESPAN type of
    types/temporal-types.ts, whose \<open>compare\<close> reads \<open>Temporal.Duration\<close> totals (a parameter), is
    lawful on texts that have a total, and runs in a cycle once a text without one is admitted.
  \<^item> \<open>Key_Serializer\<close> (key-serializer.ts): text keys of hash operations and primary-key identities.

  \<^bold>\<open>Storage keys\<close> (quereus-store/src/common/bytes.ts, encoding.ts).
  \<^item> \<open>Bytes\<close>, \<open>Decimal_Text\<close>, \<open>Num_Encoding\<close>, \<open>Key_Encoding\<close>: byte strings, number texts, the
    17-byte numeric keys and composite keys. Key bytes compare as the rows do, and decode; integers
    wider than 116 bits wrap in the residual, with a collision exhibited.

  \<^bold>\<open>Stores and transactions\<close> (quereus-store/src/common, quereus-isolation/src).
  \<^item> \<open>Kv_Store\<close> (kv-store.ts, memory-store.ts): the interface as a record of operations over a
    state, its promises as the locale \<open>kv_contract\<close>, met by the in-memory store.
  \<^item> \<open>Paged_Iterate\<close> (paged-iterate.ts): the scan is a \<open>partial_function (option)\<close>, because a back
    end that keeps returning full pages would keep it running; over a lawful back end it returns,
    with the entries of a direct scan.
  \<^item> \<open>Cached_Store\<close> (cached-kv-store.ts): the cache over any store of the contract meets the contract
    again; its linked list is the recency order. A put of a key that is not cached ends within
    the byte limit; an overwrite of a cached key does not evict, so it can end above it. A \<open>get\<close> whose back-end read comes before a \<open>put\<close> of the same key, and whose
    insertion comes after it, leaves the old value cached.
  \<^item> \<open>Transaction\<close> (transaction.ts): the coordinator's log, per-store index and savepoints, with
    its invariant over every reachable state; rollback restores, derived operations commute with
    rollback, commit is all or nothing per store. Effects outside the coordinator are an
    environment over a world (locale \<open>txn_world\<close>). Store writes, atomic batches and \<open>onCommit\<close>
    may throw; \<open>onRollback\<close> and the reads of \<open>queueDerivedOps\<close> return.
  \<^item> \<open>Effective_Reads\<close> (store-table-base.ts): reads inside a transaction are the reads after it.
  \<^item> \<open>Merge_Streams\<close> (merge-iterator.ts, merge-types.ts, isolated-table.ts): the overlay merge,
    and the merge of a secondary-index scan. The first drops a committed row when an overlay row
    has its sort key, not its primary key; the second drops by primary key and merges the rest.

  \<^bold>\<open>Planner facts and joins\<close> (quereus/src/planner, quereus/src/runtime/emit).
  \<^item> \<open>Fd_Types\<close>, \<open>Fd_Core\<close>, \<open>Fd_Sound\<close>, \<open>Fd_Keys\<close>, \<open>Fd_Facts\<close> (nodes/plan-node.ts,
    util/fd-utils.ts): facts, what each claims of a list of rows, their algebra with its size caps,
    and that every operation keeps the claims true. Closure loops run until no dependency adds a
    column; each pass that continues adds one, so the number of columns bounds them.
  \<^item> \<open>Join_Exec\<close> (emit/join.ts, bloom-join.ts, merge-join.ts): the three join loops, and that the
    hash join and, on sorted inputs, the merge join emit the rows of the nested loop, under the
    conditions on key values and collations that their properties name.
  \<^item> \<open>Fd_Join\<close>, \<open>Fd_Join_Sound\<close>, \<open>Fd_Join_Facts\<close> (util/key-utils.ts, nodes/join-utils.ts): every
    fact the planner derives for a join is true of the rows the join loop emits.

  \<^bold>\<open>Replication\<close> (quereus-sync/src).
  \<^item> \<open>Hlc\<close> (clock/hlc.ts, clock/site.ts): clock values, their order and formats, the manager; the
    reading of the wall clock is an argument.
  \<^item> \<open>Sync_Keys\<close>, \<open>Sync_Records\<close> (metadata): key texts with their inverse, and the stores of a
    replica as one record of association lists, one per key range. A key is the tuple its text
    spells. A record is filed under the generation of its table, 16 random bytes in the source and
    a function of the table name here: an apply draws at most once per table, as it stores the draw
    and drops no table.
  \<^item> \<open>Sync_Apply\<close> (sync/change-applicator.ts, local-write-tracker.ts, admission.ts,
    conflict-resolvers.ts): \<open>applyChanges\<close> as a function of the configuration, the host, the clock
    readings, the change sets and the replica. Local commits that interleave with it are functions
    of the host, one per point where the code awaits: before each read of a resolution, before
    the data write, before the filing, and before the scan and before the write of each delete's
    cleanup. A property that restricts what they do says so in its hypotheses.
  \<^item> \<open>Sync_Order\<close>: the outcome of an apply does not depend on the arrival order of the batch,
    provided that no commit during the resolutions or the cleanups touches what the batch reads
    (\<open>spares\<close>).
  \<^item> \<open>Sync_Inv\<close>, \<open>Sync_Filing\<close>, \<open>Sync_Preserve\<close>: the well-formedness \<open>meta_ok\<close> of a replica's
    records (addresses, change log, positions, persisted clock) and that an apply keeps it, files
    only above the clock it starts from, and returns whenever the batch is within the drift bound,
    fits one tick (at most \<open>MAX_OPSEQ\<close> + 1 changes) and the row store accepts it. The commits in
    between are lawful (they keep \<open>meta_ok\<close> and only advance the clock), and none lands on a
    deleted row between its cleanup's scan and write: such a commit can lose its log entry.

  \<^bold>\<open>Not modelled.\<close> The SQL parser, schema management, plan building and rewriting, view mutation:
  transformations of syntax trees and plan nodes with no specification apart from the SQL they
  stand for. The scheduler and the emitters other than joins, the functions and the other temporal types,
  the database facade: orchestration around the host's promises and its Temporal library. The
  in-memory virtual table, which rests on the sharing discipline of the external B-tree package
  inheritree. The key-value back ends, coordinator server, clients and user interfaces: I/O. In
  quereus-sync: schema migrations inside a batch, snapshots, re-keying after a key change, the
  capture of local commits and the row store adapter, which act through engine events and
  statements; events, logging and the record byte formats.
\<close>

end
